(* ===== verification/Prelude.thy ===== *)
theory Prelude
  imports "HOL-Library.Word"
begin

text \<open>
  What every component shares: Rust's fixed-width arithmetic on natural numbers, its
  \<open>Duration\<close> and \<open>Instant\<close>, bytes, little- and big-endian integers on the wire, and the
  generic list lemmas the component proofs need.

  An unsigned integer of \<open>w\<close> bits that is only counted, compared and saturated is a \<open>nat\<close>,
  with the saturation or the wrap-around written out by the operations below; an integer that
  is laid out in bytes or tested bit by bit is a \<open>w word\<close>. Rust's \<open>saturating_sub\<close> is the
  truncated subtraction of \<open>nat\<close>.
\<close>

unbundle bit_operations_syntax

type_synonym byte = "8 word"

section \<open>Collections of rewrite rules\<close>

named_theorems rust_arith \<open>unfolding rules of Rust's checked and saturating arithmetic\<close>
named_theorems layout_simps \<open>sizes and field positions of the wire formats\<close>

section \<open>Unsigned arithmetic\<close>

definition umax :: "nat \<Rightarrow> nat" where
  "umax w = 2 ^ w - 1"

definition sat_add :: "nat \<Rightarrow> nat \<Rightarrow> nat \<Rightarrow> nat" where
  "sat_add w a b = min (a + b) (umax w)"

definition sat_mul :: "nat \<Rightarrow> nat \<Rightarrow> nat \<Rightarrow> nat" where
  "sat_mul w a b = min (a * b) (umax w)"

definition wrap_add :: "nat \<Rightarrow> nat \<Rightarrow> nat \<Rightarrow> nat" where
  "wrap_add w a b = (a + b) mod 2 ^ w"

definition wrap_sub :: "nat \<Rightarrow> nat \<Rightarrow> nat \<Rightarrow> nat" where
  "wrap_sub w a b = (a + (2 ^ w - b mod 2 ^ w)) mod 2 ^ w"

text \<open>\<open>uN::try_from(x).unwrap_or(uN::MAX)\<close> of a wider value.\<close>

definition to_width :: "nat \<Rightarrow> nat \<Rightarrow> nat" where
  "to_width w x = (if x \<le> umax w then x else umax w)"

definition checked_div :: "nat \<Rightarrow> nat \<Rightarrow> nat option" where
  "checked_div a b = (if b = 0 then None else Some (a div b))"

definition div_ceil :: "nat \<Rightarrow> nat \<Rightarrow> nat" where
  "div_ceil a b = a div b + (if a mod b > 0 then 1 else 0)"

definition next_multiple_of :: "nat \<Rightarrow> nat \<Rightarrow> nat" where
  "next_multiple_of a b = (if a mod b = 0 then a else a + (b - a mod b))"

definition abs_diff :: "nat \<Rightarrow> nat \<Rightarrow> nat" where
  "abs_diff a b = (if a < b then b - a else a - b)"

text \<open>
  \<open>Ord::clamp\<close> asserts that its bounds are ordered. Every use below has \<open>lo \<le> hi\<close>: by
  constants, by an invariant, or by a condition on the configuration that the theorems state.
\<close>

definition clamp :: "'a::linorder \<Rightarrow> 'a \<Rightarrow> 'a \<Rightarrow> 'a" where
  "clamp lo hi x = (if x < lo then lo else if x > hi then hi else x)"

definition opt_or :: "'a option \<Rightarrow> 'a \<Rightarrow> 'a" where
  "opt_or x d = (case x of None \<Rightarrow> d | Some y \<Rightarrow> y)"

section \<open>Durations and instants\<close>

text \<open>
  \<open>std::time::Duration\<close> is a \<open>u64\<close> of seconds and a \<open>u32\<close> of nanoseconds below a thousand
  million: a natural number of nanoseconds up to \<open>duration_max\<close>. An \<open>Instant\<close> is a timespec
  with an \<open>i64\<close> of seconds: an integer of nanoseconds on the process's monotonic clock.
\<close>

type_synonym duration = nat
type_synonym instant = int

definition duration_max :: duration where
  "duration_max = (2 ^ 64 - 1) * 1000000000 + 999999999"

definition dur_add :: "duration \<Rightarrow> duration \<Rightarrow> duration" where
  "dur_add a b = min (a + b) duration_max"

definition dur_mul :: "duration \<Rightarrow> nat \<Rightarrow> duration" where
  "dur_mul d k = min (d * k) duration_max"

definition from_secs :: "nat \<Rightarrow> duration" where
  "from_secs s = s * 1000000000"

definition from_millis :: "nat \<Rightarrow> duration" where
  "from_millis ms = ms * 1000000"

definition from_micros :: "nat \<Rightarrow> duration" where
  "from_micros us = us * 1000"

definition as_millis :: "duration \<Rightarrow> nat" where
  "as_millis d = d div 1000000"

definition as_micros :: "duration \<Rightarrow> nat" where
  "as_micros d = d div 1000"

definition instant_min :: instant where
  "instant_min = - (2 ^ 63) * 1000000000"

definition instant_max :: instant where
  "instant_max = (2 ^ 63 - 1) * 1000000000 + 999999999"

definition inst_add :: "instant \<Rightarrow> duration \<Rightarrow> instant option" where
  "inst_add t d = (if t + int d \<le> instant_max then Some (t + int d) else None)"

definition inst_sub :: "instant \<Rightarrow> duration \<Rightarrow> instant option" where
  "inst_sub t d = (if instant_min \<le> t - int d then Some (t - int d) else None)"

text \<open>\<open>saturating_duration_since\<close>: zero when \<open>earlier\<close> is later.\<close>

definition since :: "instant \<Rightarrow> instant \<Rightarrow> duration" where
  "since now earlier = nat (now - earlier)"

section \<open>Integers on the wire\<close>

fun le_bytes :: "nat \<Rightarrow> nat \<Rightarrow> byte list" where
  "le_bytes 0 x = []"
| "le_bytes (Suc n) x = of_nat x # le_bytes n (x div 256)"

fun le_nat :: "byte list \<Rightarrow> nat" where
  "le_nat [] = 0"
| "le_nat (b # bs) = unat b + 256 * le_nat bs"

definition be_bytes :: "nat \<Rightarrow> nat \<Rightarrow> byte list" where
  "be_bytes n x = rev (le_bytes n x)"

definition be_nat :: "byte list \<Rightarrow> nat" where
  "be_nat bs = le_nat (rev bs)"

text \<open>\<open>slice.get(from..to)\<close>.\<close>

definition get_range :: "'a list \<Rightarrow> nat \<Rightarrow> nat \<Rightarrow> 'a list option" where
  "get_range xs i j = (if i \<le> j \<and> j \<le> length xs then Some (take (j - i) (drop i xs)) else None)"

section \<open>Lemmas on arithmetic\<close>

lemma umax_pos [simp]: "0 < w \<Longrightarrow> 0 < umax w"
  using one_less_power [of "2::nat" w] by (simp add: umax_def)

lemma sat_add_le: "sat_add w a b \<le> umax w"
  by (simp add: sat_add_def)

lemma sat_add_ge: "a \<le> umax w \<Longrightarrow> a \<le> sat_add w a b"
  by (simp add: sat_add_def)

lemma sat_add_mono: "a \<le> a' \<Longrightarrow> b \<le> b' \<Longrightarrow> sat_add w a b \<le> sat_add w a' b'"
  unfolding sat_add_def by linarith

lemma sat_add_exact: "a + b \<le> umax w \<Longrightarrow> sat_add w a b = a + b"
  by (simp add: sat_add_def)

lemma sat_mul_le: "sat_mul w a b \<le> umax w"
  by (simp add: sat_mul_def)

lemma sat_mul_exact: "a * b \<le> umax w \<Longrightarrow> sat_mul w a b = a * b"
  by (simp add: sat_mul_def)

lemma to_width_le [simp]: "to_width w x \<le> umax w"
  by (simp add: to_width_def)

lemma to_width_exact: "x \<le> umax w \<Longrightarrow> to_width w x = x"
  by (simp add: to_width_def)

lemma clamp_bounds: "lo \<le> hi \<Longrightarrow> lo \<le> clamp lo hi x \<and> clamp lo hi x \<le> hi"
  by (auto simp: clamp_def)

lemma clamp_id: "lo \<le> x \<Longrightarrow> x \<le> hi \<Longrightarrow> clamp lo hi x = x"
  by (auto simp: clamp_def)

lemma clamp_mono: "lo \<le> hi \<Longrightarrow> x \<le> y \<Longrightarrow> clamp lo hi x \<le> clamp lo hi y"
  unfolding clamp_def by auto

lemma opt_or_simps [simp]: "opt_or None d = d" "opt_or (Some x) d = x"
  by (simp_all add: opt_or_def)

lemma div_ceil_le_iff: "0 < b \<Longrightarrow> div_ceil a b \<le> n \<longleftrightarrow> a \<le> n * b"
proof -
  assume b: "0 < b"
  have a: "a = (a div b) * b + a mod b" by simp
  show ?thesis
  proof (cases "a mod b = 0")
    case True
    then have "a = (a div b) * b" using a by simp
    then have "a \<le> n * b \<longleftrightarrow> (a div b) * b \<le> n * b" by simp
    also have "\<dots> \<longleftrightarrow> a div b \<le> n" using b by simp
    finally show ?thesis using True by (simp add: div_ceil_def)
  next
    case False
    have "a \<le> n * b \<longleftrightarrow> a div b < n"
      using False b by (metis div_less_iff_less_mult div_mult_self_is_m dvd_eq_mod_eq_0 dvd_triv_right le_neq_implies_less less_imp_le_nat not_le)
    then show ?thesis using False by (simp add: div_ceil_def Suc_le_eq)
  qed
qed

lemma div_ceil_upper: "0 < b \<Longrightarrow> a \<le> div_ceil a b * b"
  using div_ceil_le_iff [of b a "div_ceil a b"] by simp

lemma div_ceil_pos: "0 < a \<Longrightarrow> 0 < b \<Longrightarrow> 0 < div_ceil a b"
  using div_ceil_le_iff [of b a 0] by simp

lemma div_ceil_tight: "0 < b \<Longrightarrow> div_ceil a b * b < a + b"
proof -
  assume b: "0 < b"
  have a: "a = (a div b) * b + a mod b" by simp
  show ?thesis
  proof (cases "a mod b = 0")
    case True
    then have "div_ceil a b * b = a" using a by (simp add: div_ceil_def)
    then show ?thesis using b by simp
  next
    case False
    then have "div_ceil a b * b = (a div b) * b + b" by (simp add: div_ceil_def)
    then show ?thesis using a False by linarith
  qed
qed

lemma next_multiple_of_bounds:
  "0 < b \<Longrightarrow> a \<le> next_multiple_of a b \<and> next_multiple_of a b < a + b"
proof -
  assume "0 < b"
  then have "a mod b < b" by simp
  then show ?thesis unfolding next_multiple_of_def by (simp split: if_split) linarith
qed

lemma next_multiple_of_dvd: "0 < b \<Longrightarrow> b dvd next_multiple_of a b"
proof -
  assume b: "0 < b"
  show ?thesis
  proof (cases "a mod b = 0")
    case True
    then show ?thesis by (auto simp: next_multiple_of_def)
  next
    case False
    have "a + (b - a mod b) = (a div b) * b + b"
      using b mod_less_divisor [OF b, of a] div_mult_mod_eq [of a b] by linarith
    then show ?thesis using False by (simp add: next_multiple_of_def)
  qed
qed

section \<open>Lemmas on durations and instants\<close>

lemma dur_add_le: "dur_add a b \<le> duration_max"
  by (simp add: dur_add_def)

lemma dur_add_ge1: "a \<le> duration_max \<Longrightarrow> a \<le> dur_add a b"
  by (simp add: dur_add_def)

lemma dur_add_mono: "a \<le> a' \<Longrightarrow> b \<le> b' \<Longrightarrow> dur_add a b \<le> dur_add a' b'"
  unfolding dur_add_def by linarith

lemma since_zero [simp]: "now \<le> t \<Longrightarrow> since now t = 0"
  by (simp add: since_def)

lemma since_self [simp]: "since t t = 0"
  by (simp add: since_def)

lemma since_mono: "now \<le> now' \<Longrightarrow> since now t \<le> since now' t"
  by (simp add: since_def nat_mono)

section \<open>Lemmas on integers on the wire\<close>

lemma length_le_bytes [simp]: "length (le_bytes n x) = n"
  by (induction n arbitrary: x) auto

lemma length_be_bytes [simp]: "length (be_bytes n x) = n"
  by (simp add: be_bytes_def)

lemma le_nat_le_bytes: "le_nat (le_bytes n x) = x mod 256 ^ n"
proof (induction n arbitrary: x)
  case 0
  then show ?case by simp
next
  case (Suc n)
  have "unat (of_nat x :: byte) = x mod 256" by (simp add: unat_of_nat)
  then show ?case using Suc by (simp add: mod_mult2_eq)
qed

lemma unat_byte_less: "unat (b :: byte) < 256"
proof -
  have "unat b < 2 ^ LENGTH(8)" by (rule unsigned_less)
  then show ?thesis by simp
qed

lemma le_nat_bound: "le_nat bs < 256 ^ length bs"
proof (induction bs)
  case Nil
  then show ?case by simp
next
  case (Cons b bs)
  have "u + 256 * k < 256 * m" if "u < 256" "k < m" for u k m :: nat
    using that by linarith
  from this [OF unat_byte_less Cons] show ?case by simp
qed

lemma le_bytes_le_nat: "le_bytes (length bs) (le_nat bs) = bs"
proof (induction bs)
  case Nil
  then show ?case by simp
next
  case (Cons b bs)
  have u: "unat b < 256" by (rule unat_byte_less)
  have zero: "(256 :: byte) = 0" by simp
  have "of_nat (unat b + 256 * le_nat bs) = b"
    by (simp add: zero)
  moreover have "(unat b + 256 * le_nat bs) div 256 = le_nat bs" using u by simp
  ultimately show ?case using Cons by simp
qed

lemma be_nat_be_bytes: "be_nat (be_bytes n x) = x mod 256 ^ n"
  by (simp add: be_nat_def be_bytes_def le_nat_le_bytes)

lemma be_nat_bound: "be_nat bs < 256 ^ length bs"
  using le_nat_bound [of "rev bs"] by (simp add: be_nat_def)

lemma unat_word_small: "n < 2 ^ LENGTH('a) \<Longrightarrow> unat (word_of_nat n :: 'a::len word) = n"
  by (simp add: unat_of_nat)

text \<open>A field of a fixed-layout struct: \<open>n\<close> bytes little-endian, read back as the same word.\<close>

lemma word_of_le_bytes:
  fixes x :: "'a::len word"
  assumes "LENGTH('a) = 8 * n"
  shows "word_of_nat (le_nat (le_bytes n (unat x))) = x"
proof -
  have "(256::nat) ^ n = 2 ^ LENGTH('a)"
    by (simp add: assms power_mult)
  moreover have "unat x < 2 ^ LENGTH('a)" by (rule unsigned_less)
  ultimately have "unat x < 256 ^ n" by simp
  then show ?thesis by (simp add: le_nat_le_bytes)
qed

lemma le_bytes_of_word:
  fixes bs :: "byte list"
  assumes "LENGTH('a::len) = 8 * length bs"
  shows "le_bytes (length bs) (unat (word_of_nat (le_nat bs) :: 'a word)) = bs"
proof -
  have "(256::nat) ^ length bs = 2 ^ LENGTH('a)"
    by (simp add: assms power_mult)
  then have "unat (word_of_nat (le_nat bs) :: 'a word) = le_nat bs"
    using le_nat_bound [of bs] by (simp add: unat_of_nat)
  then show ?thesis by (simp add: le_bytes_le_nat)
qed

section \<open>Lemmas on lists\<close>

lemma get_range_Some:
  "get_range xs i j = Some ys \<longleftrightarrow> i \<le> j \<and> j \<le> length xs \<and> ys = take (j - i) (drop i xs)"
  by (auto simp: get_range_def)

lemma filter_length_update:
  "i < length xs \<Longrightarrow> \<not> P (xs ! i) \<Longrightarrow> P y \<Longrightarrow>
   length (filter P (xs[i := y])) = Suc (length (filter P xs))"
proof (induction xs arbitrary: i)
  case Nil
  then show ?case by simp
next
  case (Cons x xs)
  then show ?case by (cases i) auto
qed

lemma sorted_wrt_filter_map:
  "sorted_wrt R (map f xs) \<Longrightarrow> sorted_wrt R (map f (filter P xs))"
  by (induction xs) auto

end
