(* ===== verification/Ordered_Map.thy ===== *)
theory Ordered_Map
  imports Prelude
begin

text \<open>
  \<open>std::collections::BTreeMap\<close> with integer keys, as far as the reassembler uses it: lookup,
  insertion, \<open>entry().or_insert_with()\<close>, removal, \<open>retain\<close> by key, and iteration in key
  order. The model is an association list in ascending key order, so iteration is the list
  itself. The locale \<open>ordered_map\<close> is the contract the reassembler relies on; the
  interpretation \<open>om\<close> discharges it for the association list.
\<close>

type_synonym 'v omap = "(nat \<times> 'v) list"

definition om_ok :: "'v omap \<Rightarrow> bool" where
  "om_ok m \<longleftrightarrow> sorted_wrt (<) (map fst m)"

definition om_keys :: "'v omap \<Rightarrow> nat set" where
  "om_keys m = fst ` set m"

definition om_get :: "'v omap \<Rightarrow> nat \<Rightarrow> 'v option" where
  "om_get m k = map_of m k"

definition om_has :: "'v omap \<Rightarrow> nat \<Rightarrow> bool" where
  "om_has m k = list_ex (\<lambda>e. fst e = k) m"

fun om_place :: "nat \<Rightarrow> 'v \<Rightarrow> 'v omap \<Rightarrow> 'v omap" where
  "om_place k v [] = [(k, v)]"
| "om_place k v (e # m) = (if k < fst e then (k, v) # e # m else e # om_place k v m)"

definition om_set :: "nat \<Rightarrow> 'v \<Rightarrow> 'v omap \<Rightarrow> 'v omap" where
  "om_set k v m = map (\<lambda>e. if fst e = k then (k, v) else e) m"

definition om_insert :: "nat \<Rightarrow> 'v \<Rightarrow> 'v omap \<Rightarrow> 'v omap" where
  "om_insert k v m = (if om_has m k then om_set k v m else om_place k v m)"

definition om_entry :: "nat \<Rightarrow> 'v \<Rightarrow> 'v omap \<Rightarrow> 'v omap" where
  "om_entry k v m = (if om_has m k then m else om_place k v m)"

definition om_remove :: "nat \<Rightarrow> 'v omap \<Rightarrow> 'v omap" where
  "om_remove k m = filter (\<lambda>e. fst e \<noteq> k) m"

definition om_retain :: "(nat \<Rightarrow> bool) \<Rightarrow> 'v omap \<Rightarrow> 'v omap" where
  "om_retain P m = filter (\<lambda>e. P (fst e)) m"

section \<open>The contract\<close>

locale ordered_map =
  fixes ok :: "'m \<Rightarrow> bool"
    and keys :: "'m \<Rightarrow> nat set"
    and get :: "'m \<Rightarrow> nat \<Rightarrow> 'v option"
    and insert :: "nat \<Rightarrow> 'v \<Rightarrow> 'm \<Rightarrow> 'm"
    and entry :: "nat \<Rightarrow> 'v \<Rightarrow> 'm \<Rightarrow> 'm"
    and remove :: "nat \<Rightarrow> 'm \<Rightarrow> 'm"
    and retain :: "(nat \<Rightarrow> bool) \<Rightarrow> 'm \<Rightarrow> 'm"
    and entries :: "'m \<Rightarrow> (nat \<times> 'v) list"
  assumes keys_get: "k \<in> keys m \<longleftrightarrow> get m k \<noteq> None"
    and get_insert: "get (insert k v m) j = (if j = k then Some v else get m j)"
    and get_entry: "get (entry k v m) j = (if j = k \<and> get m k = None then Some v else get m j)"
    and get_remove: "get (remove k m) j = (if j = k then None else get m j)"
    and get_retain: "get (retain P m) j = (if P j then get m j else None)"
    and ok_insert: "ok m \<Longrightarrow> ok (insert k v m)"
    and ok_entry: "ok m \<Longrightarrow> ok (entry k v m)"
    and ok_remove: "ok m \<Longrightarrow> ok (remove k m)"
    and ok_retain: "ok m \<Longrightarrow> ok (retain P m)"
    and entries_sorted: "ok m \<Longrightarrow> sorted_wrt (<) (map fst (entries m))"
    and entries_get: "ok m \<Longrightarrow> (k, v) \<in> set (entries m) \<longleftrightarrow> get m k = Some v"
begin

lemma keys_insert: "keys (insert k v m) = Set.insert k (keys m)"
  by (auto simp: keys_get get_insert split: if_splits)

lemma keys_entry: "keys (entry k v m) = Set.insert k (keys m)"
  by (auto simp: keys_get get_entry split: if_splits)

lemma keys_remove: "keys (remove k m) = keys m - {k}"
  by (auto simp: keys_get get_remove split: if_splits)

lemma keys_retain: "keys (retain P m) = {k \<in> keys m. P k}"
  by (auto simp: keys_get get_retain split: if_splits)

lemma keys_entries: "ok m \<Longrightarrow> keys m = fst ` set (entries m)"
  using entries_get by (force simp: keys_get image_iff)

lemma length_entries: "ok m \<Longrightarrow> length (entries m) = card (keys m)"
proof -
  assume ok: "ok m"
  then have "distinct (map fst (entries m))"
    using entries_sorted strict_sorted_iff by blast
  then have "card (set (map fst (entries m))) = length (map fst (entries m))"
    by (rule distinct_card)
  then show ?thesis using keys_entries [OF ok] by simp
qed

lemma first_entry:
  assumes ok: "ok m" and entries: "entries m = (k, v) # rest"
  shows "get m k = Some v \<and> (\<forall>j \<in> keys m. k \<le> j)"
proof
  have "(k, v) \<in> set (entries m)" using entries by simp
  then show "get m k = Some v" using entries_get [OF ok] by blast
  have "\<forall>j \<in> set (map fst rest). k < j"
    using entries_sorted [OF ok] entries by simp
  then show "\<forall>j \<in> keys m. k \<le> j"
    using keys_entries [OF ok] entries by (auto simp: less_imp_le)
qed

lemma remove_smaller:
  assumes "ok m" and "get m k \<noteq> None"
  shows "length (entries (remove k m)) < length (entries m)"
proof -
  have fin: "finite (keys m)" using keys_entries [OF assms(1)] by simp
  have "k \<in> keys m" using assms(2) by (simp add: keys_get)
  then have "card (keys m - {k}) < card (keys m)"
    using fin by (metis Diff_subset card_Diff1_less psubset_card_mono)
  then show ?thesis
    using length_entries assms(1) ok_remove keys_remove by metis
qed

end

section \<open>The association list keeps it\<close>

lemma om_has_iff: "om_has m k \<longleftrightarrow> k \<in> fst ` set m"
  by (auto simp: om_has_def list_ex_iff)

lemma om_has_get: "om_has m k \<longleftrightarrow> om_get m k \<noteq> None"
  by (simp add: om_has_iff om_get_def map_of_eq_None_iff)

lemma om_get_set: "om_get (om_set k v m) j = (if j = k \<and> om_has m k then Some v else om_get m j)"
  by (induction m) (auto simp: om_get_def om_set_def om_has_def)

lemma om_get_place:
  "om_has m k = False \<Longrightarrow> om_get (om_place k v m) j = (if j = k then Some v else om_get m j)"
  by (induction m) (auto simp: om_get_def om_has_def)

lemma keys_place: "fst ` set (om_place k v m) = insert k (fst ` set m)"
  by (induction m) auto

lemma om_ok_place: "om_ok m \<Longrightarrow> om_has m k = False \<Longrightarrow> om_ok (om_place k v m)"
proof (induction m)
  case Nil
  then show ?case by (simp add: om_ok_def)
next
  case (Cons e m)
  have set: "set (map fst (om_place k v m)) = insert k (set (map fst m))"
    using keys_place [of k v m] by simp
  show ?case
  proof (cases "k < fst e")
    case True
    with Cons.prems show ?thesis by (auto simp: om_ok_def)
  next
    case False
    with Cons show ?thesis using set by (auto simp: om_ok_def om_has_iff)
  qed
qed

lemma map_fst_om_set [simp]: "map fst (om_set k v m) = map fst m"
  by (induction m) (auto simp: om_set_def)

interpretation om: ordered_map om_ok om_keys om_get om_insert om_entry om_remove om_retain "\<lambda>m. m"
proof
  fix m :: "'b omap" and k j v P
  show "k \<in> om_keys m \<longleftrightarrow> om_get m k \<noteq> None"
    using om_has_get [of m k] by (simp add: om_keys_def om_has_iff)
  show "om_get (om_insert k v m) j = (if j = k then Some v else om_get m j)"
    by (simp add: om_insert_def om_get_set om_get_place)
  show "om_get (om_entry k v m) j = (if j = k \<and> om_get m k = None then Some v else om_get m j)"
    by (auto simp: om_entry_def om_get_place om_has_get)
  show "om_get (om_remove k m) j = (if j = k then None else om_get m j)"
    by (induction m) (auto simp: om_get_def om_remove_def)
  show "om_get (om_retain P m) j = (if P j then om_get m j else None)"
    by (induction m) (auto simp: om_get_def om_retain_def)
  show "om_ok m \<Longrightarrow> om_ok (om_insert k v m)"
    by (auto simp: om_insert_def om_ok_place) (simp add: om_ok_def)
  show "om_ok m \<Longrightarrow> om_ok (om_entry k v m)"
    by (auto simp: om_entry_def om_ok_place)
  show "om_ok m \<Longrightarrow> om_ok (om_remove k m)"
    by (simp add: om_ok_def om_remove_def sorted_wrt_filter_map)
  show "om_ok m \<Longrightarrow> om_ok (om_retain P m)"
    by (simp add: om_ok_def om_retain_def sorted_wrt_filter_map)
  show "om_ok m \<Longrightarrow> sorted_wrt (<) (map fst m)"
    by (simp add: om_ok_def)
  show "om_ok m \<Longrightarrow> (k, v) \<in> set m \<longleftrightarrow> om_get m k = Some v"
  proof -
    assume "om_ok m"
    then have "distinct (map fst m)" by (simp add: om_ok_def strict_sorted_iff)
    then show ?thesis by (auto simp: om_get_def map_of_is_SomeI dest: map_of_SomeD)
  qed
qed

lemmas om_simps = om.get_insert om.get_entry om.get_remove om.get_retain
  om.keys_insert om.keys_entry om.keys_remove om.keys_retain

lemmas om_oks = om.ok_insert om.ok_entry om.ok_remove om.ok_retain

lemma om_ok_Nil [simp]: "om_ok []"
  by (simp add: om_ok_def)

lemma om_keys_Nil [simp]: "om_keys [] = {}"
  by (simp add: om_keys_def)

lemma om_get_Nil [simp]: "om_get [] k = None"
  by (simp add: om_get_def)

lemma om_get_in: "om_get m k = Some v \<Longrightarrow> (k, v) \<in> set m"
  by (auto simp: om_get_def dest: map_of_SomeD)

section \<open>Weights: what a loop over the map consumes\<close>

text \<open>
  The loops that drain and evict frames remove an entry or replace one by a lighter one. The
  sum of weights is their measure, whatever the map holds (no order is needed).
\<close>

definition om_weight :: "('v \<Rightarrow> nat) \<Rightarrow> 'v omap \<Rightarrow> nat" where
  "om_weight w m = sum_list (map (\<lambda>e. w (snd e)) m)"

lemma om_weight_filter: "om_weight w (filter P m) \<le> om_weight w m"
  by (induction m) (auto simp: om_weight_def)

lemma om_weight_remove:
  assumes "om_get m k = Some v" and "0 < w v"
  shows "om_weight w (om_remove k m) < om_weight w m"
  using assms
proof (induction m)
  case Nil
  then show ?case by simp
next
  case (Cons e m)
  show ?case
  proof (cases "fst e = k")
    case True
    then have "snd e = v" using Cons.prems(1) by (cases e) (simp add: om_get_def)
    moreover have "om_weight w (om_remove k m) \<le> om_weight w m"
      by (simp add: om_remove_def om_weight_filter)
    ultimately show ?thesis using True Cons.prems(2) by (simp add: om_weight_def om_remove_def)
  next
    case False
    then have "om_get m k = Some v" using Cons.prems(1) by (cases e) (auto simp: om_get_def)
    from Cons.IH [OF this Cons.prems(2)] False show ?thesis
      by (simp add: om_weight_def om_remove_def)
  qed
qed

lemma om_weight_set_le:
  assumes "\<And>u. w v \<le> w u \<or> u \<notin> snd ` set m"
  shows "om_weight w (om_set k v m) \<le> om_weight w m"
  using assms
proof (induction m)
  case Nil
  then show ?case by (simp add: om_weight_def om_set_def)
next
  case (Cons e m)
  have "w v \<le> w (snd e)" using Cons.prems [of "snd e"] by auto
  moreover have "om_weight w (om_set k v m) \<le> om_weight w m"
    using Cons.prems by (intro Cons.IH) auto
  ultimately show ?case by (auto simp: om_weight_def om_set_def)
qed

lemma om_weight_set:
  assumes "om_get m k = Some u" and "w v < w u" and least: "\<And>x. w v \<le> w x"
  shows "om_weight w (om_set k v m) < om_weight w m"
  using assms(1,2)
proof (induction m)
  case Nil
  then show ?case by simp
next
  case (Cons e m)
  show ?case
  proof (cases "fst e = k")
    case True
    then have "snd e = u" using Cons.prems(1) by (cases e) (simp add: om_get_def)
    moreover have "om_weight w (om_set k v m) \<le> om_weight w m"
      by (rule om_weight_set_le) (simp add: least)
    ultimately show ?thesis using True Cons.prems(2) by (simp add: om_weight_def om_set_def)
  next
    case False
    then have "om_get m k = Some u" using Cons.prems(1) by (cases e) (auto simp: om_get_def)
    from Cons.IH [OF this Cons.prems(2)] False show ?thesis
      by (simp add: om_weight_def om_set_def)
  qed
qed

lemma om_weight_insert:
  assumes "om_get m k = Some u" and "w v < w u" and "\<And>x. w v \<le> w x"
  shows "om_weight w (om_insert k v m) < om_weight w m"
proof -
  have "om_has m k" using assms(1) by (simp add: om_has_get)
  then show ?thesis using om_weight_set [OF assms] by (simp add: om_insert_def)
qed

end
