(* ===== verification/Wire.thy ===== *)
theory Wire
  imports Prelude
begin

text \<open>
  The datagram formats of \<open>slopty-proto\<close> (\<open>media.rs\<close>, and the channel byte of
  \<open>datagram.rs\<close>): the 17-byte media header, the per-frame prefix inside the fragmented
  payload, the clock echo and the cursor update. The Rust structs are \<open>zerocopy\<close> views of
  little-endian bytes, so each is a record of words here, with the bytes \<open>as_bytes\<close> gives
  and the value \<open>ref_from_prefix\<close> reads. Every format keeps the contract of the locale
  \<open>wire_format\<close>.
\<close>

section \<open>Channels, kinds and flags\<close>

datatype channel = Media | Term | Feedback | Input | ScreenInput

fun channel_byte :: "channel \<Rightarrow> byte" where
  "channel_byte Media = 0"
| "channel_byte Term = 1"
| "channel_byte Feedback = 2"
| "channel_byte Input = 3"
| "channel_byte ScreenInput = 4"

definition channel_of :: "byte list \<Rightarrow> channel option" where
  "channel_of datagram = (case datagram of [] \<Rightarrow> None | b # _ \<Rightarrow>
     if b = 0 then Some Media
     else if b = 1 then Some Term
     else if b = 2 then Some Feedback
     else if b = 3 then Some Input
     else if b = 4 then Some ScreenInput
     else None)"

definition MAX_DATAGRAM :: nat where "MAX_DATAGRAM = 1200"
definition HEADER_BYTES :: nat where "HEADER_BYTES = 17"

text \<open>\<open>(MAX_DATAGRAM - HEADER_BYTES) & !1\<close>: rounded down to even.\<close>

definition MAX_PAYLOAD :: nat where
  "MAX_PAYLOAD = (MAX_DATAGRAM - HEADER_BYTES) - (MAX_DATAGRAM - HEADER_BYTES) mod 2"

definition SOUND :: "32 word" where "SOUND = 0"

datatype kind = VideoData | VideoParity | Audio | Cursor | Heartbeat | Clock

fun kind_byte :: "kind \<Rightarrow> byte" where
  "kind_byte VideoData = 0"
| "kind_byte VideoParity = 1"
| "kind_byte Audio = 2"
| "kind_byte Cursor = 3"
| "kind_byte Heartbeat = 4"
| "kind_byte Clock = 5"

definition kind_from_u8 :: "byte \<Rightarrow> kind option" where
  "kind_from_u8 v =
     (if v = 0 then Some VideoData
      else if v = 1 then Some VideoParity
      else if v = 2 then Some Audio
      else if v = 3 then Some Cursor
      else if v = 4 then Some Heartbeat
      else if v = 5 then Some Clock
      else None)"

definition KEYFRAME :: byte where "KEYFRAME = push_bit 0 1"
definition LTR :: byte where "LTR = push_bit 1 1"
definition LTR_REFRESH :: byte where "LTR_REFRESH = push_bit 2 1"
definition RETRANSMIT :: byte where "RETRANSMIT = push_bit 3 1"
definition DISCARDABLE :: byte where "DISCARDABLE = push_bit 4 1"
definition PREV_DISCARDABLE :: byte where "PREV_DISCARDABLE = push_bit 5 1"

text \<open>\<open>flags & FLAG != 0\<close>.\<close>

definition has_flag :: "byte \<Rightarrow> byte \<Rightarrow> bool" where
  "has_flag fs f \<longleftrightarrow> fs AND f \<noteq> 0"

section \<open>Fixed layouts\<close>

definition put :: "nat \<Rightarrow> 'a::len word \<Rightarrow> byte list" where
  "put n x = le_bytes n (unat x)"

definition field :: "byte list \<Rightarrow> 'a::len word" where
  "field bs = word_of_nat (le_nat bs)"

fun chop :: "nat list \<Rightarrow> byte list \<Rightarrow> byte list list" where
  "chop [] bs = []"
| "chop (n # ns) bs = take n bs # chop ns (drop n bs)"

record media_header =
  mh_channel :: byte
  mh_stream :: "32 word"
  mh_frame :: "32 word"
  mh_index :: "16 word"
  mh_data_count :: "16 word"
  mh_parity_count :: byte
  mh_kind :: byte
  mh_flags :: byte
  mh_send_ms_lo :: byte

definition header_bytes :: "media_header \<Rightarrow> byte list" where
  "header_bytes h = put 1 (mh_channel h) @ put 4 (mh_stream h) @ put 4 (mh_frame h)
     @ put 2 (mh_index h) @ put 2 (mh_data_count h) @ put 1 (mh_parity_count h)
     @ put 1 (mh_kind h) @ put 1 (mh_flags h) @ put 1 (mh_send_ms_lo h)"

definition header_read :: "byte list \<Rightarrow> (media_header \<times> byte list) option" where
  "header_read bs = (if length bs < HEADER_BYTES then None else
     (case chop [1, 4, 4, 2, 2, 1, 1, 1, 1] bs of
        [c, s, f, i, d, p, k, fl, ms] \<Rightarrow>
          Some (\<lparr>mh_channel = field c, mh_stream = field s, mh_frame = field f,
                 mh_index = field i, mh_data_count = field d, mh_parity_count = field p,
                 mh_kind = field k, mh_flags = field fl, mh_send_ms_lo = field ms\<rparr>,
                drop HEADER_BYTES bs)
      | _ \<Rightarrow> None))"

definition header_parse :: "byte list \<Rightarrow> (media_header \<times> byte list) option" where
  "header_parse datagram = (case header_read datagram of None \<Rightarrow> None
     | Some (h, rest) \<Rightarrow> if mh_channel h = channel_byte Media then Some (h, rest) else None)"

definition header_kind :: "media_header \<Rightarrow> kind option" where
  "header_kind h = kind_from_u8 (mh_kind h)"

definition is_parity :: "media_header \<Rightarrow> bool" where
  "is_parity h \<longleftrightarrow> mh_kind h = kind_byte VideoParity"

record region =
  rg_x :: "16 word"
  rg_y :: "16 word"
  rg_w :: "16 word"
  rg_h :: "16 word"

definition FRAME_PREFIX_BYTES :: nat where "FRAME_PREFIX_BYTES = 28"

record frame_prefix =
  fp_len :: "32 word"
  fp_capture_ts_us :: "32 word"
  fp_ltr_token :: "64 word"
  fp_stripes :: byte
  fp_build :: byte
  fp_reserved :: "byte \<times> byte"
  fp_region :: "16 word \<times> 16 word \<times> 16 word \<times> 16 word"

definition prefix_bytes :: "frame_prefix \<Rightarrow> byte list" where
  "prefix_bytes p = put 4 (fp_len p) @ put 4 (fp_capture_ts_us p) @ put 8 (fp_ltr_token p)
     @ put 1 (fp_stripes p) @ put 1 (fp_build p)
     @ put 1 (fst (fp_reserved p)) @ put 1 (snd (fp_reserved p))
     @ (case fp_region p of (x, y, w, h) \<Rightarrow> put 2 x @ put 2 y @ put 2 w @ put 2 h)"

definition prefix_parse :: "byte list \<Rightarrow> (frame_prefix \<times> byte list) option" where
  "prefix_parse bs = (if length bs < FRAME_PREFIX_BYTES then None else
     (case chop [4, 4, 8, 1, 1, 1, 1, 2, 2, 2, 2] bs of
        [l, t, k, s, b, r0, r1, x, y, w, h] \<Rightarrow>
          Some (\<lparr>fp_len = field l, fp_capture_ts_us = field t, fp_ltr_token = field k,
                 fp_stripes = field s, fp_build = field b,
                 fp_reserved = (field r0, field r1),
                 fp_region = (field x, field y, field w, field h)\<rparr>,
                drop FRAME_PREFIX_BYTES bs)
      | _ \<Rightarrow> None))"

definition region_of :: "region option \<Rightarrow> 16 word \<times> 16 word \<times> 16 word \<times> 16 word" where
  "region_of r = (case r of None \<Rightarrow> (0, 0, 0, 0)
     | Some g \<Rightarrow> (rg_x g, rg_y g, rg_w g, rg_h g))"

definition prefix_region :: "frame_prefix \<Rightarrow> region option" where
  "prefix_region p = (case fp_region p of (x, y, w, h) \<Rightarrow>
     if w > 0 \<and> h > 0 then Some \<lparr>rg_x = x, rg_y = y, rg_w = w, rg_h = h\<rparr> else None)"

definition CLOCK_ECHO_BYTES :: nat where "CLOCK_ECHO_BYTES = 24"

record clock_echo =
  ce_sent :: "64 word"
  ce_received :: "64 word"
  ce_echoed :: "64 word"

definition clock_echo_new :: "64 word \<Rightarrow> 64 word \<Rightarrow> 64 word \<Rightarrow> clock_echo" where
  "clock_echo_new sent_us received_us echoed_us =
     \<lparr>ce_sent = sent_us, ce_received = received_us, ce_echoed = echoed_us\<rparr>"

definition echo_bytes :: "clock_echo \<Rightarrow> byte list" where
  "echo_bytes e = put 8 (ce_sent e) @ put 8 (ce_received e) @ put 8 (ce_echoed e)"

definition echo_read :: "byte list \<Rightarrow> (clock_echo \<times> byte list) option" where
  "echo_read bs = (if length bs < CLOCK_ECHO_BYTES then None else
     (case chop [8, 8, 8] bs of
        [s, r, e] \<Rightarrow> Some (\<lparr>ce_sent = field s, ce_received = field r, ce_echoed = field e\<rparr>,
                          drop CLOCK_ECHO_BYTES bs)
      | _ \<Rightarrow> None))"

definition echo_parse :: "byte list \<Rightarrow> clock_echo option" where
  "echo_parse payload = map_option fst (echo_read payload)"

definition echo_datagram :: "clock_echo \<Rightarrow> 32 word \<Rightarrow> byte \<Rightarrow> byte list" where
  "echo_datagram e stream send_ms_lo = header_bytes
     \<lparr>mh_channel = channel_byte Media, mh_stream = stream, mh_frame = 0, mh_index = 0,
      mh_data_count = 0, mh_parity_count = 0, mh_kind = kind_byte Clock, mh_flags = 0,
      mh_send_ms_lo = send_ms_lo\<rparr> @ echo_bytes e"

definition CURSOR_BYTES :: nat where "CURSOR_BYTES = 12"

text \<open>The \<open>i32\<close> coordinates are their two's complement words.\<close>

record cursor_update =
  cu_x :: "32 word"
  cu_y :: "32 word"
  cu_visible :: byte
  cu_reserved :: "byte \<times> byte \<times> byte"

definition cursor_bytes :: "cursor_update \<Rightarrow> byte list" where
  "cursor_bytes c = put 4 (cu_x c) @ put 4 (cu_y c) @ put 1 (cu_visible c)
     @ (case cu_reserved c of (a, b, d) \<Rightarrow> put 1 a @ put 1 b @ put 1 d)"

definition cursor_read :: "byte list \<Rightarrow> (cursor_update \<times> byte list) option" where
  "cursor_read bs = (if length bs < CURSOR_BYTES then None else
     (case chop [4, 4, 1, 1, 1, 1] bs of
        [x, y, v, a, b, d] \<Rightarrow>
          Some (\<lparr>cu_x = field x, cu_y = field y, cu_visible = field v,
                 cu_reserved = (field a, field b, field d)\<rparr>, drop CURSOR_BYTES bs)
      | _ \<Rightarrow> None))"

section \<open>The contract of a format\<close>

locale wire_format =
  fixes size :: nat
    and enc :: "'a \<Rightarrow> byte list"
    and dec :: "byte list \<Rightarrow> ('a \<times> byte list) option"
  assumes enc_length: "length (enc x) = size"
    and dec_enc: "dec (enc x @ rest) = Some (x, rest)"
    and dec_short: "length bs < size \<Longrightarrow> dec bs = None"
    and dec_total: "size \<le> length bs \<Longrightarrow> \<exists>x. bs = enc x @ drop size bs"
begin

lemma dec_iff: "dec bs = Some (x, rest) \<longleftrightarrow> bs = enc x @ rest"
proof
  assume dec: "dec bs = Some (x, rest)"
  then have "size \<le> length bs" using dec_short by (metis not_le option.distinct(1))
  then obtain y where y: "bs = enc y @ drop size bs" using dec_total by blast
  then have "dec bs = Some (y, drop size bs)" using dec_enc by metis
  then show "bs = enc x @ rest" using dec y by simp
qed (simp add: dec_enc)

lemma dec_none_iff: "dec bs = None \<longleftrightarrow> length bs < size"
proof
  assume none: "dec bs = None"
  show "length bs < size"
  proof (rule ccontr)
    assume "\<not> length bs < size"
    then obtain y where "bs = enc y @ drop size bs" using dec_total not_less by metis
    then have "dec bs = Some (y, drop size bs)" using dec_enc by metis
    with none show False by simp
  qed
qed (rule dec_short)

lemma dec_rest: "dec bs = Some (x, rest) \<Longrightarrow> rest = drop size bs"
  using enc_length by (auto simp: dec_iff)

lemma enc_inj: "enc x = enc y \<Longrightarrow> x = y"
  using dec_enc [of x "[]"] dec_enc [of y "[]"] by simp

end

section \<open>The formats keep it\<close>

lemma length_put [simp]: "length (put n x) = n"
  by (simp add: put_def)

lemma field_put: "LENGTH('a) = 8 * n \<Longrightarrow> field (put n x) = (x :: 'a::len word)"
  by (simp add: field_def put_def word_of_le_bytes)

lemma put_field:
  "length bs = n \<Longrightarrow> LENGTH('a) = 8 * n \<Longrightarrow> put n (field bs :: 'a::len word) = bs"
  using le_bytes_of_word [of bs, where ?'a = 'a] by (simp add: put_def field_def)

lemma take_put [simp]: "take n (put n x @ bs) = put n x"
  by simp

lemma drop_put [simp]: "drop n (put n x @ bs) = bs"
  by simp

lemma take_drop_join:
  "n + m \<le> length bs \<Longrightarrow> take m (drop n bs) @ drop (n + m) bs = drop n bs"
  by (metis append_take_drop_id drop_drop add.commute)

lemmas wire_sizes [layout_simps] =
  HEADER_BYTES_def FRAME_PREFIX_BYTES_def CLOCK_ECHO_BYTES_def CURSOR_BYTES_def
  MAX_DATAGRAM_def MAX_PAYLOAD_def

lemma chop_concat: "concat (chop ns bs) = take (sum_list ns) bs"
proof (induction ns arbitrary: bs)
  case Nil
  then show ?case by simp
next
  case (Cons n ns)
  then show ?case by (simp add: take_add)
qed

interpretation header_format: wire_format HEADER_BYTES header_bytes header_read
proof
  fix x :: media_header and rest bs :: "byte list"
  show "length (header_bytes x) = HEADER_BYTES"
    by (simp add: header_bytes_def layout_simps)
  show "header_read (header_bytes x @ rest) = Some (x, rest)"
    by (simp add: header_read_def header_bytes_def layout_simps field_put)
  show "length bs < HEADER_BYTES \<Longrightarrow> header_read bs = None"
    by (simp add: header_read_def)
  assume long: "HEADER_BYTES \<le> length bs"
  let ?c = "\<lambda>i n. take n (drop i bs)"
  let ?h = "\<lparr>mh_channel = field (?c 0 1), mh_stream = field (?c 1 4), mh_frame = field (?c 5 4),
     mh_index = field (?c 9 2), mh_data_count = field (?c 11 2), mh_parity_count = field (?c 13 1),
     mh_kind = field (?c 14 1), mh_flags = field (?c 15 1), mh_send_ms_lo = field (?c 16 1)\<rparr>"
  have "header_bytes ?h = concat (chop [1, 4, 4, 2, 2, 1, 1, 1, 1] bs)"
    using long by (simp add: header_bytes_def put_field layout_simps)
  also have "\<dots> = take HEADER_BYTES bs"
    by (simp only: chop_concat) (simp add: layout_simps)
  finally show "\<exists>x. bs = header_bytes x @ drop HEADER_BYTES bs"
    by (metis append_take_drop_id)
qed

interpretation prefix_format: wire_format FRAME_PREFIX_BYTES prefix_bytes prefix_parse
proof
  fix x :: frame_prefix and rest bs :: "byte list"
  show "length (prefix_bytes x) = FRAME_PREFIX_BYTES"
    by (simp add: prefix_bytes_def layout_simps split: prod.split)
  show "prefix_parse (prefix_bytes x @ rest) = Some (x, rest)"
    by (cases "fp_region x") (simp add: prefix_parse_def prefix_bytes_def layout_simps field_put)
  show "length bs < FRAME_PREFIX_BYTES \<Longrightarrow> prefix_parse bs = None"
    by (simp add: prefix_parse_def)
  assume long: "FRAME_PREFIX_BYTES \<le> length bs"
  let ?c = "\<lambda>i n. take n (drop i bs)"
  let ?p = "\<lparr>fp_len = field (?c 0 4), fp_capture_ts_us = field (?c 4 4),
     fp_ltr_token = field (?c 8 8), fp_stripes = field (?c 16 1), fp_build = field (?c 17 1),
     fp_reserved = (field (?c 18 1), field (?c 19 1)),
     fp_region = (field (?c 20 2), field (?c 22 2), field (?c 24 2), field (?c 26 2))\<rparr>"
  have "prefix_bytes ?p = concat (chop [4, 4, 8, 1, 1, 1, 1, 2, 2, 2, 2] bs)"
    using long by (simp add: prefix_bytes_def put_field layout_simps)
  also have "\<dots> = take FRAME_PREFIX_BYTES bs"
    by (simp only: chop_concat) (simp add: layout_simps)
  finally show "\<exists>x. bs = prefix_bytes x @ drop FRAME_PREFIX_BYTES bs"
    by (metis append_take_drop_id)
qed

interpretation echo_format: wire_format CLOCK_ECHO_BYTES echo_bytes echo_read
proof
  fix x :: clock_echo and rest bs :: "byte list"
  show "length (echo_bytes x) = CLOCK_ECHO_BYTES"
    by (simp add: echo_bytes_def layout_simps)
  show "echo_read (echo_bytes x @ rest) = Some (x, rest)"
    by (simp add: echo_read_def echo_bytes_def layout_simps field_put)
  show "length bs < CLOCK_ECHO_BYTES \<Longrightarrow> echo_read bs = None"
    by (simp add: echo_read_def)
  assume long: "CLOCK_ECHO_BYTES \<le> length bs"
  let ?c = "\<lambda>i n. take n (drop i bs)"
  let ?e = "\<lparr>ce_sent = field (?c 0 8), ce_received = field (?c 8 8), ce_echoed = field (?c 16 8)\<rparr>"
  have "echo_bytes ?e = concat (chop [8, 8, 8] bs)"
    using long by (simp add: echo_bytes_def put_field layout_simps)
  also have "\<dots> = take CLOCK_ECHO_BYTES bs"
    by (simp only: chop_concat) (simp add: layout_simps)
  finally show "\<exists>x. bs = echo_bytes x @ drop CLOCK_ECHO_BYTES bs"
    by (metis append_take_drop_id)
qed

interpretation cursor_format: wire_format CURSOR_BYTES cursor_bytes cursor_read
proof
  fix x :: cursor_update and rest bs :: "byte list"
  show "length (cursor_bytes x) = CURSOR_BYTES"
    by (simp add: cursor_bytes_def layout_simps split: prod.split)
  show "cursor_read (cursor_bytes x @ rest) = Some (x, rest)"
    by (cases "cu_reserved x") (simp add: cursor_read_def cursor_bytes_def layout_simps field_put)
  show "length bs < CURSOR_BYTES \<Longrightarrow> cursor_read bs = None"
    by (simp add: cursor_read_def)
  assume long: "CURSOR_BYTES \<le> length bs"
  let ?c = "\<lambda>i n. take n (drop i bs)"
  let ?u = "\<lparr>cu_x = field (?c 0 4), cu_y = field (?c 4 4), cu_visible = field (?c 8 1),
     cu_reserved = (field (?c 9 1), field (?c 10 1), field (?c 11 1))\<rparr>"
  have "cursor_bytes ?u = concat (chop [4, 4, 1, 1, 1, 1] bs)"
    using long by (simp add: cursor_bytes_def put_field layout_simps)
  also have "\<dots> = take CURSOR_BYTES bs"
    by (simp only: chop_concat) (simp add: layout_simps)
  finally show "\<exists>x. bs = cursor_bytes x @ drop CURSOR_BYTES bs"
    by (metis append_take_drop_id)
qed

section \<open>What the formats promise the components\<close>

lemma header_parse_bytes:
  "mh_channel h = channel_byte Media \<Longrightarrow> header_parse (header_bytes h @ rest) = Some (h, rest)"
  by (simp add: header_parse_def header_format.dec_enc)

lemma header_parse_iff:
  "header_parse d = Some (h, rest) \<longleftrightarrow> d = header_bytes h @ rest \<and> mh_channel h = channel_byte Media"
proof -
  have "header_parse d = Some (h, rest) \<longleftrightarrow>
      header_read d = Some (h, rest) \<and> mh_channel h = channel_byte Media"
    by (auto simp: header_parse_def split: option.splits if_splits)
  then show ?thesis by (simp add: header_format.dec_iff)
qed

lemma kind_from_byte [simp]: "kind_from_u8 (kind_byte k) = Some k"
  by (cases k) (simp_all add: kind_from_u8_def)

lemma kind_from_u8_Some: "kind_from_u8 v = Some k \<longleftrightarrow> v = kind_byte k"
  by (cases k) (auto simp: kind_from_u8_def split: if_splits)

lemma channel_of_byte: "channel_of (channel_byte c # rest) = Some c"
  by (cases c) (simp_all add: channel_of_def)

lemma region_roundtrip:
  assumes "case r of None \<Rightarrow> True | Some g \<Rightarrow> rg_w g > 0 \<and> rg_h g > 0"
  shows "prefix_region (p\<lparr>fp_region := region_of r\<rparr>) = r"
  using assms by (cases r) (auto simp: prefix_region_def region_of_def)

text \<open>
  C33. The media header's wire format loses nothing and takes nothing else: a datagram parses to a header
  and a payload exactly when it is that header's bytes, on the media channel, followed by that payload;
  and it fails to parse exactly when it is shorter than a header or on another channel.
\<close>

theorem media_header_roundtrip:
  "(header_parse d = Some (h, rest) \<longleftrightarrow> d = header_bytes h @ rest \<and> mh_channel h = channel_byte Media) \<and>
   (header_parse d = None \<longleftrightarrow> \<not> (HEADER_BYTES \<le> length d \<and> hd d = channel_byte Media))"
proof
  show "header_parse d = Some (h, rest) \<longleftrightarrow> d = header_bytes h @ rest \<and> mh_channel h = channel_byte Media"
    by (rule header_parse_iff)
  have first: "hd d = mh_channel g" if "header_read d = Some (g, r)" for g r
    using that by (auto simp: header_format.dec_iff header_bytes_def put_def)
  show "header_parse d = None \<longleftrightarrow> \<not> (HEADER_BYTES \<le> length d \<and> hd d = channel_byte Media)"
    using first header_format.dec_none_iff [of d]
    by (auto simp: header_parse_def split: option.splits)
qed

end
