(* ===== verification/Aux_Datagrams.thy ===== *)
theory Aux_Datagrams
  imports Wire
begin

text \<open>
  The other datagrams of a media stream: audio packets with copies of the packets before
  (\<open>slopty-media/src/audio.rs\<close>), cursor updates (\<open>cursor.rs\<close>) and heartbeats
  (\<open>heartbeat.rs\<close>), and the receiver's count of audio losses.
\<close>

section \<open>Audio datagrams\<close>

definition MAX_AUDIO_COPIES :: nat where "MAX_AUDIO_COPIES = 2"
definition COPY_LENGTH :: nat where "COPY_LENGTH = 2"

text \<open>The \<open>take_while\<close> over the copies: how many go, given the size so far.\<close>

fun audio_copies :: "nat \<Rightarrow> byte list list \<Rightarrow> nat" where
  "audio_copies sz [] = 0"
| "audio_copies sz (copy # copies) =
     (if copy \<noteq> [] \<and> sat_add 64 (sat_add 64 sz COPY_LENGTH) (length copy) \<le> MAX_PAYLOAD
      then Suc (audio_copies (sat_add 64 (sat_add 64 sz COPY_LENGTH) (length copy)) copies)
      else 0)"

definition audio_header :: "32 word \<Rightarrow> 32 word \<Rightarrow> byte \<Rightarrow> nat \<Rightarrow> media_header" where
  "audio_header stream seq send_ms_lo copies =
     \<lparr>mh_channel = channel_byte Media, mh_stream = stream, mh_frame = seq, mh_index = 0,
      mh_data_count = word_of_nat (sat_add 16 copies 1), mh_parity_count = 0,
      mh_kind = kind_byte Audio, mh_flags = 0, mh_send_ms_lo = send_ms_lo\<rparr>"

definition audio_datagram ::
  "32 word \<Rightarrow> 32 word \<Rightarrow> byte \<Rightarrow> byte list \<Rightarrow> byte list list \<Rightarrow> byte list option" where
  "audio_datagram stream seq send_ms_lo opus earlier =
    (if length opus > MAX_PAYLOAD then None else
     let copies = audio_copies (length opus) (take MAX_AUDIO_COPIES earlier)
     in Some (header_bytes (audio_header stream seq send_ms_lo copies)
          @ concat (map (\<lambda>copy. be_bytes 2 (to_width 16 (length copy)) @ copy) (take copies earlier))
          @ opus))"

text \<open>The loop over the copies: their bytes, and where the packet itself starts.\<close>

fun parse_copies :: "nat \<Rightarrow> byte list \<Rightarrow> nat \<Rightarrow> (byte list list \<times> nat) option" where
  "parse_copies 0 payload at = Some ([], at)"
| "parse_copies (Suc n) payload at =
    (case get_range payload at (at + COPY_LENGTH) of None \<Rightarrow> None
     | Some length_bytes \<Rightarrow>
       let len = be_nat length_bytes; start = at + COPY_LENGTH; end = start + len
       in if len = 0 \<or> end > length payload then None
          else (case parse_copies n payload end of None \<Rightarrow> None
                | Some (rest, at') \<Rightarrow> Some (take len (drop start payload) # rest, at')))"

text \<open>
  The result is the packet and the copies carried, nearest first; the Rust array of
  \<open>MAX_AUDIO_COPIES\<close> options holds them in its first places.
\<close>

definition parse_audio :: "nat \<Rightarrow> byte list \<Rightarrow> (byte list \<times> byte list list) option" where
  "parse_audio data_count payload =
    (if data_count = 0 then None else
     let copies = data_count - 1 in
     if copies > MAX_AUDIO_COPIES then None
     else (case parse_copies copies payload 0 of None \<Rightarrow> None
           | Some (earlier, at) \<Rightarrow>
             if at \<ge> length payload then None else Some (drop at payload, earlier)))"

section \<open>What the receiver heard\<close>

record sound_count =
  sc_received :: nat
  sc_lost :: nat
  sc_last :: "nat option"

definition sound_new :: sound_count where
  "sound_new = \<lparr>sc_received = 0, sc_lost = 0, sc_last = None\<rparr>"

definition sound_arrived :: "nat \<Rightarrow> sound_count \<Rightarrow> sound_count" where
  "sound_arrived seq c =
    (case sc_last c of
       None \<Rightarrow> c\<lparr>sc_last := Some seq, sc_received := sat_add 16 (sc_received c) 1\<rparr>
     | Some newest \<Rightarrow>
       let gap = wrap_sub 32 seq newest in
       if gap = 0 \<or> gap > umax 32 div 2 then c
       else c\<lparr>sc_lost := sat_add 16 (sc_lost c) (to_width 16 (gap - 1)),
              sc_last := Some seq, sc_received := sat_add 16 (sc_received c) 1\<rparr>)"

definition sound_take :: "sound_count \<Rightarrow> (nat \<times> nat) \<times> sound_count" where
  "sound_take c = ((sc_received c, sc_lost c), c\<lparr>sc_received := 0, sc_lost := 0\<rparr>)"

section \<open>Cursor updates and heartbeats\<close>

definition cursor_datagram ::
  "32 word \<Rightarrow> 32 word \<Rightarrow> byte \<Rightarrow> 32 word \<Rightarrow> 32 word \<Rightarrow> bool \<Rightarrow> byte list" where
  "cursor_datagram stream seq send_ms_lo x y visible = header_bytes
     \<lparr>mh_channel = channel_byte Media, mh_stream = stream, mh_frame = seq, mh_index = 0,
      mh_data_count = 1, mh_parity_count = 0, mh_kind = kind_byte Cursor, mh_flags = 0,
      mh_send_ms_lo = send_ms_lo\<rparr>
     @ cursor_bytes \<lparr>cu_x = x, cu_y = y, cu_visible = (if visible then 1 else 0),
                     cu_reserved = (0, 0, 0)\<rparr>"

definition parse_cursor :: "byte list \<Rightarrow> cursor_update option" where
  "parse_cursor payload = map_option fst (cursor_read payload)"

definition heartbeat_datagram :: "32 word \<Rightarrow> 32 word \<Rightarrow> byte \<Rightarrow> byte list" where
  "heartbeat_datagram stream next_frame send_ms_lo = header_bytes
     \<lparr>mh_channel = channel_byte Media, mh_stream = stream, mh_frame = next_frame, mh_index = 0,
      mh_data_count = 0, mh_parity_count = 0, mh_kind = kind_byte Heartbeat, mh_flags = 0,
      mh_send_ms_lo = send_ms_lo\<rparr>"

section \<open>Audio datagrams read back\<close>

lemmas audio_consts [layout_simps] = MAX_AUDIO_COPIES_def COPY_LENGTH_def

text \<open>A list of copies that all fit behind their lengths, as \<open>take_while\<close> keeps them.\<close>

definition copies_ok :: "byte list list \<Rightarrow> bool" where
  "copies_ok cs \<longleftrightarrow> (\<forall>c \<in> set cs. c \<noteq> [] \<and> length c \<le> umax 16)"

definition put_copies :: "byte list list \<Rightarrow> byte list" where
  "put_copies cs = concat (map (\<lambda>c. be_bytes 2 (to_width 16 (length c)) @ c) cs)"

lemma audio_copies_le: "audio_copies sz cs \<le> length cs"
  by (induction cs arbitrary: sz) auto

lemma audio_copies_ok: "copies_ok (take (audio_copies sz cs) cs)"
proof (induction cs arbitrary: sz)
  case Nil
  then show ?case by (simp add: copies_ok_def)
next
  case (Cons c cs)
  show ?case
  proof (cases "c \<noteq> [] \<and> sat_add 64 (sat_add 64 sz COPY_LENGTH) (length c) \<le> MAX_PAYLOAD")
    case True
    then have "length c \<le> umax 16" by (auto simp: sat_add_def umax_def layout_simps)
    then show ?thesis using True Cons by (simp add: copies_ok_def)
  next
    case False
    then show ?thesis by (auto simp: copies_ok_def)
  qed
qed

lemma audio_copies_size:
  assumes "sz \<le> MAX_PAYLOAD"
  shows "sz + length (put_copies (take (audio_copies sz cs) cs)) \<le> MAX_PAYLOAD"
  using assms
proof (induction cs arbitrary: sz)
  case Nil
  then show ?case by (simp add: put_copies_def)
next
  case (Cons c cs)
  let ?sz' = "sat_add 64 (sat_add 64 sz COPY_LENGTH) (length c)"
  show ?case
  proof (cases "c \<noteq> [] \<and> ?sz' \<le> MAX_PAYLOAD")
    case True
    then have exact: "?sz' = sz + 2 + length c"
      by (auto simp: sat_add_def umax_def layout_simps)
    show ?thesis using True exact Cons.IH [of ?sz'] by (simp add: put_copies_def)
  next
    case False
    then show ?thesis using Cons.prems by (auto simp: put_copies_def)
  qed
qed

lemma parse_put_copies:
  assumes "copies_ok cs"
  shows "parse_copies (length cs) (pre @ put_copies cs @ rest) (length pre)
       = Some (cs, length pre + length (put_copies cs))"
  using assms
proof (induction cs arbitrary: pre)
  case Nil
  then show ?case by (simp add: put_copies_def)
next
  case (Cons c cs)
  then have c: "c \<noteq> []" "length c \<le> umax 16" and cs: "copies_ok cs"
    by (auto simp: copies_ok_def)
  let ?len = "be_bytes 2 (length c)"
  let ?all = "pre @ put_copies (c # cs) @ rest"
  have all: "?all = (pre @ ?len @ c) @ put_copies cs @ rest"
    using c by (simp add: put_copies_def to_width_exact)
  have len: "be_nat ?len = length c"
    using c(2) by (simp add: be_nat_be_bytes umax_def)
  have range: "get_range ?all (length pre) (length pre + COPY_LENGTH) = Some ?len"
    using c by (simp add: get_range_def layout_simps put_copies_def to_width_exact)
  note IH = Cons.IH [OF cs, of "pre @ ?len @ c"]
  have body: "take (length c) (drop (length pre + COPY_LENGTH) ?all) = c"
    unfolding all by (simp add: layout_simps)
  have fits: "length pre + COPY_LENGTH + length c \<le> length ?all"
    unfolding all by (simp add: layout_simps)
  have "parse_copies (length cs) ?all (length pre + COPY_LENGTH + length c)
      = Some (cs, length pre + length (put_copies (c # cs)))"
    using IH unfolding all by (simp add: layout_simps put_copies_def add.assoc)
  then show ?case
    using c range len body fits by (simp add: Let_def)
qed

lemma audio_datagram_eq:
  fixes opus :: "byte list" and earlier :: "byte list list"
  assumes "length opus \<le> MAX_PAYLOAD"
  defines "cs \<equiv> take (audio_copies (length opus) (take MAX_AUDIO_COPIES earlier)) earlier"
  shows "\<exists>h. audio_datagram stream seq ms opus earlier = Some (header_bytes h @ put_copies cs @ opus)
      \<and> mh_channel h = channel_byte Media \<and> mh_stream h = stream \<and> mh_frame h = seq
      \<and> header_kind h = Some Audio \<and> unat (mh_data_count h) = Suc (length cs)
      \<and> copies_ok cs \<and> length cs \<le> MAX_AUDIO_COPIES"
proof -
  let ?n = "audio_copies (length opus) (take MAX_AUDIO_COPIES earlier)"
  have n: "?n \<le> length (take MAX_AUDIO_COPIES earlier)" by (rule audio_copies_le)
  then have "?n \<le> MAX_AUDIO_COPIES" by simp
  then have cs: "cs = take ?n (take MAX_AUDIO_COPIES earlier)" by (simp add: cs_def min_absorb1)
  have len: "length cs = ?n" and two: "?n \<le> 2" using n by (auto simp: cs_def layout_simps)
  have sat: "sat_add 16 ?n 1 = Suc (length cs)"
    using two len by (simp add: sat_add_def umax_def min_def)
  have "unat (word_of_nat (sat_add 16 ?n 1) :: 16 word) = Suc (length cs)"
    unfolding sat using two len by (intro unat_word_small) simp
  moreover have "copies_ok cs" unfolding cs by (rule audio_copies_ok)
  ultimately show ?thesis
    using assms(1) len two
    by (intro exI [of _ "audio_header stream seq ms ?n"])
       (simp add: audio_datagram_def audio_header_def Let_def put_copies_def cs_def
         header_kind_def kind_from_u8_def MAX_AUDIO_COPIES_def)
qed

end
