(* ===== verification/Reassemble_State.thy ===== *)
theory Reassemble_State
  imports Ordered_Map Aux_Datagrams
begin

text \<open>
  The data of the client's reassembler (\<open>slopty-media/src/reassemble.rs\<close>): its configuration,
  the frames it assembles, what it delivers and asks for, its counters, and the state record
  with its constructor and its simple operations. \<open>u8\<close> to \<open>u64\<close> counters are natural numbers
  that saturate as the code's do; \<open>jitter_us\<close> is an \<open>i64\<close> as an \<open>int\<close>.
\<close>

section \<open>Constants and configuration\<close>

definition STALL_GAP :: duration where "STALL_GAP = from_millis 50"
definition SEND_STAMP_RANGE :: duration where "SEND_STAMP_RANGE = from_millis 256"
definition STAMP_SLACK :: duration where
  "STAMP_SLACK = opt_or (checked_div SEND_STAMP_RANGE 2) SEND_STAMP_RANGE"
definition MAX_PENDING_ACKS :: nat where "MAX_PENDING_ACKS = 16"
definition HALF_STALL_GAP :: duration where
  "HALF_STALL_GAP = opt_or (checked_div STALL_GAP 2) STALL_GAP"

record nack_policy =
  nd_min :: duration
  nd_max :: duration
  nd_divisor :: nat

definition for_rtt :: "nack_policy \<Rightarrow> duration \<Rightarrow> duration" where
  "for_rtt nd rtt = clamp (nd_min nd) (nd_max nd)
     (opt_or (checked_div rtt (nd_divisor nd)) (nd_min nd))"

definition nack_policy_default :: nack_policy where
  "nack_policy_default = \<lparr>nd_min = from_millis 1, nd_max = from_millis 20, nd_divisor = 4\<rparr>"

record config =
  cf_nack_delay :: nack_policy
  cf_nack_retries :: nat
  cf_grace :: duration
  cf_max_pending :: nat
  cf_refresh_repeat :: duration
  cf_refresh_repeat_max :: duration
  cf_refresh_max_repeats :: nat
  cf_max_hold :: duration
  cf_stall_gap :: duration
  cf_tick_period :: duration

definition config_default :: config where
  "config_default =
     \<lparr>cf_nack_delay = nack_policy_default, cf_nack_retries = 2, cf_grace = from_millis 10,
      cf_max_pending = 64, cf_refresh_repeat = from_millis 100,
      cf_refresh_repeat_max = from_millis 2000, cf_refresh_max_repeats = 12,
      cf_max_hold = from_millis 500, cf_stall_gap = STALL_GAP, cf_tick_period = HALF_STALL_GAP\<rparr>"

section \<open>What is delivered, dropped and asked for\<close>

record frame_info =
  fi_frame :: nat
  fi_keyframe :: bool
  fi_ltr_token :: "nat option"
  fi_ltr_refresh :: bool
  fi_discardable :: bool
  fi_capture_ts_us :: nat
  fi_stripes :: byte
  fi_build :: byte
  fi_region :: "region option"
  fi_recovered :: bool

record frame_out =
  fo_info :: frame_info
  fo_data :: "byte list"
  fo_hold :: duration
  fo_arrived :: instant

datatype ignored = Malformed | Foreign | Stale | Duplicate

datatype ingested =
    IVideo
  | IAudio nat "byte list" "byte list list"
  | ICursor nat cursor_update
  | IHeartbeat
  | IIgnored ignored

datatype action = Nack nat "nat list" | RequestRefresh nat bool

datatype stamp = SWorker duration | SCovered | SAbsent | SWrapped | SBackwards duration

record stall_attribution =
  at_worker_quiet :: nat
  at_worker_covered :: nat
  at_receiver_dozed :: nat
  at_in_flight :: nat
  at_stamp_wrapped :: nat
  at_stamp_backwards :: nat
  at_stamp_absent :: nat
  at_while_idle :: nat
  at_gap_ms_max :: nat
  at_dozed_ms_max :: nat
  at_ended_heartbeat :: nat
  at_ended_video :: nat
  at_ended_other :: nat

record reassembler_stats =
  rt_frames_ok :: nat
  rt_frames_fec :: nat
  rt_frames_retransmit :: nat
  rt_frames_lost :: nat
  rt_frames_skipped :: nat
  rt_datagrams_lost :: nat
  rt_data_shards :: nat
  rt_parity_shards :: nat
  rt_nacks :: nat
  rt_refreshes :: nat
  rt_refresh_repeats :: nat
  rt_stalls :: nat
  rt_stalled_ms :: nat
  rt_silences :: stall_attribution

definition stall_attribution_default :: stall_attribution where
  "stall_attribution_default =
     \<lparr>at_worker_quiet = 0, at_worker_covered = 0, at_receiver_dozed = 0, at_in_flight = 0,
      at_stamp_wrapped = 0, at_stamp_backwards = 0, at_stamp_absent = 0, at_while_idle = 0,
      at_gap_ms_max = 0, at_dozed_ms_max = 0, at_ended_heartbeat = 0, at_ended_video = 0,
      at_ended_other = 0\<rparr>"

definition stats_default :: reassembler_stats where
  "stats_default =
     \<lparr>rt_frames_ok = 0, rt_frames_fec = 0, rt_frames_retransmit = 0, rt_frames_lost = 0,
      rt_frames_skipped = 0, rt_datagrams_lost = 0, rt_data_shards = 0, rt_parity_shards = 0,
      rt_nacks = 0, rt_refreshes = 0, rt_refresh_repeats = 0, rt_stalls = 0, rt_stalled_ms = 0,
      rt_silences = stall_attribution_default\<rparr>"

record receiver_report =
  rr_frames_ok :: nat
  rr_frames_fec :: nat
  rr_frames_lost :: nat
  rr_datagrams_lost :: nat
  rr_last_worker_send_ts_us :: nat
  rr_hold_p50 :: nat
  rr_hold_p95 :: nat
  rr_owd_jitter :: nat
  rr_queue_depth :: nat
  rr_late_frames :: nat
  rr_acked_ltr :: "nat list"
  rr_acked_ltr_len :: nat
  rr_stalled_ms :: nat
  rr_stalls :: nat

section \<open>Frames being assembled\<close>

record partial =
  pa_data_count :: nat
  pa_parity_count :: nat
  pa_shard_bytes :: nat
  pa_flags :: byte
  pa_shards :: "byte list option list"
  pa_have_data :: nat
  pa_have_total :: nat
  pa_first_seen :: instant
  pa_last_seen :: instant
  pa_nacks :: nat
  pa_nacked_at :: "instant option"
  pa_retransmitted :: bool
  pa_discardable :: bool

definition partial_new :: "media_header \<Rightarrow> nat \<Rightarrow> instant \<Rightarrow> bool \<Rightarrow> partial" where
  "partial_new h shard_bytes now discardable =
     \<lparr>pa_data_count = unat (mh_data_count h), pa_parity_count = unat (mh_parity_count h),
      pa_shard_bytes = shard_bytes, pa_flags = mh_flags h,
      pa_shards = replicate (sat_add 64 (unat (mh_data_count h)) (unat (mh_parity_count h))) None,
      pa_have_data = 0, pa_have_total = 0, pa_first_seen = now, pa_last_seen = now, pa_nacks = 0,
      pa_nacked_at = None, pa_retransmitted = False,
      pa_discardable = (discardable \<or> has_flag (mh_flags h) DISCARDABLE)\<rparr>"

definition partial_complete :: "partial \<Rightarrow> bool" where
  "partial_complete p \<longleftrightarrow> pa_have_data p = pa_data_count p
     \<or> (pa_parity_count p > 0 \<and> pa_have_total p \<ge> pa_data_count p)"

definition missing_data :: "partial \<Rightarrow> nat list" where
  "missing_data p = map (\<lambda>e. to_width 16 (fst e))
     (filter (\<lambda>e. snd e = None) (enumerate 0 (take (pa_data_count p) (pa_shards p))))"

definition missing_data_count :: "partial \<Rightarrow> nat" where
  "missing_data_count p = pa_data_count p - pa_have_data p"

definition restartable :: "partial \<Rightarrow> bool \<Rightarrow> bool" where
  "restartable p accept_refresh \<longleftrightarrow> has_flag (pa_flags p) KEYFRAME
     \<or> (accept_refresh \<and> has_flag (pa_flags p) LTR_REFRESH)"

datatype slot =
    Unknown instant nat "instant option" bool
  | Partial partial
  | Complete frame_out instant
  | Skipped

definition slot_unknown :: "instant \<Rightarrow> slot" where
  "slot_unknown now = Unknown now 0 None False"

fun settled :: "slot \<Rightarrow> bool" where
  "settled (Complete _ _) = True"
| "settled Skipped = True"
| "settled _ = False"

fun slot_discardable :: "slot \<Rightarrow> bool" where
  "slot_discardable (Unknown _ _ _ d) = d"
| "slot_discardable (Partial p) = pa_discardable p"
| "slot_discardable _ = False"

fun is_complete :: "slot \<Rightarrow> bool" where
  "is_complete (Complete _ _) = True"
| "is_complete _ = False"

datatype need = NeedKeyframe | NeedRefresh | NeedFrame nat

record report_window =
  wi_frames_ok :: nat
  wi_frames_fec :: nat
  wi_frames_lost :: nat
  wi_datagrams_lost :: nat
  wi_holds_ns :: "nat list"
  wi_stalled :: duration
  wi_stalls :: nat

definition window_default :: report_window where
  "window_default = \<lparr>wi_frames_ok = 0, wi_frames_fec = 0, wi_frames_lost = 0,
     wi_datagrams_lost = 0, wi_holds_ns = [], wi_stalled = 0, wi_stalls = 0\<rparr>"

section \<open>The reassembler\<close>

text \<open>
  Every field of the Rust struct but \<open>decoder\<close>, the cached Reed-Solomon object, which the
  engine parameter of \<open>Reassemble_Video\<close> stands for.
\<close>

record reassembler =
  ra_stream :: "32 word"
  ra_cfg :: config
  ra_epoch :: instant
  ra_frames :: "slot omap"
  ra_need :: need
  ra_last_good :: "nat option"
  ra_given_up :: "nat list"
  ra_ready :: "frame_out list"
  ra_actions :: "action list"
  ra_refresh_requested_at :: "instant option"
  ra_refresh_repeats :: nat
  ra_refresh_backoff :: nat
  ra_source_live :: bool
  ra_stats :: reassembler_stats
  ra_window :: report_window
  ra_jitter_us :: int
  ra_last_arrival :: "(nat \<times> nat) option"
  ra_arrived_at :: instant
  ra_stall_charged_to :: instant
  ra_any_arrived :: bool
  ra_first_lost :: bool
  ra_last_send_ms_lo :: "byte option"
  ra_last_tick_at :: instant
  ra_dozed_since_arrival :: duration
  ra_dozed_from :: "instant option"
  ra_dozed_spent :: duration
  ra_last_rtt :: duration
  ra_nack_delay :: duration
  ra_last_worker_ts_us :: nat
  ra_ltr_acks :: "nat list"
  ra_newest_ack :: "nat option"

definition reassembler_new :: "32 word \<Rightarrow> config \<Rightarrow> instant \<Rightarrow> reassembler" where
  "reassembler_new stream cfg now =
    (let last_rtt = from_millis 20 in
     \<lparr>ra_stream = stream, ra_cfg = cfg, ra_epoch = now, ra_frames = [], ra_need = NeedKeyframe,
      ra_last_good = None, ra_given_up = [], ra_ready = [], ra_actions = [],
      ra_refresh_requested_at = Some now, ra_refresh_repeats = 0, ra_refresh_backoff = 0,
      ra_source_live = True, ra_stats = stats_default, ra_window = window_default,
      ra_jitter_us = 0, ra_last_arrival = None, ra_arrived_at = now, ra_stall_charged_to = now,
      ra_any_arrived = False, ra_first_lost = False, ra_last_send_ms_lo = None,
      ra_last_tick_at = now, ra_dozed_since_arrival = 0, ra_dozed_from = None,
      ra_dozed_spent = 0, ra_last_rtt = last_rtt,
      ra_nack_delay = for_rtt (cf_nack_delay cfg) last_rtt, ra_last_worker_ts_us = 0,
      ra_ltr_acks = [], ra_newest_ack = None\<rparr>)"

lemma reassembler_new_simps [simp]:
  "ra_stream (reassembler_new stream cfg now) = stream" "ra_cfg (reassembler_new stream cfg now) = cfg"
  "ra_frames (reassembler_new stream cfg now) = []"
  "ra_need (reassembler_new stream cfg now) = NeedKeyframe"
  "ra_last_good (reassembler_new stream cfg now) = None"
  "ra_given_up (reassembler_new stream cfg now) = []"
  "ra_ready (reassembler_new stream cfg now) = []" "ra_actions (reassembler_new stream cfg now) = []"
  by (simp_all add: reassembler_new_def Let_def)

definition awaiting_refresh :: "reassembler \<Rightarrow> bool" where
  "awaiting_refresh s = (case ra_need s of NeedFrame _ \<Rightarrow> False | _ \<Rightarrow> True)"

definition set_source_live :: "bool \<Rightarrow> reassembler \<Rightarrow> reassembler" where
  "set_source_live live s =
    (if ra_source_live s \<noteq> live then
       let s = s\<lparr>ra_source_live := live\<rparr> in
       if live then s\<lparr>ra_refresh_repeats := 0, ra_refresh_backoff := 0,
                     ra_refresh_requested_at := None\<rparr> else s
     else s)"

definition queue_depth :: "reassembler \<Rightarrow> nat" where
  "queue_depth s = sat_add 64 (length (ra_ready s)) (length (ra_frames s))"

definition next_frame :: "reassembler \<Rightarrow> frame_out option \<times> reassembler" where
  "next_frame s = (case ra_ready s of [] \<Rightarrow> (None, s) | out # rest \<Rightarrow> (Some out, s\<lparr>ra_ready := rest\<rparr>))"

definition ack_ltr :: "nat \<Rightarrow> reassembler \<Rightarrow> reassembler" where
  "ack_ltr token s =
    (let acks = (if length (ra_ltr_acks s) \<ge> MAX_PENDING_ACKS then tl (ra_ltr_acks s)
                 else ra_ltr_acks s)
     in s\<lparr>ra_ltr_acks := acks @ [token], ra_newest_ack := Some token\<rparr>)"

definition request_refresh :: "instant \<Rightarrow> bool \<Rightarrow> reassembler \<Rightarrow> reassembler" where
  "request_refresh now again s =
    (let st = ra_stats s;
         st = (if again then st\<lparr>rt_refresh_repeats := sat_add 64 (rt_refresh_repeats st) 1\<rparr>
               else st\<lparr>rt_refreshes := sat_add 64 (rt_refreshes st) 1\<rparr>)
     in s\<lparr>ra_refresh_requested_at := Some now, ra_stats := st,
          ra_actions := ra_actions s @ [RequestRefresh (opt_or (ra_last_good s) 0)
                                          (ra_need s = NeedKeyframe)]\<rparr>)"

definition enter_refresh :: "instant \<Rightarrow> reassembler \<Rightarrow> reassembler" where
  "enter_refresh now s = request_refresh now False
     (s\<lparr>ra_need := NeedRefresh, ra_refresh_requested_at := None, ra_refresh_backoff := 0\<rparr>)"

definition force_refresh :: "instant \<Rightarrow> bool \<Rightarrow> reassembler \<Rightarrow> reassembler" where
  "force_refresh now keyframe s =
    (let waiting = awaiting_refresh s \<and> (\<not> keyframe \<or> ra_need s = NeedKeyframe);
         s = s\<lparr>ra_need := (if keyframe \<or> ra_need s = NeedKeyframe then NeedKeyframe else NeedRefresh),
               ra_ready := []\<rparr>;
         s = (if keyframe then s\<lparr>ra_ltr_acks := [], ra_newest_ack := None\<rparr> else s)
     in if waiting then s
        else request_refresh now False (s\<lparr>ra_refresh_requested_at := None, ra_refresh_backoff := 0\<rparr>))"

text \<open>The loop of \<open>take_back\<close> over the report's tokens, last first, and the one that trims.\<close>

fun push_front_missing :: "nat list \<Rightarrow> nat list \<Rightarrow> nat list" where
  "push_front_missing [] acks = acks"
| "push_front_missing (t # ts) acks =
     push_front_missing ts (if t \<in> set acks then acks else t # acks)"

definition take_back :: "receiver_report \<Rightarrow> reassembler \<Rightarrow> reassembler" where
  "take_back report s =
    (let tokens = take (rr_acked_ltr_len report) (rr_acked_ltr report);
         acks = push_front_missing (rev tokens) (ra_ltr_acks s);
         acks = drop (length acks - MAX_PENDING_ACKS) acks;
         w = ra_window s
     in s\<lparr>ra_ltr_acks := acks,
          ra_window := w\<lparr>wi_frames_ok := sat_add 32 (wi_frames_ok w) (rr_frames_ok report),
            wi_frames_fec := sat_add 32 (wi_frames_fec w) (rr_frames_fec report),
            wi_frames_lost := sat_add 32 (wi_frames_lost w) (rr_frames_lost report),
            wi_datagrams_lost := sat_add 32 (wi_datagrams_lost w) (rr_datagrams_lost report),
            wi_stalled := dur_add (wi_stalled w) (from_millis (rr_stalled_ms report)),
            wi_stalls := sat_add 16 (wi_stalls w) (rr_stalls report)\<rparr>\<rparr>)"

lemmas reassemble_consts [layout_simps] =
  STALL_GAP_def SEND_STAMP_RANGE_def STAMP_SLACK_def MAX_PENDING_ACKS_def HALF_STALL_GAP_def
  from_millis_def checked_div_def

section \<open>The NACK delay\<close>

lemma for_rtt_bounds:
  "nd_min nd \<le> nd_max nd \<Longrightarrow> nd_min nd \<le> for_rtt nd rtt \<and> for_rtt nd rtt \<le> nd_max nd"
  unfolding for_rtt_def by (rule clamp_bounds)

lemma for_rtt_mono:
  assumes "nd_min nd \<le> nd_max nd" and "rtt \<le> rtt'"
  shows "for_rtt nd rtt \<le> for_rtt nd rtt'"
  unfolding for_rtt_def
  by (rule clamp_mono [OF assms(1)])
     (simp add: checked_div_def div_le_mono assms(2))

end
