(* ===== verification/Reassemble_Stalls.thy ===== *)
theory Reassemble_Stalls
  imports Reassemble_State
begin

text \<open>
  Where a silence on the stream went (\<open>reassemble.rs\<close>, \<open>read_stamp\<close> to \<open>resume\<close>): the worker's
  own quiet read off its send stamps, the receiver's own sleep, and what is left, which is the
  link's and is charged to the report window as a stall.
\<close>

definition stall_threshold :: "reassembler \<Rightarrow> duration" where
  "stall_threshold s = max (dur_add (ra_last_rtt s) (ra_nack_delay s)) (cf_stall_gap (ra_cfg s))"

definition read_stamp :: "media_header \<Rightarrow> duration \<Rightarrow> reassembler \<Rightarrow> stamp" where
  "read_stamp h gap s =
    (if has_flag (mh_flags h) RETRANSMIT then SAbsent else
     (case ra_last_send_ms_lo s of None \<Rightarrow> SAbsent
      | Some previous \<Rightarrow>
        if gap \<ge> SEND_STAMP_RANGE then SWrapped else
        let worker_gap = from_millis (unat (mh_send_ms_lo h - previous)) in
        if worker_gap \<le> gap then SWorker worker_gap
        else if worker_gap - gap \<le> STAMP_SLACK then SCovered
        else SBackwards (worker_gap - gap)))"

fun worker_share :: "stamp \<Rightarrow> duration \<Rightarrow> duration" where
  "worker_share (SWorker worker) gap = worker"
| "worker_share SCovered gap = gap"
| "worker_share _ gap = 0"

definition dozed_since_tick :: "instant \<Rightarrow> reassembler \<Rightarrow> duration" where
  "dozed_since_tick arrival s = since arrival (ra_last_tick_at s) - cf_tick_period (ra_cfg s)"

definition doze_tail_from :: "reassembler \<Rightarrow> instant" where
  "doze_tail_from s = opt_or (inst_add (ra_last_tick_at s) (cf_tick_period (ra_cfg s))) (ra_last_tick_at s)"

definition doze :: "instant \<Rightarrow> reassembler \<Rightarrow> duration \<times> instant option" where
  "doze arrival s =
    (let tail = dozed_since_tick arrival s;
         tail_from = (if tail \<noteq> 0 then Some (doze_tail_from s) else None)
     in (dur_add (ra_dozed_since_arrival s) tail,
         (case ra_dozed_from s of Some from \<Rightarrow> Some from | None \<Rightarrow> tail_from)))"

definition dozed :: "instant \<Rightarrow> reassembler \<Rightarrow> duration" where
  "dozed arrival s = fst (doze arrival s)"

definition doze_beyond_worker :: "instant \<Rightarrow> duration \<Rightarrow> reassembler \<Rightarrow> duration" where
  "doze_beyond_worker arrival worker_gap s =
    (case doze arrival s of
       (slept, None) \<Rightarrow> 0
     | (slept, Some from) \<Rightarrow>
         slept - since (opt_or (inst_add (ra_arrived_at s) worker_gap) (ra_arrived_at s)) from)"

text \<open>The counter a silence past the threshold is filed under, and the datagram that ended it.\<close>

datatype cause = WorkerQuiet | WorkerCovered | ReceiverDozed | InFlight | StampAbsent
  | StampWrapped | StampBackwards

definition silence_cause :: "duration \<Rightarrow> duration \<Rightarrow> stamp \<Rightarrow> duration \<Rightarrow> cause" where
  "silence_cause threshold gap stamp dozed_for =
    (let worker = worker_share stamp gap in
     if gap - worker < threshold then
       (case stamp of SCovered \<Rightarrow> WorkerCovered | _ \<Rightarrow> WorkerQuiet)
     else if gap - worker - dozed_for < threshold then ReceiverDozed
     else (case stamp of
             SWorker _ \<Rightarrow> InFlight | SCovered \<Rightarrow> InFlight | SAbsent \<Rightarrow> StampAbsent
           | SWrapped \<Rightarrow> StampWrapped | SBackwards _ \<Rightarrow> StampBackwards))"

fun count_cause :: "cause \<Rightarrow> stall_attribution \<Rightarrow> stall_attribution" where
  "count_cause WorkerQuiet a = a\<lparr>at_worker_quiet := sat_add 64 (at_worker_quiet a) 1\<rparr>"
| "count_cause WorkerCovered a = a\<lparr>at_worker_covered := sat_add 64 (at_worker_covered a) 1\<rparr>"
| "count_cause ReceiverDozed a = a\<lparr>at_receiver_dozed := sat_add 64 (at_receiver_dozed a) 1\<rparr>"
| "count_cause InFlight a = a\<lparr>at_in_flight := sat_add 64 (at_in_flight a) 1\<rparr>"
| "count_cause StampAbsent a = a\<lparr>at_stamp_absent := sat_add 64 (at_stamp_absent a) 1\<rparr>"
| "count_cause StampWrapped a = a\<lparr>at_stamp_wrapped := sat_add 64 (at_stamp_wrapped a) 1\<rparr>"
| "count_cause StampBackwards a = a\<lparr>at_stamp_backwards := sat_add 64 (at_stamp_backwards a) 1\<rparr>"

definition count_ended :: "kind option \<Rightarrow> stall_attribution \<Rightarrow> stall_attribution" where
  "count_ended kind a =
    (case kind of
       Some Heartbeat \<Rightarrow> a\<lparr>at_ended_heartbeat := sat_add 64 (at_ended_heartbeat a) 1\<rparr>
     | Some VideoData \<Rightarrow> a\<lparr>at_ended_video := sat_add 64 (at_ended_video a) 1\<rparr>
     | Some VideoParity \<Rightarrow> a\<lparr>at_ended_video := sat_add 64 (at_ended_video a) 1\<rparr>
     | _ \<Rightarrow> a\<lparr>at_ended_other := sat_add 64 (at_ended_other a) 1\<rparr>)"

definition attribute ::
  "duration \<Rightarrow> stamp \<Rightarrow> duration \<Rightarrow> kind option \<Rightarrow> reassembler \<Rightarrow> reassembler" where
  "attribute gap stamp dozed_for kind s =
    (let pending = list_ex (\<lambda>e. \<not> settled (snd e)) (ra_frames s);
         a = rt_silences (ra_stats s);
         a = a\<lparr>at_gap_ms_max := max (at_gap_ms_max a) (to_width 64 (as_millis gap)),
               at_dozed_ms_max := max (at_dozed_ms_max a) (to_width 64 (as_millis dozed_for))\<rparr>;
         a = (if pending then a else a\<lparr>at_while_idle := sat_add 64 (at_while_idle a) 1\<rparr>);
         a = count_cause (silence_cause (stall_threshold s) gap stamp dozed_for) a;
         a = count_ended kind a
     in s\<lparr>ra_stats := (ra_stats s)\<lparr>rt_silences := a\<rparr>\<rparr>)"

definition stalled :: "instant \<Rightarrow> reassembler \<Rightarrow> bool" where
  "stalled now s \<longleftrightarrow> ra_any_arrived s \<and> ra_source_live s
     \<and> since now (ra_arrived_at s) - dozed now s \<ge> stall_threshold s"

text \<open>\<open>u64::try_from(silence.as_millis()).unwrap_or(0)\<close>: a duration's milliseconds always fit.\<close>

definition charge_stall :: "instant \<Rightarrow> duration \<Rightarrow> reassembler \<Rightarrow> reassembler" where
  "charge_stall now worker_gap s =
    (let from = max (ra_arrived_at s) (ra_stall_charged_to s);
         stretch = since now from;
         doze_for = min (doze_beyond_worker now worker_gap s - ra_dozed_spent s) (stretch - worker_gap);
         silence = stretch - worker_gap - doze_for;
         w = ra_window s; st = ra_stats s
     in s\<lparr>ra_dozed_spent := dur_add (ra_dozed_spent s) doze_for,
          ra_window := w\<lparr>wi_stalled := dur_add (wi_stalled w) silence\<rparr>,
          ra_stats := st\<lparr>rt_stalled_ms := sat_add 64 (rt_stalled_ms st)
                           (if as_millis silence \<le> umax 64 then as_millis silence else 0)\<rparr>,
          ra_stall_charged_to := now\<rparr>)"

fun resume_slot :: "instant \<Rightarrow> instant \<Rightarrow> slot \<Rightarrow> slot" where
  "resume_slot fresh now (Unknown t n a d) = Unknown fresh n (if n > 0 then Some now else None) d"
| "resume_slot fresh now (Partial p) =
     Partial (p\<lparr>pa_first_seen := fresh, pa_last_seen := fresh,
                pa_nacked_at := (if pa_nacks p > 0 then Some now else None)\<rparr>)"
| "resume_slot fresh now slot = slot"

definition om_map :: "('v \<Rightarrow> 'v) \<Rightarrow> 'v omap \<Rightarrow> 'v omap" where
  "om_map f m = map (\<lambda>e. (fst e, f (snd e))) m"

definition resume :: "instant \<Rightarrow> reassembler \<Rightarrow> reassembler" where
  "resume now s =
    (if list_all (\<lambda>e. settled (snd e)) (ra_frames s) then s
     else s\<lparr>ra_frames := om_map (resume_slot (opt_or (inst_sub now (ra_nack_delay s)) now) now)
                           (ra_frames s)\<rparr>)"

section \<open>The shares of a silence\<close>

lemma om_get_map: "om_get (om_map f m) k = map_option f (om_get m k)"
  by (induction m) (auto simp: om_get_def om_map_def)

lemma om_ok_map [simp]: "om_ok (om_map f m) = om_ok m"
  by (simp add: om_ok_def om_map_def comp_def)

lemma om_keys_map [simp]: "om_keys (om_map f m) = om_keys m"
  by (force simp: om_keys_def om_map_def)

lemma worker_share_le: "worker_share (read_stamp h gap s) gap \<le> gap"
  by (auto simp: read_stamp_def Let_def split: option.splits)

text \<open>
  The worker's share is exact when the datagrams were sent and arrived in order: if the worker
  really waited \<open>d\<close> whole milliseconds between the two stamps and the silence was not shorter
  than that, nor as long as the stamp's range, the share read off the stamps is \<open>d\<close>.
\<close>

lemma read_stamp_exact:
  assumes "\<not> has_flag (mh_flags h) RETRANSMIT" and "ra_last_send_ms_lo s = Some prev"
    and "mh_send_ms_lo h = prev + word_of_nat ms" and "from_millis ms \<le> gap" "gap < SEND_STAMP_RANGE"
  shows "worker_share (read_stamp h gap s) gap = from_millis ms"
proof -
  have "ms < 256" using assms(4,5) by (simp add: layout_simps)
  then have "unat (mh_send_ms_lo h - prev) = ms" by (simp add: assms(3) unat_of_nat)
  then show ?thesis using assms by (simp add: read_stamp_def)
qed

text \<open>A charge never exceeds the stretch of silence it covers.\<close>

lemma charge_stall_bound:
  "wi_stalled (ra_window (charge_stall now wg s))
     \<le> wi_stalled (ra_window s) + since now (max (ra_arrived_at s) (ra_stall_charged_to s))"
  by (simp add: charge_stall_def Let_def dur_add_def min.coboundedI1)

end
