(* ===== verification/Packetize.thy ===== *)
theory Packetize
  imports Wire
begin

text \<open>
  The worker side of the media transport, \<open>slopty-media/src/packetize.rs\<close>: the layout of a
  frame, the packetizer that cuts a frame into datagrams and adds parity, and the answer to a
  NACK from the send history.

  The Reed-Solomon engine (crate \<open>reed_solomon_simd\<close>) is a parameter: \<open>rs_enc k m b shards\<close>
  is what a fresh or reset encoder for \<open>k\<close> original and \<open>m\<close> recovery shards of \<open>b\<close> bytes
  yields for those originals, \<open>None\<close> where the crate returns an error. The packetizer's cached
  encoder object has no other observable state. \<open>usize\<close> is 64 bits wide.
\<close>

datatype media_error = Empty | FrameTooLarge nat | Fec

type_synonym rs_encoder = "nat \<Rightarrow> nat \<Rightarrow> nat \<Rightarrow> byte list list \<Rightarrow> byte list list option"

definition MAX_DATA_FRAGMENTS :: nat where "MAX_DATA_FRAGMENTS = 32768"
definition MAX_PARITY_FRAGMENTS :: nat where "MAX_PARITY_FRAGMENTS = 255"
definition MIN_PARITY_FRAGMENTS :: nat where "MIN_PARITY_FRAGMENTS = 2"
definition DEFAULT_PARITY_PERMILLE :: nat where "DEFAULT_PARITY_PERMILLE = 200"
definition HISTORY_FRAMES :: nat where "HISTORY_FRAMES = 32"
definition MIN_PAYLOAD :: nat where "MIN_PAYLOAD = 256"

text \<open>\<open>Redundancy::MIN\<close>, the clean-link ratio in thousandths.\<close>

definition REDUNDANCY_MIN :: nat where "REDUNDANCY_MIN = 50"

record encoded_frame =
  ef_data :: "byte list"
  ef_keyframe :: bool
  ef_ltr_token :: "64 word option"
  ef_ltr_refresh :: bool
  ef_discardable :: bool
  ef_capture_ts_us :: "32 word"
  ef_stripes :: byte
  ef_region :: "region option"

record layout =
  ly_data_count :: nat
  ly_shard_bytes :: nat
  ly_parity_count :: nat

text \<open>\<open>x & !1\<close>.\<close>

definition even_down :: "nat \<Rightarrow> nat" where
  "even_down x = x - x mod 2"

definition payload_cap :: "nat \<Rightarrow> nat" where
  "payload_cap max_payload = even_down (clamp MIN_PAYLOAD MAX_PAYLOAD max_payload)"

definition layout_of :: "nat \<Rightarrow> nat \<Rightarrow> nat \<Rightarrow> media_error + layout" where
  "layout_of len parity_permille max_payload =
    (if len = 0 then Inl Empty else
     let max_payload = payload_cap max_payload;
         total = sat_add 64 len FRAME_PREFIX_BYTES;
         data_count = div_ceil total max_payload
     in if data_count > MAX_DATA_FRAGMENTS then Inl (FrameTooLarge len) else
     let shard_bytes = min (next_multiple_of (div_ceil total data_count) 2) max_payload;
         floor = (if parity_permille > REDUNDANCY_MIN then MIN_PARITY_FRAGMENTS else 1);
         parity_count = (if parity_permille = 0 then 0
           else clamp floor MAX_PARITY_FRAGMENTS
                  (div_ceil (sat_mul 64 data_count parity_permille) 1000))
     in Inr \<lparr>ly_data_count = to_width 16 data_count, ly_shard_bytes = shard_bytes,
             ly_parity_count = to_width 8 parity_count\<rparr>)"

record sent_frame =
  sf_frame :: "32 word"
  sf_layout :: layout
  sf_datagrams :: "byte list list"

definition sent_bytes :: "sent_frame \<Rightarrow> nat" where
  "sent_bytes s = sum_list (map length (sf_datagrams s))"

record packetizer =
  pk_stream :: "32 word"
  pk_next_frame :: "32 word"
  pk_parity_permille :: nat
  pk_max_payload :: nat
  pk_history :: "sent_frame list"
  pk_datagrams_sent :: nat
  pk_previous_discardable :: bool
  pk_build :: byte

definition packetizer_new :: "32 word \<Rightarrow> packetizer" where
  "packetizer_new stream =
     \<lparr>pk_stream = stream, pk_next_frame = 0, pk_parity_permille = DEFAULT_PARITY_PERMILLE,
      pk_max_payload = MAX_PAYLOAD, pk_history = [], pk_datagrams_sent = 0,
      pk_previous_discardable = False, pk_build = 0\<rparr>"

definition set_parity_permille :: "nat \<Rightarrow> packetizer \<Rightarrow> packetizer" where
  "set_parity_permille permille pk =
     pk\<lparr>pk_parity_permille := (if permille > 1000 then 1000 else permille)\<rparr>"

definition set_max_datagram :: "nat \<Rightarrow> packetizer \<Rightarrow> packetizer" where
  "set_max_datagram bytes pk = pk\<lparr>pk_max_payload := bytes - HEADER_BYTES\<rparr>"

definition set_build :: "byte \<Rightarrow> packetizer \<Rightarrow> packetizer" where
  "set_build build pk = pk\<lparr>pk_build := build\<rparr>"

definition frame_flags :: "encoded_frame \<Rightarrow> bool \<Rightarrow> byte" where
  "frame_flags frame previous_discardable =
     (let f = 0;
          f = (if ef_discardable frame \<and> \<not> ef_keyframe frame \<and> \<not> ef_ltr_refresh frame
                  \<and> ef_ltr_token frame = None
               then f OR DISCARDABLE else f);
          f = (if previous_discardable then f OR PREV_DISCARDABLE else f);
          f = (if ef_keyframe frame then f OR KEYFRAME else f);
          f = (if ef_ltr_token frame \<noteq> None then f OR LTR else f);
          f = (if ef_ltr_refresh frame then f OR LTR_REFRESH else f)
      in f)"

definition frame_prefix_of :: "packetizer \<Rightarrow> encoded_frame \<Rightarrow> frame_prefix" where
  "frame_prefix_of pk frame =
     \<lparr>fp_len = word_of_nat (to_width 32 (length (ef_data frame))),
      fp_capture_ts_us = ef_capture_ts_us frame,
      fp_ltr_token = opt_or (ef_ltr_token frame) 0,
      fp_stripes = ef_stripes frame, fp_build = pk_build pk, fp_reserved = (0, 0),
      fp_region = region_of (ef_region frame)\<rparr>"

definition frame_header :: "packetizer \<Rightarrow> encoded_frame \<Rightarrow> byte \<Rightarrow> layout \<Rightarrow> media_header" where
  "frame_header pk frame send_ms_lo ly =
     \<lparr>mh_channel = channel_byte Media, mh_stream = pk_stream pk, mh_frame = pk_next_frame pk,
      mh_index = 0, mh_data_count = word_of_nat (ly_data_count ly),
      mh_parity_count = word_of_nat (ly_parity_count ly), mh_kind = kind_byte VideoData,
      mh_flags = frame_flags frame (pk_previous_discardable pk), mh_send_ms_lo = send_ms_lo\<rparr>"

text \<open>
  The loop over the data fragments: each takes what fits of the rest of the bitstream, the
  first one after the prefix, and pads with zeros.
\<close>

fun cut_shards :: "byte list \<Rightarrow> nat \<Rightarrow> nat list \<Rightarrow> byte list \<Rightarrow> byte list list" where
  "cut_shards prefix shard_bytes [] rest = []"
| "cut_shards prefix shard_bytes (index # indices) rest =
     (let room = (if index = 0 then shard_bytes - FRAME_PREFIX_BYTES else shard_bytes);
          now = take (min room (length rest)) rest;
          later = drop (min room (length rest)) rest
      in ((if index = 0 then prefix else []) @ now @ replicate (room - length now) 0)
         # cut_shards prefix shard_bytes indices later)"

text \<open>The bytes written for consecutive fragments: a header with the index, then the shard.\<close>

definition fragment :: "media_header \<Rightarrow> nat \<times> byte list \<Rightarrow> byte list" where
  "fragment header e =
     header_bytes (header\<lparr>mh_index := word_of_nat (to_width 16 (fst e))\<rparr>) @ snd e"

definition write_fragments :: "media_header \<Rightarrow> nat \<Rightarrow> byte list list \<Rightarrow> byte list" where
  "write_fragments header first shards = concat (map (fragment header) (enumerate first shards))"

definition slices :: "byte list \<Rightarrow> nat \<Rightarrow> nat \<Rightarrow> byte list list" where
  "slices wire count stride = map (\<lambda>i. take stride (drop (i * stride) wire)) [0..<count]"

text \<open>
  \<open>packetize\<close> returns the new state, the lists of datagrams it handed to \<open>ship\<close> in order, and
  its result. An engine error returns after the data datagrams were shipped and the frame number
  was taken.
\<close>

definition packetize ::
  "rs_encoder \<Rightarrow> packetizer \<Rightarrow> encoded_frame \<Rightarrow> byte
     \<Rightarrow> packetizer \<times> byte list list list \<times> (media_error + sent_frame)" where
  "packetize rs_enc pk frame send_ms_lo =
    (case layout_of (length (ef_data frame)) (pk_parity_permille pk) (pk_max_payload pk) of
       Inl e \<Rightarrow> (pk, [], Inl e)
     | Inr ly \<Rightarrow>
       let header = frame_header pk frame send_ms_lo ly;
           prefix = prefix_bytes (frame_prefix_of pk frame);
           number = pk_next_frame pk;
           pk1 = pk\<lparr>pk_next_frame := number + 1,
                    pk_previous_discardable := has_flag (mh_flags header) DISCARDABLE\<rparr>;
           stride = HEADER_BYTES + ly_shard_bytes ly;
           data_count = ly_data_count ly;
           shards = cut_shards prefix (ly_shard_bytes ly) [0..<data_count] (ef_data frame);
           data = slices (write_fragments header 0 shards) data_count stride;
           parity = (if ly_parity_count ly = 0 then Some []
                     else map_option (\<lambda>recovery.
                       slices (write_fragments (header\<lparr>mh_kind := kind_byte VideoParity\<rparr>)
                                data_count recovery) (ly_parity_count ly) stride)
                       (rs_enc data_count (ly_parity_count ly) (ly_shard_bytes ly)
                          (map (drop HEADER_BYTES) data)))
       in (case parity of
             None \<Rightarrow> (pk1, [data], Inl Fec)
           | Some par \<Rightarrow>
             let datagrams = data @ par;
                 sent = \<lparr>sf_frame = number, sf_layout = ly, sf_datagrams = datagrams\<rparr>;
                 kept = (if length (pk_history pk) \<ge> HISTORY_FRAMES then tl (pk_history pk)
                         else pk_history pk)
             in (pk1\<lparr>pk_datagrams_sent := sat_add 64 (pk_datagrams_sent pk) (length datagrams),
                     pk_history := kept @ [sent]\<rparr>,
                 (if ly_parity_count ly = 0 then [data] else [data, par]),
                 Inr sent)))"

definition retransmission :: "byte list \<Rightarrow> byte list" where
  "retransmission original = (case header_read original of None \<Rightarrow> original
     | Some (h, payload) \<Rightarrow> header_bytes (h\<lparr>mh_flags := mh_flags h OR RETRANSMIT\<rparr>) @ payload)"

definition retransmit :: "packetizer \<Rightarrow> 32 word \<Rightarrow> nat list \<Rightarrow> packetizer \<times> byte list list" where
  "retransmit pk frame fragments =
    (case find (\<lambda>s. sf_frame s = frame) (pk_history pk) of
       None \<Rightarrow> (pk, [])
     | Some sent \<Rightarrow>
       let data_count = ly_data_count (sf_layout sent);
           out = (if fragments = []
                  then map retransmission (take data_count (sf_datagrams sent))
                  else map retransmission (map (\<lambda>i. sf_datagrams sent ! i)
                         (filter (\<lambda>i. i < length (sf_datagrams sent))
                            (filter (\<lambda>i. i < data_count) fragments))))
       in (pk\<lparr>pk_datagrams_sent := sat_add 64 (pk_datagrams_sent pk) (length out)\<rparr>, out))"

lemmas packetize_consts [layout_simps] =
  MAX_DATA_FRAGMENTS_def MAX_PARITY_FRAGMENTS_def MIN_PARITY_FRAGMENTS_def
  DEFAULT_PARITY_PERMILLE_def HISTORY_FRAMES_def MIN_PAYLOAD_def REDUNDANCY_MIN_def

section \<open>The layout\<close>

lemma payload_cap_bounds:
  "MIN_PAYLOAD \<le> payload_cap m \<and> payload_cap m \<le> MAX_PAYLOAD \<and> even (payload_cap m)"
proof -
  have bounds: "256 \<le> clamp 256 1182 m" "clamp 256 1182 m \<le> 1182"
    using clamp_bounds [of 256 1182 m] by auto
  then have "256 \<le> payload_cap m" and "payload_cap m \<le> 1182"
    unfolding payload_cap_def even_down_def by (simp_all add: layout_simps) presburger
  moreover have "even (payload_cap m)"
    unfolding payload_cap_def even_down_def by presburger
  ultimately show ?thesis by (simp add: layout_simps)
qed

lemma payload_cap_le: "MIN_PAYLOAD \<le> m \<Longrightarrow> payload_cap m \<le> m"
  unfolding payload_cap_def even_down_def clamp_def by (auto simp: layout_simps)

text \<open>What a cut of \<open>len\<close> bitstream bytes promises.\<close>

definition layout_good :: "nat \<Rightarrow> nat \<Rightarrow> layout \<Rightarrow> bool" where
  "layout_good len cap ly \<longleftrightarrow>
     0 < ly_data_count ly \<and> ly_data_count ly \<le> MAX_DATA_FRAGMENTS \<and>
     even (ly_shard_bytes ly) \<and> FRAME_PREFIX_BYTES \<le> ly_shard_bytes ly \<and>
     ly_shard_bytes ly \<le> cap \<and>
     len + FRAME_PREFIX_BYTES \<le> ly_data_count ly * ly_shard_bytes ly \<and>
     ly_data_count ly * ly_shard_bytes ly < len + FRAME_PREFIX_BYTES + 2 * ly_data_count ly \<and>
     ly_parity_count ly \<le> MAX_PARITY_FRAGMENTS"

lemma even_next_le:
  assumes "even c" and "(s::nat) \<le> c"
  shows "next_multiple_of s 2 \<le> c"
proof (cases "even s")
  case True
  with assms show ?thesis by (simp add: next_multiple_of_def even_iff_mod_2_eq_zero)
next
  case False
  then have "s \<noteq> c" using assms(1) by auto
  then have "s + 1 \<le> c" using assms(2) by simp
  moreover have "next_multiple_of s 2 = s + 1"
    using False by (simp add: next_multiple_of_def odd_iff_mod_2_eq_one)
  ultimately show ?thesis by simp
qed

text \<open>The shard size: balanced fragments, each as small as the count allows.\<close>

lemma shard_size:
  fixes total cap :: nat
  assumes cap: "even cap" "256 \<le> cap" and total: "29 \<le> total"
  defines "dc \<equiv> div_ceil total cap"
  defines "sb \<equiv> min (next_multiple_of (div_ceil total dc) 2) cap"
  shows "0 < dc" "even sb" "28 \<le> sb" "sb \<le> cap" "total \<le> dc * sb" "dc * sb < total + 2 * dc"
proof -
  have cap0: "0 < cap" using cap by simp
  show dc: "0 < dc" using div_ceil_pos [of total cap] total cap0 by (simp add: dc_def)
  have "total \<le> dc * cap" using div_ceil_upper [OF cap0, of total] by (simp add: dc_def)
  then have le: "div_ceil total dc \<le> cap"
    using div_ceil_le_iff [OF dc, of total cap] by (simp add: mult.commute)
  then have sb: "sb = next_multiple_of (div_ceil total dc) 2"
    using even_next_le [OF cap(1)] by (simp add: sb_def)
  show "even sb" using next_multiple_of_dvd [of 2] by (simp add: sb)
  show "sb \<le> cap" by (simp add: sb_def)
  have near: "div_ceil total dc \<le> sb" "sb \<le> div_ceil total dc + 1"
    using next_multiple_of_bounds [of 2 "div_ceil total dc"] by (auto simp: sb)
  have up: "total \<le> div_ceil total dc * dc" by (rule div_ceil_upper [OF dc])
  then show "total \<le> dc * sb"
    using mult_le_mono1 [OF near(1), of dc] by (metis le_trans mult.commute)
  have "dc * sb \<le> dc * (div_ceil total dc + 1)" using near(2) by (rule mult_le_mono2)
  then show "dc * sb < total + 2 * dc"
    using div_ceil_tight [OF dc, of total] by (simp add: algebra_simps)
  show "28 \<le> sb"
  proof (rule ccontr)
    assume "\<not> 28 \<le> sb"
    then have small: "total \<le> 27 * dc"
      using up near(1) mult_le_mono1 [of "div_ceil total dc" 27 dc] by linarith
    have "\<not> dc \<le> dc - 1" using dc by simp
    then have "(dc - 1) * cap < total"
      using div_ceil_le_iff [OF cap0, of total "dc - 1"] unfolding dc_def by linarith
    then have "(dc - 1) * 256 < total" using mult_le_mono2 [OF cap(2), of "dc - 1"] by linarith
    moreover have "2 \<le> dc" using small total by linarith
    ultimately show False using small by linarith
  qed
qed

lemma layout_of_good:
  assumes "layout_of len permille max_payload = Inr ly"
  shows "layout_good len (payload_cap max_payload) ly"
proof -
  let ?cap = "payload_cap max_payload"
  let ?total = "sat_add 64 len 28"
  have cap: "even ?cap" "256 \<le> ?cap" "?cap \<le> 1182"
    using payload_cap_bounds [of max_payload] by (simp_all add: layout_simps)
  have len: "0 < len" and count: "div_ceil ?total ?cap \<le> 32768"
    and ly: "ly_data_count ly = to_width 16 (div_ceil ?total ?cap)"
      "ly_shard_bytes ly = min (next_multiple_of (div_ceil ?total (div_ceil ?total ?cap)) 2) ?cap"
      "ly_parity_count ly \<le> umax 8"
    using assms by (auto simp: layout_of_def Let_def layout_simps split: if_splits)
  have "?total \<le> 32768 * ?cap" using count div_ceil_le_iff [of ?cap ?total] cap by simp
  also have "\<dots> \<le> 32768 * 1182" using cap by simp
  finally have total: "?total = len + 28" by (simp add: sat_add_def umax_def)
  have dc: "ly_data_count ly = div_ceil ?total ?cap"
    using count by (simp add: ly(1) to_width_def umax_def)
  note size = shard_size [of ?cap ?total]
  from size [OF cap(1,2)] len total ly(2,3) count show ?thesis
    by (simp add: layout_good_def dc layout_simps umax_def)
qed

lemma layout_of_parity:
  assumes "layout_of len permille max_payload = Inr ly"
  shows "permille = 0 \<longleftrightarrow> ly_parity_count ly = 0"
    and "permille > REDUNDANCY_MIN \<Longrightarrow> MIN_PARITY_FRAGMENTS \<le> ly_parity_count ly"
  using assms
  by (auto simp: layout_of_def Let_def layout_simps to_width_def umax_def clamp_def split: if_splits)

lemma layout_of_error:
  "layout_of len permille max_payload = Inl e \<longleftrightarrow>
     (len = 0 \<and> e = Empty) \<or>
     (0 < len \<and> MAX_DATA_FRAGMENTS * payload_cap max_payload < len + FRAME_PREFIX_BYTES \<and>
      e = FrameTooLarge len)"
proof -
  let ?cap = "payload_cap max_payload"
  have cap: "0 < ?cap" "?cap \<le> 1182"
    using payload_cap_bounds [of max_payload] by (simp_all add: layout_simps)
  have "32768 * ?cap \<le> 32768 * 1182" using cap by simp
  then have "div_ceil (sat_add 64 len 28) ?cap \<le> 32768 \<longleftrightarrow> len + 28 \<le> 32768 * ?cap"
    using div_ceil_le_iff [OF cap(1), of "sat_add 64 len 28" 32768]
    by (auto simp: sat_add_def umax_def)
  then show ?thesis by (auto simp: layout_of_def Let_def layout_simps not_le)
qed

section \<open>Cutting a body into shards\<close>

lemma cut_shards_length [simp]: "length (cut_shards pre sb is rest) = length is"
  by (induction "is" arbitrary: rest) (auto simp: Let_def)

lemma cut_shards_sized:
  assumes "length pre = FRAME_PREFIX_BYTES" and "FRAME_PREFIX_BYTES \<le> sb"
  shows "\<forall>s \<in> set (cut_shards pre sb is rest). length s = sb"
  using assms by (induction "is" arbitrary: rest) (auto simp: Let_def min_def)

lemma cut_shards_tail:
  assumes "0 \<notin> set is"
  shows "concat (cut_shards pre sb is rest)
       = take (length is * sb) rest @ replicate (length is * sb - length rest) 0"
  using assms
proof (induction "is" arbitrary: rest)
  case Nil
  then show ?case by simp
next
  case (Cons i "is")
  then have i: "i \<noteq> 0" and IH: "concat (cut_shards pre sb is (drop sb rest))
      = take (length is * sb) (drop sb rest) @ replicate (length is * sb - length (drop sb rest)) 0"
    by auto
  show ?case
  proof (cases "sb \<le> length rest")
    case True
    then show ?thesis using i IH by (simp add: Let_def min_def take_add)
  next
    case False
    then have "drop sb rest = []" "take (length rest) rest = rest" by simp_all
    with False i IH show ?thesis
      by (simp add: Let_def min_def replicate_add [symmetric])
  qed
qed

lemma cut_shards_body:
  assumes "length pre = FRAME_PREFIX_BYTES" "FRAME_PREFIX_BYTES \<le> sb" "0 < n"
    and "length data + FRAME_PREFIX_BYTES \<le> n * sb"
  shows "concat (cut_shards pre sb [0..<n] data)
       = pre @ data @ replicate (n * sb - (length data + FRAME_PREFIX_BYTES)) 0"
proof -
  obtain m where n: "n = Suc m" using assms(3) by (cases n) auto
  have idx: "[0..<n] = 0 # [1..<n]" by (simp add: n upt_rec)
  let ?room = "sb - FRAME_PREFIX_BYTES"
  let ?now = "take (min ?room (length data)) data"
  let ?later = "drop (min ?room (length data)) data"
  have tail: "concat (cut_shards pre sb [1..<n] ?later)
      = take (m * sb) ?later @ replicate (m * sb - length ?later) 0"
  proof -
    have "length [1..<n] = m" "0 \<notin> set [1..<n]" by (simp_all add: n del: upt_Suc)
    then show ?thesis using cut_shards_tail [of "[1..<n]" pre sb ?later] by simp
  qed
  have cut: "concat (cut_shards pre sb [0..<n] data)
      = pre @ ?now @ replicate (?room - length ?now) 0 @ take (m * sb) ?later
        @ replicate (m * sb - length ?later) 0"
    unfolding idx using tail by (simp add: Let_def)
  show ?thesis
  proof (cases "?room \<le> length data")
    case True
    then have "length data - ?room \<le> m * sb" using assms(2,4) n by simp
    moreover have "m * sb - (length data - ?room) = n * sb - (length data + FRAME_PREFIX_BYTES)"
      using True assms(2) n by simp
    ultimately show ?thesis using cut True by simp
  next
    case False
    then have "?room - length data + m * sb = n * sb - (length data + FRAME_PREFIX_BYTES)"
      using assms(2) n by simp
    then show ?thesis using cut False
      by (simp add: replicate_add [symmetric] del: replicate_add)
  qed
qed

lemma slices_concat:
  assumes "\<forall>x \<in> set xs. length x = k"
  shows "slices (concat xs) (length xs) k = xs"
proof (rule nth_equalityI)
  show "length (slices (concat xs) (length xs) k) = length xs" by (simp add: slices_def)
  have at: "take k (drop (i * k) (concat xs)) = xs ! i" if "i < length xs" "\<forall>x \<in> set xs. length x = k" for xs :: "byte list list" and i
    using that
  proof (induction xs arbitrary: i)
    case Nil
    then show ?case by simp
  next
    case (Cons x xs)
    then show ?case by (cases i) auto
  qed
  fix i assume "i < length (slices (concat xs) (length xs) k)"
  then show "slices (concat xs) (length xs) k ! i = xs ! i"
    using at [of i xs] assms by (simp add: slices_def)
qed

lemma length_fragment [simp]: "length (fragment h e) = HEADER_BYTES + length (snd e)"
  by (simp add: fragment_def header_format.enc_length)

lemma slices_write_fragments:
  assumes "\<forall>s \<in> set shards. length s = sb"
  shows "slices (write_fragments h first shards) (length shards) (HEADER_BYTES + sb)
       = map (fragment h) (enumerate first shards)"
proof -
  have "\<forall>x \<in> set (map (fragment h) (enumerate first shards)). length x = HEADER_BYTES + sb"
    using assms by (auto simp: in_set_enumerate_eq)
  from slices_concat [OF this] show ?thesis by (simp add: write_fragments_def)
qed

lemma fragment_payload [simp]: "drop HEADER_BYTES (fragment h e) = snd e"
  by (simp add: fragment_def header_format.enc_length)

lemma fragment_payloads: "map (drop HEADER_BYTES) (map (fragment h) (enumerate first shards)) = shards"
  by (simp add: comp_def)

section \<open>What a packetized frame is\<close>

text \<open>The engine's documented output: as many recovery shards as asked for, each of the shard size.\<close>

definition rs_sized :: "rs_encoder \<Rightarrow> bool" where
  "rs_sized rs_enc \<longleftrightarrow> (\<forall>k m b shards recovery. rs_enc k m b shards = Some recovery \<longrightarrow>
     length recovery = m \<and> (\<forall>r \<in> set recovery. length r = b))"

text \<open>The data shards of a frame at a layout.\<close>

definition frame_shards :: "packetizer \<Rightarrow> encoded_frame \<Rightarrow> layout \<Rightarrow> byte list list" where
  "frame_shards pk frame ly = cut_shards (prefix_bytes (frame_prefix_of pk frame))
     (ly_shard_bytes ly) [0..<ly_data_count ly] (ef_data frame)"

lemma frame_shards_sized:
  assumes "layout_good len cap ly"
  shows "length (frame_shards pk frame ly) = ly_data_count ly"
    and "\<forall>s \<in> set (frame_shards pk frame ly). length s = ly_shard_bytes ly"
  using assms cut_shards_sized [OF prefix_format.enc_length]
  by (simp_all add: frame_shards_def layout_good_def)

lemma frame_shards_body:
  assumes "layout_good (length (ef_data frame)) cap ly"
  shows "\<exists>pad. concat (frame_shards pk frame ly)
       = prefix_bytes (frame_prefix_of pk frame) @ ef_data frame @ replicate pad 0"
  using assms cut_shards_body [OF prefix_format.enc_length]
  by (auto simp: frame_shards_def layout_good_def)

definition sent_of :: "packetizer \<Rightarrow> encoded_frame \<Rightarrow> byte \<Rightarrow> layout \<Rightarrow> byte list list \<Rightarrow> sent_frame" where
  "sent_of pk frame ms ly recovery =
     \<lparr>sf_frame = pk_next_frame pk, sf_layout = ly,
      sf_datagrams =
        map (fragment (frame_header pk frame ms ly)) (enumerate 0 (frame_shards pk frame ly))
        @ map (fragment ((frame_header pk frame ms ly)\<lparr>mh_kind := kind_byte VideoParity\<rparr>))
            (enumerate (ly_data_count ly) recovery)\<rparr>"

lemma packetize_data:
  assumes "layout_good len cap ly"
  shows "slices (write_fragments h 0 (frame_shards pk frame ly)) (ly_data_count ly)
           (HEADER_BYTES + ly_shard_bytes ly)
       = map (fragment h) (enumerate 0 (frame_shards pk frame ly))"
  using slices_write_fragments [OF frame_shards_sized(2) [OF assms]] frame_shards_sized(1) [OF assms]
  by metis

lemma packetize_sent:
  assumes ok: "packetize rs_enc pk frame ms = (pk', shipped, Inr sent)" and rs: "rs_sized rs_enc"
  obtains ly recovery where
    "layout_of (length (ef_data frame)) (pk_parity_permille pk) (pk_max_payload pk) = Inr ly"
    "sent = sent_of pk frame ms ly recovery"
    "if ly_parity_count ly = 0 then recovery = []
     else rs_enc (ly_data_count ly) (ly_parity_count ly) (ly_shard_bytes ly)
            (frame_shards pk frame ly) = Some recovery"
    "length recovery = ly_parity_count ly" "\<forall>r \<in> set recovery. length r = ly_shard_bytes ly"
    "pk' = pk\<lparr>pk_next_frame := pk_next_frame pk + 1,
        pk_previous_discardable :=
          has_flag (frame_flags frame (pk_previous_discardable pk)) DISCARDABLE,
        pk_datagrams_sent := sat_add 64 (pk_datagrams_sent pk) (length (sf_datagrams sent)),
        pk_history := (if length (pk_history pk) \<ge> HISTORY_FRAMES then tl (pk_history pk)
                       else pk_history pk) @ [sent]\<rparr>"
    "concat shipped = sf_datagrams sent"
proof -
  let ?lay = "layout_of (length (ef_data frame)) (pk_parity_permille pk) (pk_max_payload pk)"
  obtain ly where ly: "?lay = Inr ly"
    using ok by (cases ?lay) (auto simp: packetize_def)
  note good = layout_of_good [OF ly]
  let ?h = "frame_header pk frame ms ly"
  let ?data = "map (fragment ?h) (enumerate 0 (frame_shards pk frame ly))"
  note run = ok [unfolded packetize_def ly frame_shards_def [symmetric] Let_def sum.case
      packetize_data [OF good] fragment_payloads]
  show thesis
  proof (cases "ly_parity_count ly = 0")
    case True
    with run show thesis
      by (intro that [OF ly, of "[]"]) (auto simp: sent_of_def frame_header_def)
  next
    case False
    then obtain recovery where rec: "rs_enc (ly_data_count ly) (ly_parity_count ly)
        (ly_shard_bytes ly) (frame_shards pk frame ly) = Some recovery"
      using run by (auto split: option.splits)
    then have size: "length recovery = ly_parity_count ly"
        "\<forall>r \<in> set recovery. length r = ly_shard_bytes ly"
      using rs by (auto simp: rs_sized_def)
    note par = slices_write_fragments [OF size(2), unfolded size(1)]
    show thesis
      using run False rec size par
      by (intro that [OF ly, of recovery]) (auto simp: sent_of_def frame_header_def)
  qed
qed

lemma packetize_succeeds:
  assumes ly: "layout_of (length (ef_data frame)) (pk_parity_permille pk) (pk_max_payload pk) = Inr ly"
    and engine: "ly_parity_count ly = 0 \<or> rs_enc (ly_data_count ly) (ly_parity_count ly)
      (ly_shard_bytes ly) (frame_shards pk frame ly) \<noteq> None"
  shows "\<exists>sent. snd (snd (packetize rs_enc pk frame ms)) = Inr sent \<and> sf_layout sent = ly \<and>
    length (sf_datagrams sent) = ly_data_count ly + ly_parity_count ly"
proof -
  note good = layout_of_good [OF ly]
  let ?h = "frame_header pk frame ms ly"
  have "length (map (fragment ?h) (enumerate 0 (frame_shards pk frame ly))) = ly_data_count ly"
    using frame_shards_sized(1) [OF good] by simp
  then show ?thesis using engine
    unfolding packetize_def ly frame_shards_def [symmetric] Let_def sum.case
      packetize_data [OF good] fragment_payloads
    by (auto simp: slices_def)
qed
text \<open>Every datagram of a sent frame reads back as its place in the frame.\<close>

definition sent_ok :: "32 word \<Rightarrow> sent_frame \<Rightarrow> bool" where
  "sent_ok stream s \<longleftrightarrow>
     (let ly = sf_layout s in
      (\<exists>len cap. cap \<le> MAX_PAYLOAD \<and> layout_good len cap ly) \<and>
      length (sf_datagrams s) = ly_data_count ly + ly_parity_count ly \<and>
      (\<forall>i < length (sf_datagrams s). \<exists>h payload.
         header_parse (sf_datagrams s ! i) = Some (h, payload) \<and>
         mh_stream h = stream \<and> mh_frame h = sf_frame s \<and> unat (mh_index h) = i \<and>
         unat (mh_data_count h) = ly_data_count ly \<and>
         unat (mh_parity_count h) = ly_parity_count ly \<and>
         header_kind h = Some (if i < ly_data_count ly then VideoData else VideoParity) \<and>
         length payload = ly_shard_bytes ly))"

lemma sent_of_nth:
  assumes "length recovery = ly_parity_count ly" and "layout_good len cap ly"
    and "i < ly_data_count ly + ly_parity_count ly"
  shows "sf_datagrams (sent_of pk frame ms ly recovery) ! i =
    header_bytes ((frame_header pk frame ms ly)\<lparr>mh_index := word_of_nat i,
       mh_kind := kind_byte (if i < ly_data_count ly then VideoData else VideoParity)\<rparr>)
    @ (if i < ly_data_count ly then frame_shards pk frame ly ! i
       else recovery ! (i - ly_data_count ly))"
proof -
  have "i \<le> umax 16" using assms(2,3) by (simp add: layout_good_def layout_simps umax_def)
  then show ?thesis
    using assms frame_shards_sized(1) [OF assms(2), of pk frame]
    by (auto simp: sent_of_def nth_append nth_enumerate_eq fragment_def to_width_exact
        frame_header_def)
qed

lemma sent_of_ok:
  assumes "layout_of (length (ef_data frame)) permille max_payload = Inr ly"
    and rec: "length recovery = ly_parity_count ly" "\<forall>r \<in> set recovery. length r = ly_shard_bytes ly"
  shows "sent_ok (pk_stream pk) (sent_of pk frame ms ly recovery)"
proof -
  note good = layout_of_good [OF assms(1)]
  have bounds: "ly_data_count ly \<le> 32768" "ly_parity_count ly \<le> 255"
    using good by (simp_all add: layout_good_def layout_simps)
  note sized = frame_shards_sized [OF good, of pk frame]
  let ?s = "sent_of pk frame ms ly recovery"
  have at: "\<exists>h payload. header_parse (sf_datagrams ?s ! i) = Some (h, payload) \<and>
      mh_stream h = pk_stream pk \<and> mh_frame h = pk_next_frame pk \<and> unat (mh_index h) = i \<and>
      unat (mh_data_count h) = ly_data_count ly \<and> unat (mh_parity_count h) = ly_parity_count ly \<and>
      header_kind h = Some (if i < ly_data_count ly then VideoData else VideoParity) \<and>
      length payload = ly_shard_bytes ly"
    if i: "i < ly_data_count ly + ly_parity_count ly" for i
  proof -
    let ?h = "(frame_header pk frame ms ly)\<lparr>mh_index := word_of_nat i,
       mh_kind := kind_byte (if i < ly_data_count ly then VideoData else VideoParity)\<rparr>"
    let ?p = "if i < ly_data_count ly then frame_shards pk frame ly ! i
       else recovery ! (i - ly_data_count ly)"
    have "header_parse (sf_datagrams ?s ! i) = Some (?h, ?p)"
      unfolding sent_of_nth [OF rec(1) good i]
      by (rule header_parse_bytes) (simp add: frame_header_def)
    moreover have "length ?p = ly_shard_bytes ly" using i sized rec by simp
    ultimately show ?thesis
      using i bounds by (simp add: frame_header_def unat_word_small header_kind_def)
  qed
  have "length (sf_datagrams ?s) = ly_data_count ly + ly_parity_count ly"
    using sized rec by (simp add: sent_of_def)
  moreover have "sf_layout ?s = ly" "sf_frame ?s = pk_next_frame pk" by (simp_all add: sent_of_def)
  moreover have "\<exists>len cap. cap \<le> MAX_PAYLOAD \<and> layout_good len cap ly"
    using good payload_cap_bounds by blast
  ultimately show ?thesis using at by (simp add: sent_ok_def Let_def)
qed

section \<open>Reachable packetizers\<close>

definition pk_ok :: "packetizer \<Rightarrow> bool" where
  "pk_ok pk \<longleftrightarrow> length (pk_history pk) \<le> HISTORY_FRAMES \<and> pk_parity_permille pk \<le> 1000 \<and>
     pk_datagrams_sent pk \<le> umax 64 \<and> (\<forall>s \<in> set (pk_history pk). sent_ok (pk_stream pk) s)"

inductive pk_reach :: "rs_encoder \<Rightarrow> 32 word \<Rightarrow> packetizer \<Rightarrow> bool"
  for rs_enc :: rs_encoder and stream :: "32 word" where
  new: "pk_reach rs_enc stream (packetizer_new stream)"
| parity: "pk_reach rs_enc stream pk \<Longrightarrow> pk_reach rs_enc stream (set_parity_permille n pk)"
| max_datagram: "pk_reach rs_enc stream pk \<Longrightarrow> pk_reach rs_enc stream (set_max_datagram n pk)"
| build: "pk_reach rs_enc stream pk \<Longrightarrow> pk_reach rs_enc stream (set_build b pk)"
| frame: "pk_reach rs_enc stream pk \<Longrightarrow>
    pk_reach rs_enc stream (fst (packetize rs_enc pk f ms))"
| nack: "pk_reach rs_enc stream pk \<Longrightarrow> pk_reach rs_enc stream (fst (retransmit pk n fs))"

lemma pk_ok_new: "pk_ok (packetizer_new stream)"
  by (simp add: pk_ok_def packetizer_new_def layout_simps)

lemma packetize_error_state:
  assumes "packetize rs_enc pk f ms = (pk', shipped, Inl e)"
  shows "pk' = pk \<or> (e = Fec \<and> pk' = pk\<lparr>pk_next_frame := pk_next_frame pk + 1,
      pk_previous_discardable := has_flag (frame_flags f (pk_previous_discardable pk)) DISCARDABLE\<rparr>)"
  using assms
  by (auto simp: packetize_def Let_def frame_header_def split: sum.splits option.splits if_splits)

lemma pk_ok_packetize:
  assumes ok: "pk_ok pk" and rs: "rs_sized rs_enc"
  shows "pk_ok (fst (packetize rs_enc pk f ms)) \<and>
    pk_stream (fst (packetize rs_enc pk f ms)) = pk_stream pk"
proof -
  obtain pk' shipped r where run: "packetize rs_enc pk f ms = (pk', shipped, r)"
    by (cases "packetize rs_enc pk f ms")
  show ?thesis
  proof (cases r)
    case (Inl e)
    then show ?thesis using packetize_error_state [OF run [unfolded Inl]] ok run
      by (auto simp: pk_ok_def)
  next
    case (Inr sent)
    from packetize_sent [OF run [unfolded Inr] rs] obtain ly recovery where
      ly: "layout_of (length (ef_data f)) (pk_parity_permille pk) (pk_max_payload pk) = Inr ly"
      and sent: "sent = sent_of pk f ms ly recovery"
      and rec: "length recovery = ly_parity_count ly" "\<forall>r \<in> set recovery. length r = ly_shard_bytes ly"
      and pk': "pk' = pk\<lparr>pk_next_frame := pk_next_frame pk + 1,
        pk_previous_discardable := has_flag (frame_flags f (pk_previous_discardable pk)) DISCARDABLE,
        pk_datagrams_sent := sat_add 64 (pk_datagrams_sent pk) (length (sf_datagrams sent)),
        pk_history := (if length (pk_history pk) \<ge> HISTORY_FRAMES then tl (pk_history pk)
                       else pk_history pk) @ [sent]\<rparr>" by metis
    have "sent_ok (pk_stream pk) sent" unfolding sent by (rule sent_of_ok [OF ly rec])
    moreover have "set (tl (pk_history pk)) \<subseteq> set (pk_history pk)"
      by (cases "pk_history pk") auto
    ultimately show ?thesis using ok run pk'
      by (auto simp: pk_ok_def sat_add_le layout_simps)
  qed
qed

lemma pk_reach_ok: "pk_reach rs_enc stream pk \<Longrightarrow> rs_sized rs_enc \<Longrightarrow> pk_ok pk \<and> pk_stream pk = stream"
proof (induction rule: pk_reach.induct)
  case new
  then show ?case using pk_ok_new by (simp add: packetizer_new_def)
next
  case (frame pk f ms)
  then show ?case using pk_ok_packetize by simp
next
  case (nack pk n fs)
  then show ?case
    by (auto simp: retransmit_def Let_def pk_ok_def sat_add_le split: option.splits)
qed (auto simp: pk_ok_def set_parity_permille_def set_max_datagram_def set_build_def)

section \<open>Retransmissions\<close>

lemma retransmission_parse:
  assumes "header_parse d = Some (h, payload)"
  shows "header_parse (retransmission d) = Some (h\<lparr>mh_flags := mh_flags h OR RETRANSMIT\<rparr>, payload)"
proof -
  from assms have d: "d = header_bytes h @ payload" and c: "mh_channel h = channel_byte Media"
    by (simp_all add: header_parse_iff)
  have "header_read d = Some (h, payload)" by (simp add: d header_format.dec_enc)
  then show ?thesis using c by (simp add: retransmission_def header_parse_bytes)
qed

lemma has_flag_or: "has_flag (x OR f) f \<longleftrightarrow> f \<noteq> 0"
proof -
  have "(x OR f) AND f = f" by (rule word_bw_comms [THEN trans]) (simp add: word_ao_absorbs)
  then show ?thesis by (simp add: has_flag_def)
qed

lemma flag_values:
  "KEYFRAME = 1" "LTR = 2" "LTR_REFRESH = 4" "RETRANSMIT = 8" "DISCARDABLE = 16" "PREV_DISCARDABLE = 32"
  by (simp_all add: KEYFRAME_def LTR_def LTR_REFRESH_def RETRANSMIT_def DISCARDABLE_def
      PREV_DISCARDABLE_def)

lemma frame_flags_bits:
  "has_flag (frame_flags f pd) KEYFRAME \<longleftrightarrow> ef_keyframe f"
  "has_flag (frame_flags f pd) LTR \<longleftrightarrow> ef_ltr_token f \<noteq> None"
  "has_flag (frame_flags f pd) LTR_REFRESH \<longleftrightarrow> ef_ltr_refresh f"
  "has_flag (frame_flags f pd) RETRANSMIT \<longleftrightarrow> False"
  "has_flag (frame_flags f pd) DISCARDABLE \<longleftrightarrow>
     ef_discardable f \<and> \<not> ef_keyframe f \<and> \<not> ef_ltr_refresh f \<and> ef_ltr_token f = None"
  "has_flag (frame_flags f pd) PREV_DISCARDABLE \<longleftrightarrow> pd"
  by (simp_all add: frame_flags_def has_flag_def flag_values)

lemma retransmit_eq:
  assumes "find (\<lambda>s. sf_frame s = n) (pk_history pk) = Some s" and "sent_ok stream s"
  shows "snd (retransmit pk n fs) = map (\<lambda>i. retransmission (sf_datagrams s ! i))
    (if fs = [] then [0..<ly_data_count (sf_layout s)]
     else filter (\<lambda>i. i < ly_data_count (sf_layout s)) fs)"
proof -
  have len: "ly_data_count (sf_layout s) \<le> length (sf_datagrams s)"
    using assms(2) by (auto simp: sent_ok_def Let_def)
  then have "take (ly_data_count (sf_layout s)) (sf_datagrams s)
      = map (\<lambda>i. sf_datagrams s ! i) [0..<ly_data_count (sf_layout s)]"
    by (intro nth_equalityI) auto
  moreover have "filter (\<lambda>i. i < length (sf_datagrams s))
      (filter (\<lambda>i. i < ly_data_count (sf_layout s)) fs)
      = filter (\<lambda>i. i < ly_data_count (sf_layout s)) fs"
    using len by (auto simp: filter_filter intro!: filter_cong)
  ultimately show ?thesis using assms(1) by (simp add: retransmit_def Let_def comp_def)
qed

section \<open>What a packetizer promises\<close>

lemma sent_ok_at:
  assumes "sent_ok stream sent" and "i < length (sf_datagrams sent)"
  obtains h payload where "header_parse (sf_datagrams sent ! i) = Some (h, payload)"
    "mh_stream h = stream" "mh_frame h = sf_frame sent" "unat (mh_index h) = i"
    "unat (mh_data_count h) = ly_data_count (sf_layout sent)"
    "unat (mh_parity_count h) = ly_parity_count (sf_layout sent)"
    "header_kind h = Some (if i < ly_data_count (sf_layout sent) then VideoData else VideoParity)"
    "length payload = ly_shard_bytes (sf_layout sent)" "length payload \<le> MAX_PAYLOAD"
proof -
  obtain h payload where "header_parse (sf_datagrams sent ! i) = Some (h, payload)"
    "mh_stream h = stream \<and> mh_frame h = sf_frame sent \<and> unat (mh_index h) = i \<and>
     unat (mh_data_count h) = ly_data_count (sf_layout sent) \<and>
     unat (mh_parity_count h) = ly_parity_count (sf_layout sent) \<and>
     header_kind h = Some (if i < ly_data_count (sf_layout sent) then VideoData else VideoParity) \<and>
     length payload = ly_shard_bytes (sf_layout sent)"
    using assms unfolding sent_ok_def Let_def by blast
  moreover have "ly_shard_bytes (sf_layout sent) \<le> MAX_PAYLOAD"
    using assms(1) by (auto simp: sent_ok_def Let_def layout_good_def)
  ultimately show thesis using that by simp
qed

text \<open>
  C30. Every datagram fits and says what it is: along any use of a packetizer (frames cut, ratios and
  sizes set, NACKs answered), each datagram of a frame in its history is no longer than
  \<open>MAX_DATAGRAM\<close> and reads back as the frame, the stream, the counts and the place it was cut for,
  data before parity; and the history holds no more than \<open>HISTORY_FRAMES\<close> frames.
\<close>

theorem datagrams_fit_and_read_back:
  assumes reach: "pk_reach rs_enc stream pk" and rs: "rs_sized rs_enc"
    and sent: "sent \<in> set (pk_history pk)" and i: "i < length (sf_datagrams sent)"
  shows "length (pk_history pk) \<le> HISTORY_FRAMES \<and> length (sf_datagrams sent ! i) \<le> MAX_DATAGRAM \<and>
    (\<exists>h payload. header_parse (sf_datagrams sent ! i) = Some (h, payload) \<and>
       mh_stream h = stream \<and> mh_frame h = sf_frame sent \<and> unat (mh_index h) = i \<and>
       unat (mh_data_count h) + unat (mh_parity_count h) = length (sf_datagrams sent) \<and>
       header_kind h = Some (if i < unat (mh_data_count h) then VideoData else VideoParity))"
proof -
  have ok: "pk_ok pk" "pk_stream pk = stream" using pk_reach_ok [OF reach rs] by simp_all
  then have so: "sent_ok stream sent" using sent by (auto simp: pk_ok_def)
  obtain h payload where at: "header_parse (sf_datagrams sent ! i) = Some (h, payload)"
    "mh_stream h = stream" "mh_frame h = sf_frame sent" "unat (mh_index h) = i"
    "unat (mh_data_count h) = ly_data_count (sf_layout sent)"
    "unat (mh_parity_count h) = ly_parity_count (sf_layout sent)"
    "header_kind h = Some (if i < ly_data_count (sf_layout sent) then VideoData else VideoParity)"
    "length payload \<le> MAX_PAYLOAD"
    by (rule sent_ok_at [OF so i]) blast
  have "length (sf_datagrams sent ! i) = HEADER_BYTES + length payload"
    using at(1) by (simp add: header_parse_iff header_format.enc_length)
  then have "length (sf_datagrams sent ! i) \<le> MAX_DATAGRAM" using at(8) by (simp add: layout_simps)
  moreover have "length (sf_datagrams sent) = ly_data_count (sf_layout sent) + ly_parity_count (sf_layout sent)"
    using so by (simp add: sent_ok_def Let_def)
  ultimately show ?thesis using ok at by (auto simp: pk_ok_def)
qed

text \<open>
  C32. A frame is refused only when it cannot be sent, and a refused frame leaves no trace: a frame with no
  bytes is \<open>Empty\<close>, one that does not fit \<open>MAX_DATA_FRAGMENTS\<close> fragments is \<open>FrameTooLarge\<close>, and either
  leaves the packetizer as it was and ships nothing. The only other error is the engine's, after the
  data fragments were shipped.
\<close>

theorem refused_frames:
  "(snd (snd (packetize rs_enc pk frame ms)) = Inl Empty \<longleftrightarrow> ef_data frame = []) \<and>
   (\<forall>n. snd (snd (packetize rs_enc pk frame ms)) = Inl (FrameTooLarge n) \<longleftrightarrow>
      ef_data frame \<noteq> [] \<and> n = length (ef_data frame) \<and>
      MAX_DATA_FRAGMENTS * payload_cap (pk_max_payload pk) < length (ef_data frame) + FRAME_PREFIX_BYTES) \<and>
   (\<forall>e. snd (snd (packetize rs_enc pk frame ms)) = Inl e \<and> e \<noteq> Fec \<longrightarrow>
      packetize rs_enc pk frame ms = (pk, [], Inl e))"
proof -
  let ?lay = "layout_of (length (ef_data frame)) (pk_parity_permille pk) (pk_max_payload pk)"
  have eq: "snd (snd (packetize rs_enc pk frame ms)) = Inl e \<longleftrightarrow> ?lay = Inl e" if "e \<noteq> Fec" for e
    using that by (cases ?lay) (auto simp: packetize_def Let_def split: option.splits)
  moreover have "packetize rs_enc pk frame ms = (pk, [], Inl e)" if "?lay = Inl e" for e
    using that by (simp add: packetize_def)
  ultimately show ?thesis by (auto simp: layout_of_error)
qed

text \<open>
  C31. A NACK is answered with what was asked: along any use of a packetizer, the answer to a NACK for a
  frame in the history is, for each fragment asked for that is a data fragment (every one when none
  is named), in the order asked, that fragment's own bytes with the same header but for the
  retransmission mark; for a frame no longer in the history it is empty.
\<close>

theorem nack_answer:
  assumes reach: "pk_reach rs_enc stream pk" and rs: "rs_sized rs_enc"
  shows "case find (\<lambda>s. sf_frame s = n) (pk_history pk) of
      None \<Rightarrow> snd (retransmit pk n fs) = []
    | Some sent \<Rightarrow>
        let asked = (if fs = [] then [0..<ly_data_count (sf_layout sent)]
                     else filter (\<lambda>i. i < ly_data_count (sf_layout sent)) fs)
        in length (snd (retransmit pk n fs)) = length asked \<and>
           (\<forall>k < length asked. \<exists>h payload.
              header_parse (sf_datagrams sent ! (asked ! k)) = Some (h, payload) \<and>
              unat (mh_index h) = asked ! k \<and> mh_frame h = n \<and>
              header_parse (snd (retransmit pk n fs) ! k)
                = Some (h\<lparr>mh_flags := mh_flags h OR RETRANSMIT\<rparr>, payload))"
proof (cases "find (\<lambda>s. sf_frame s = n) (pk_history pk)")
  case None
  then show ?thesis by (simp add: retransmit_def)
next
  case (Some sent)
  then have sent: "sent \<in> set (pk_history pk)" "sf_frame sent = n"
    by (auto simp: find_Some_iff)
  then have so: "sent_ok stream sent" using pk_reach_ok [OF reach rs] by (auto simp: pk_ok_def)
  let ?asked = "if fs = [] then [0..<ly_data_count (sf_layout sent)]
      else filter (\<lambda>i. i < ly_data_count (sf_layout sent)) fs"
  note eq = retransmit_eq [OF Some so, of fs]
  have len: "ly_data_count (sf_layout sent) \<le> length (sf_datagrams sent)"
    using so by (simp add: sent_ok_def Let_def)
  have "\<exists>h payload. header_parse (sf_datagrams sent ! (?asked ! k)) = Some (h, payload) \<and>
      unat (mh_index h) = ?asked ! k \<and> mh_frame h = n \<and>
      header_parse (snd (retransmit pk n fs) ! k) = Some (h\<lparr>mh_flags := mh_flags h OR RETRANSMIT\<rparr>, payload)"
    if k: "k < length ?asked" for k
  proof -
    have "?asked ! k \<in> set ?asked" using k by (rule nth_mem)
    then have "?asked ! k < length (sf_datagrams sent)" using len by (auto split: if_splits)
    from sent_ok_at [OF so this] obtain h payload where
      h: "header_parse (sf_datagrams sent ! (?asked ! k)) = Some (h, payload)" "unat (mh_index h) = ?asked ! k"
        "mh_frame h = n" using sent(2) by metis
    moreover have "snd (retransmit pk n fs) ! k = retransmission (sf_datagrams sent ! (?asked ! k))"
      unfolding eq using k by simp
    ultimately show ?thesis using retransmission_parse [OF h(1)] by auto
  qed
  then show ?thesis using Some eq by (simp add: Let_def)
qed

end
