(* ===== verification/Reassemble_Video.thy ===== *)
theory Reassemble_Video
  imports Reassemble_State Packetize
begin

text \<open>
  The video path of the reassembler: storing a fragment, assembling a complete frame (with the
  Reed-Solomon engine where data fragments are missing), giving frames up, delivering in decode
  order and evicting.

  The engine (crate \<open>reed_solomon_simd\<close>) is a parameter: \<open>rs_dec k m b originals recoveries\<close>
  is the outcome of a fresh or reset decoder for \<open>k\<close> original and \<open>m\<close> recovery shards of \<open>b\<close>
  bytes after those shards were added in order and \<open>decode\<close> was called: \<open>None\<close> where any of
  these calls returns an error, otherwise the crate's \<open>restored_original\<close>.
\<close>

type_synonym rs_decoder =
  "nat \<Rightarrow> nat \<Rightarrow> nat \<Rightarrow> (nat \<times> byte list) list \<Rightarrow> (nat \<times> byte list) list
     \<Rightarrow> (nat \<Rightarrow> byte list option) option"

section \<open>Assembling a frame\<close>

text \<open>The shards added to the engine: the received ones with their indices, in order.\<close>

definition received :: "byte list option list \<Rightarrow> (nat \<times> byte list) list" where
  "received shards = map (\<lambda>e. (fst e, the (snd e))) (filter (\<lambda>e. snd e \<noteq> None) (enumerate 0 shards))"

text \<open>The loop that appends shards, restoring the missing ones; \<open>None\<close> where one is not had.\<close>

fun join_shards :: "(nat \<Rightarrow> byte list option) \<Rightarrow> nat \<Rightarrow> byte list option list \<Rightarrow> byte list option" where
  "join_shards restored i [] = Some []"
| "join_shards restored i (shard # shards) =
    (case (case shard of Some bytes \<Rightarrow> Some bytes | None \<Rightarrow> restored i) of
       None \<Rightarrow> None
     | Some bytes \<Rightarrow> map_option (\<lambda>body. bytes @ body) (join_shards restored (Suc i) shards))"

definition assemble_body :: "rs_decoder \<Rightarrow> partial \<Rightarrow> byte list option" where
  "assemble_body rs_dec p =
    (let data = take (pa_data_count p) (pa_shards p) in
     if pa_have_data p < pa_data_count p then
       (case rs_dec (pa_data_count p) (pa_parity_count p) (pa_shard_bytes p) (received data)
               (received (drop (pa_data_count p) (pa_shards p))) of
          None \<Rightarrow> None
        | Some restored \<Rightarrow> join_shards restored 0 data)
     else join_shards (\<lambda>_. None) 0 data)"

definition assemble :: "rs_decoder \<Rightarrow> nat \<Rightarrow> partial \<Rightarrow> instant \<Rightarrow> frame_out option" where
  "assemble rs_dec frame p arrived =
    (case assemble_body rs_dec p of None \<Rightarrow> None
     | Some body \<Rightarrow>
       (case prefix_parse body of None \<Rightarrow> None
        | Some (prefix, rest) \<Rightarrow>
          let len = unat (fp_len prefix);
              start = length body - length rest;
              fs = pa_flags p
          in if start + len > length body then None else
             Some \<lparr>fo_info =
                     \<lparr>fi_frame = frame,
                      fi_keyframe = has_flag fs KEYFRAME,
                      fi_ltr_token = (if has_flag fs LTR then Some (unat (fp_ltr_token prefix)) else None),
                      fi_ltr_refresh = has_flag fs LTR_REFRESH,
                      fi_discardable = pa_discardable p,
                      fi_capture_ts_us = unat (fp_capture_ts_us prefix),
                      fi_stripes = fp_stripes prefix,
                      fi_build = fp_build prefix,
                      fi_region = prefix_region prefix,
                      fi_recovered = (pa_have_data p < pa_data_count p \<or> pa_retransmitted p)\<rparr>,
                   fo_data = take len (drop start body),
                   fo_hold = 0,
                   fo_arrived = arrived\<rparr>))"

section \<open>Giving frames up\<close>

definition count_lost_datagrams :: "nat \<Rightarrow> reassembler \<Rightarrow> reassembler" where
  "count_lost_datagrams missing s =
    (let st = ra_stats s; w = ra_window s in
     s\<lparr>ra_stats := st\<lparr>rt_datagrams_lost := sat_add 64 (rt_datagrams_lost st) missing\<rparr>,
       ra_window := w\<lparr>wi_datagrams_lost := sat_add 32 (wi_datagrams_lost w) (to_width 32 missing)\<rparr>\<rparr>)"

definition give_up :: "nat \<Rightarrow> reassembler \<Rightarrow> reassembler" where
  "give_up frame s =
    (let kept = (if length (ra_given_up s) \<ge> max (cf_max_pending (ra_cfg s)) 1
                 then tl (ra_given_up s) else ra_given_up s)
     in s\<lparr>ra_given_up := kept @ [frame]\<rparr>)"

definition skip :: "nat \<Rightarrow> nat \<Rightarrow> reassembler \<Rightarrow> reassembler" where
  "skip frame missing s =
    (let s = give_up frame (s\<lparr>ra_frames := om_insert frame Skipped (ra_frames s)\<rparr>);
         st = ra_stats s
     in count_lost_datagrams missing
          (s\<lparr>ra_stats := st\<lparr>rt_frames_skipped := sat_add 64 (rt_frames_skipped st) 1\<rparr>\<rparr>))"

definition lose :: "nat \<Rightarrow> nat \<Rightarrow> instant \<Rightarrow> reassembler \<Rightarrow> reassembler" where
  "lose frame missing now s =
    (if (case om_get (ra_frames s) frame of None \<Rightarrow> False | Some slot \<Rightarrow> slot_discardable slot)
     then skip frame missing s
     else
       let s = give_up frame (s\<lparr>ra_frames := om_remove frame (ra_frames s)\<rparr>);
           st = ra_stats s; w = ra_window s;
           s = count_lost_datagrams missing
                 (s\<lparr>ra_stats := st\<lparr>rt_frames_lost := sat_add 64 (rt_frames_lost st) 1\<rparr>,
                    ra_window := w\<lparr>wi_frames_lost := sat_add 32 (wi_frames_lost w) 1\<rparr>\<rparr>)
       in (case ra_need s of
             NeedFrame _ \<Rightarrow> enter_refresh now s
           | _ \<Rightarrow> request_refresh now True s))"

text \<open>
  The statistics of a frame that assembled: recovered frames, and the data fragments that were
  missing.
\<close>

definition count_finished :: "frame_out \<Rightarrow> partial \<Rightarrow> reassembler \<Rightarrow> reassembler" where
  "count_finished out p s =
    (if fi_recovered (fo_info out) then
       let w = ra_window s; st = ra_stats s;
           st = (if pa_have_data p < pa_data_count p
                 then st\<lparr>rt_frames_fec := sat_add 64 (rt_frames_fec st) 1\<rparr> else st);
           st = (if pa_retransmitted p
                 then st\<lparr>rt_frames_retransmit := sat_add 64 (rt_frames_retransmit st) 1\<rparr> else st)
       in s\<lparr>ra_window := w\<lparr>wi_frames_fec := sat_add 32 (wi_frames_fec w) 1\<rparr>, ra_stats := st\<rparr>
     else s)"

definition finish :: "rs_decoder \<Rightarrow> nat \<Rightarrow> instant \<Rightarrow> reassembler \<Rightarrow> reassembler" where
  "finish rs_dec frame now s =
    (let slot = om_get (ra_frames s) frame;
         s = s\<lparr>ra_frames := om_remove frame (ra_frames s)\<rparr>
     in (case slot of
           Some (Partial p) \<Rightarrow>
             (case assemble rs_dec frame p now of
                Some out \<Rightarrow>
                  let s = count_lost_datagrams (missing_data_count p) (count_finished out p s)
                  in s\<lparr>ra_frames := om_insert frame (Complete out (pa_first_seen p)) (ra_frames s)\<rparr>
              | None \<Rightarrow> lose frame (missing_data_count p) now s)
         | _ \<Rightarrow> s))"

section \<open>Delivering in decode order\<close>

definition complete_after :: "nat \<Rightarrow> reassembler \<Rightarrow> bool" where
  "complete_after frame s =
     list_ex (\<lambda>e. sat_add 32 frame 1 \<le> fst e \<and> is_complete (snd e)) (ra_frames s)"

definition sat_i64 :: "int \<Rightarrow> int" where
  "sat_i64 x = max (- (2 ^ 63)) (min (2 ^ 63 - 1) x)"

text \<open>Rust's \<open>/\<close> on signed integers rounds towards zero.\<close>

definition trunc_div :: "int \<Rightarrow> int \<Rightarrow> int" where
  "trunc_div a b = sgn a * sgn b * (\<bar>a\<bar> div \<bar>b\<bar>)"

definition jitter_step :: "int \<Rightarrow> nat \<times> nat \<Rightarrow> nat \<times> nat \<Rightarrow> int" where
  "jitter_step jitter prev cur =
    (let transit = sat_i64 (int (fst cur - fst prev));
         sent = int (wrap_sub 32 (snd cur) (snd prev));
         d = sat_i64 \<bar>sat_i64 (transit - sent)\<bar>
     in sat_i64 (jitter + trunc_div (sat_i64 (d - jitter)) 16))"

definition record_delivery :: "frame_out \<Rightarrow> instant \<Rightarrow> reassembler \<Rightarrow> reassembler" where
  "record_delivery out now s =
    (let st = ra_stats s; w = ra_window s;
         arrival_us = to_width 64 (as_micros (since now (ra_epoch s)));
         ts = fi_capture_ts_us (fo_info out)
     in s\<lparr>ra_stats := st\<lparr>rt_frames_ok := sat_add 64 (rt_frames_ok st) 1\<rparr>,
          ra_window := w\<lparr>wi_frames_ok := sat_add 32 (wi_frames_ok w) 1,
                         wi_holds_ns := wi_holds_ns w @ [to_width 64 (fo_hold out)]\<rparr>,
          ra_last_worker_ts_us := ts,
          ra_jitter_us := (case ra_last_arrival s of None \<Rightarrow> ra_jitter_us s
                           | Some prev \<Rightarrow> jitter_step (ra_jitter_us s) prev (arrival_us, ts)),
          ra_last_arrival := Some (arrival_us, ts)\<rparr>)"

definition deliver :: "nat \<Rightarrow> frame_out \<Rightarrow> instant \<Rightarrow> instant \<Rightarrow> reassembler \<Rightarrow> reassembler" where
  "deliver frame out first_seen now s =
    (let out = out\<lparr>fo_hold := since now first_seen\<rparr>;
         s = record_delivery out now (s\<lparr>ra_frames := om_remove frame (ra_frames s)\<rparr>)
     in s\<lparr>ra_ready := ra_ready s @ [out], ra_last_good := Some frame,
          ra_need := NeedFrame (wrap_add 32 frame 1)\<rparr>)"

text \<open>A complete frame that restarts delivery.\<close>

fun restarts :: "bool \<Rightarrow> slot \<Rightarrow> bool" where
  "restarts accept_refresh (Complete out _) =
     (fi_keyframe (fo_info out) \<or> (accept_refresh \<and> fi_ltr_refresh (fo_info out)))"
| "restarts accept_refresh _ = False"

fun slot_missing :: "slot \<Rightarrow> nat" where
  "slot_missing (Partial p) = missing_data_count p"
| "slot_missing _ = 1"

text \<open>What a loop over the frames consumes: an entry, or the wait for one.\<close>

fun slot_weight :: "slot \<Rightarrow> nat" where
  "slot_weight (Complete _ _) = 1"
| "slot_weight Skipped = 1"
| "slot_weight _ = 2"

lemma slot_weight_pos [simp]: "0 < slot_weight u"
  by (cases u) auto

lemma ra_frames_simps [simp]:
  "ra_frames (count_lost_datagrams k s) = ra_frames s"
  "ra_frames (give_up f s) = ra_frames s"
  "ra_frames (skip f k s) = om_insert f Skipped (ra_frames s)"
  "ra_frames (request_refresh now again s) = ra_frames s"
  "ra_frames (enter_refresh now s) = ra_frames s"
  "ra_frames (record_delivery out now s) = ra_frames s"
  "ra_frames (deliver f out fs now s) = om_remove f (ra_frames s)"
  by (simp_all add: count_lost_datagrams_def give_up_def skip_def request_refresh_def
      enter_refresh_def record_delivery_def deliver_def Let_def)

lemma weight_skip:
  assumes "om_get m k = Some u" and "slot_discardable u"
  shows "om_weight slot_weight (om_insert k Skipped m) < om_weight slot_weight m"
proof (rule om_weight_insert [OF assms(1)])
  show "slot_weight Skipped < slot_weight u" using assms(2) by (cases u) auto
  show "slot_weight Skipped \<le> slot_weight x" for x by (cases x) auto
qed

function drain :: "instant \<Rightarrow> reassembler \<Rightarrow> reassembler" where
  "drain now s =
    (case ra_need s of
       NeedFrame n \<Rightarrow>
         (case om_get (ra_frames s) n of
            None \<Rightarrow> s
          | Some (Complete out first_seen) \<Rightarrow> drain now (deliver n out first_seen now s)
          | Some Skipped \<Rightarrow>
              drain now (s\<lparr>ra_frames := om_remove n (ra_frames s),
                           ra_need := NeedFrame (wrap_add 32 n 1)\<rparr>)
          | Some slot \<Rightarrow>
              if slot_discardable slot \<and> complete_after n s
              then drain now (skip n (slot_missing slot) s)
              else s)
     | _ \<Rightarrow>
         (case find (\<lambda>e. restarts (ra_need s = NeedRefresh) (snd e)) (ra_frames s) of
            None \<Rightarrow> s
          | Some (f, _) \<Rightarrow>
              let s = s\<lparr>ra_frames := om_retain (\<lambda>k. k \<ge> f) (ra_frames s),
                        ra_refresh_requested_at := None, ra_refresh_backoff := 0\<rparr>
              in (case om_get (ra_frames s) f of
                    Some (Complete out first_seen) \<Rightarrow> drain now (deliver f out first_seen now s)
                  | _ \<Rightarrow> s\<lparr>ra_frames := om_remove f (ra_frames s)\<rparr>)))"
  by pat_completeness auto

lemma drain_retain_weight:
  assumes "om_get (om_retain P m) f = Some (Complete out fs)"
  shows "om_weight slot_weight (om_remove f (om_retain P m)) < om_weight slot_weight m"
proof -
  have "om_weight slot_weight (om_remove f (om_retain P m)) < om_weight slot_weight (om_retain P m)"
    using om_weight_remove [OF assms] by simp
  also have "\<dots> \<le> om_weight slot_weight m" by (simp add: om_retain_def om_weight_filter)
  finally show ?thesis .
qed

termination drain
  by (relation "measure (\<lambda>(now, s). om_weight slot_weight (ra_frames s))")
     (auto intro: om_weight_remove weight_skip drain_retain_weight)

declare drain.simps [simp del]

section \<open>Evicting\<close>

lemma ra_frames_lose:
  "ra_frames (lose f k now s) =
    (if (case om_get (ra_frames s) f of None \<Rightarrow> False | Some slot \<Rightarrow> slot_discardable slot)
     then om_insert f Skipped (ra_frames s) else om_remove f (ra_frames s))"
  by (auto simp: lose_def Let_def split: need.splits)

lemma weight_lose:
  assumes "ra_frames s = (f, u) # m"
  shows "om_weight slot_weight (ra_frames (lose f k now s)) < om_weight slot_weight ((f, u) # m)"
proof -
  have get: "om_get (ra_frames s) f = Some u" using assms by (simp add: om_get_def)
  show ?thesis
    using weight_skip [OF get] om_weight_remove [OF get, of slot_weight]
    by (simp add: ra_frames_lose get [unfolded assms] assms)
qed

function evict :: "instant \<Rightarrow> reassembler \<Rightarrow> reassembler" where
  "evict now s =
    (if length (ra_frames s) \<le> cf_max_pending (ra_cfg s) then s else
     (case ra_frames s of
        [] \<Rightarrow> s
      | (frame, slot) # _ \<Rightarrow>
        (case slot of
           Complete _ _ \<Rightarrow> evict now (s\<lparr>ra_frames := om_remove frame (ra_frames s)\<rparr>)
         | Skipped \<Rightarrow>
             let s' = s\<lparr>ra_frames := om_remove frame (ra_frames s)\<rparr> in
             evict now (if ra_need s = NeedFrame frame
                        then s'\<lparr>ra_need := NeedFrame (wrap_add 32 frame 1)\<rparr> else s')
         | _ \<Rightarrow> evict now (lose frame (slot_missing slot) now s))))"
  by pat_completeness auto

lemma weight_first:
  "om_weight slot_weight (om_remove f ((f, u) # m)) < om_weight slot_weight ((f, u) # m)"
  by (rule om_weight_remove [where v = u]) (simp_all add: om_get_def)

termination evict
  by (relation "measure (\<lambda>(now, s). om_weight slot_weight (ra_frames s))")
     (auto simp: Let_def weight_first intro: weight_lose)

declare evict.simps [simp del]

section \<open>Feeding a video fragment\<close>

text \<open>The header and the payload make sense.\<close>

definition video_valid :: "media_header \<Rightarrow> byte list \<Rightarrow> bool" where
  "video_valid h payload \<longleftrightarrow>
    (let data_count = unat (mh_data_count h);
         total = sat_add 64 data_count (unat (mh_parity_count h));
         index = unat (mh_index h)
     in data_count > 0 \<and> index < total \<and> payload \<noteq> [] \<and> length payload mod 2 = 0
        \<and> length payload \<le> MAX_PAYLOAD \<and> (is_parity h \<longleftrightarrow> index \<ge> data_count))"

text \<open>
  While frames leave in order: a frame before the next one is stale, one far past it gives up on
  everything before it, and otherwise every frame between is expected. \<open>None\<close> is stale.
\<close>

definition note_gap :: "nat \<Rightarrow> instant \<Rightarrow> reassembler \<Rightarrow> reassembler option" where
  "note_gap frame now s =
    (case ra_need s of
       NeedFrame next \<Rightarrow>
         if frame < next then None else
         let gap = wrap_sub 32 frame next in
         if gap > cf_max_pending (ra_cfg s) then
           let st = ra_stats s; w = ra_window s in
           Some (enter_refresh now
             (s\<lparr>ra_stats := st\<lparr>rt_frames_lost := sat_add 64 (rt_frames_lost st) gap\<rparr>,
                ra_window := w\<lparr>wi_frames_lost := sat_add 32 (wi_frames_lost w) (to_width 32 gap)\<rparr>,
                ra_frames := om_retain (\<lambda>f. f \<ge> frame) (ra_frames s)\<rparr>))
         else Some (s\<lparr>ra_frames :=
                fold (\<lambda>missing m. om_entry missing (slot_unknown now) m) [next..<frame] (ra_frames s)\<rparr>)
     | _ \<Rightarrow> Some s)"

fun mark_discardable :: "slot \<Rightarrow> slot" where
  "mark_discardable (Unknown t n a _) = Unknown t n a True"
| "mark_discardable (Partial p) = Partial (p\<lparr>pa_discardable := True\<rparr>)"
| "mark_discardable slot = slot"

definition mark_previous :: "media_header \<Rightarrow> nat \<Rightarrow> reassembler \<Rightarrow> reassembler" where
  "mark_previous h frame s =
    (if has_flag (mh_flags h) PREV_DISCARDABLE \<and> frame \<ge> 1 then
       (case om_get (ra_frames s) (frame - 1) of
          Some slot \<Rightarrow> s\<lparr>ra_frames := om_insert (frame - 1) (mark_discardable slot) (ra_frames s)\<rparr>
        | None \<Rightarrow> s)
     else s)"

text \<open>The frame's entry, opened as a partial frame when nothing of it was seen.\<close>

definition open_slot :: "media_header \<Rightarrow> byte list \<Rightarrow> nat \<Rightarrow> instant \<Rightarrow> reassembler \<Rightarrow> reassembler" where
  "open_slot h payload frame now s =
    (let frames = om_entry frame (slot_unknown now) (ra_frames s);
         data_count = unat (mh_data_count h);
         total = sat_add 64 data_count (unat (mh_parity_count h))
     in (case om_get frames frame of
           Some (Unknown _ _ _ discardable) \<Rightarrow>
             let st = ra_stats s in
             s\<lparr>ra_frames := om_insert frame
                  (Partial (partial_new h (length payload) now discardable)) frames,
               ra_stats := st\<lparr>rt_data_shards := sat_add 64 (rt_data_shards st) data_count,
                 rt_parity_shards := sat_add 64 (rt_parity_shards st) (total - data_count)\<rparr>\<rparr>
         | _ \<Rightarrow> s\<lparr>ra_frames := frames\<rparr>))"

text \<open>A partial frame with one more fragment.\<close>

definition add_shard :: "media_header \<Rightarrow> byte list \<Rightarrow> instant \<Rightarrow> partial \<Rightarrow> partial" where
  "add_shard h payload now p =
    (let index = unat (mh_index h) in
     p\<lparr>pa_shards := (pa_shards p)[index := Some payload],
       pa_have_total := sat_add 64 (pa_have_total p) 1,
       pa_have_data := (if index < pa_data_count p then sat_add 64 (pa_have_data p) 1
                        else pa_have_data p),
       pa_last_seen := now,
       pa_retransmitted := (has_flag (mh_flags h) RETRANSMIT \<or> pa_retransmitted p)\<rparr>)"

definition store_fragment ::
  "rs_decoder \<Rightarrow> media_header \<Rightarrow> byte list \<Rightarrow> nat \<Rightarrow> instant \<Rightarrow> reassembler
     \<Rightarrow> reassembler \<times> ingested" where
  "store_fragment rs_dec h payload frame now s =
    (case om_get (ra_frames s) frame of
       Some (Partial p) \<Rightarrow>
         let data_count = unat (mh_data_count h);
             total = sat_add 64 data_count (unat (mh_parity_count h));
             index = unat (mh_index h)
         in if pa_data_count p \<noteq> data_count \<or> length (pa_shards p) \<noteq> total
               \<or> pa_shard_bytes p \<noteq> length payload
            then (s, IIgnored Malformed)
            else if index \<ge> length (pa_shards p) then (s, IIgnored Malformed)
            else if pa_shards p ! index \<noteq> None then (s, IIgnored Duplicate)
            else
              let p' = add_shard h payload now p;
                  s = s\<lparr>ra_frames := om_insert frame (Partial p') (ra_frames s)\<rparr>;
                  s = (if partial_complete p' then finish rs_dec frame now s else s)
              in (evict now (drain now s), IVideo)
     | _ \<Rightarrow> (s, IIgnored Duplicate))"

definition ingest_video ::
  "rs_decoder \<Rightarrow> media_header \<Rightarrow> byte list \<Rightarrow> instant \<Rightarrow> reassembler \<Rightarrow> reassembler \<times> ingested" where
  "ingest_video rs_dec h payload now s =
    (let s = s\<lparr>ra_any_arrived := True\<rparr>; frame = unat (mh_frame h) in
     if \<not> video_valid h payload then (s, IIgnored Malformed)
     else if frame \<in> set (ra_given_up s)
             \<or> (case ra_last_good s of None \<Rightarrow> False | Some good \<Rightarrow> frame \<le> good)
     then (s, IIgnored Stale)
     else (case note_gap frame now s of
             None \<Rightarrow> (s, IIgnored Stale)
           | Some s \<Rightarrow>
               store_fragment rs_dec h payload frame now
                 (open_slot h payload frame now (mark_previous h frame s))))"

end
