(* ===== verification/Reassemble.thy ===== *)
theory Reassemble
  imports Reassemble_Stalls Reassemble_Video
begin

text \<open>
  The reassembler's entry points (\<open>reassemble.rs\<close>): \<open>ingest\<close> for one datagram, \<open>tick\<close> for the
  time-driven policy (NACKs, loss deadlines, refresh repeats) and \<open>take_report\<close> for the periodic
  receiver report.
\<close>

section \<open>One datagram\<close>

text \<open>The stall accounting at the arrival of a datagram of the stream.\<close>

definition settle_silence :: "media_header \<Rightarrow> instant \<Rightarrow> reassembler \<Rightarrow> reassembler" where
  "settle_silence h now s =
    (let gap = since now (ra_arrived_at s);
         stamp = read_stamp h gap s;
         worker_gap = worker_share stamp gap;
         dozed_for = doze_beyond_worker now worker_gap s;
         unexplained = gap - worker_gap;
         link_gap = unexplained - dozed_for;
         s = (if ra_any_arrived s \<and> gap \<ge> stall_threshold s
              then attribute gap stamp dozed_for (header_kind h) s else s);
         s = (if ra_any_arrived s \<and> unexplained \<ge> stall_threshold s then resume now s else s);
         s = (if ra_any_arrived s \<and> link_gap \<ge> stall_threshold s then
                let s = charge_stall now worker_gap s; w = ra_window s; st = ra_stats s in
                s\<lparr>ra_window := w\<lparr>wi_stalls := sat_add 16 (wi_stalls w) 1\<rparr>,
                  ra_stats := st\<lparr>rt_stalls := sat_add 64 (rt_stalls st) 1\<rparr>\<rparr>
              else s)
     in s\<lparr>ra_last_send_ms_lo := (if has_flag (mh_flags h) RETRANSMIT then None
                                else Some (mh_send_ms_lo h)),
          ra_arrived_at := now,
          ra_dozed_since_arrival := 0, ra_dozed_from := None, ra_dozed_spent := 0,
          ra_last_tick_at := max (ra_last_tick_at s) now,
          ra_refresh_repeats := 0\<rparr>)"

definition ingest ::
  "rs_decoder \<Rightarrow> byte list \<Rightarrow> instant \<Rightarrow> reassembler \<Rightarrow> reassembler \<times> ingested" where
  "ingest rs_dec datagram now s =
    (case header_parse datagram of
       None \<Rightarrow> (s, IIgnored Malformed)
     | Some (h, payload) \<Rightarrow>
       if mh_stream h \<noteq> ra_stream s then (s, IIgnored Foreign)
       else
         let s = settle_silence h now s in
         (case header_kind h of
            None \<Rightarrow> (s, IIgnored Malformed)
          | Some Audio \<Rightarrow>
              (case parse_audio (unat (mh_data_count h)) payload of
                 Some (packet, earlier) \<Rightarrow> (s, IAudio (unat (mh_frame h)) packet earlier)
               | None \<Rightarrow> (s, IIgnored Malformed))
          | Some Heartbeat \<Rightarrow>
              (if \<not> ra_any_arrived s \<and> \<not> ra_first_lost s \<and> mh_frame h \<noteq> 0
               then s\<lparr>ra_first_lost := True, ra_refresh_requested_at := None\<rparr> else s, IHeartbeat)
          | Some Clock \<Rightarrow> (s, IHeartbeat)
          | Some Cursor \<Rightarrow>
              (case parse_cursor payload of
                 None \<Rightarrow> (s, IIgnored Malformed)
               | Some update \<Rightarrow> (s, ICursor (unat (mh_frame h)) update))
          | Some VideoData \<Rightarrow> ingest_video rs_dec h payload now s
          | Some VideoParity \<Rightarrow> ingest_video rs_dec h payload now s))"

section \<open>The time-driven policy\<close>

text \<open>What one pass over the pending frames reads.\<close>

record tick_env =
  te_now :: instant
  te_nack_delay :: duration
  te_retry_gap :: duration
  te_deadline :: duration
  te_in_order :: bool
  te_accept_refresh :: bool
  te_retries :: nat
  te_max_hold :: duration
  te_arrived_at :: instant
  te_flowing :: bool
  te_newest_complete :: "nat option"

definition retry_due :: "tick_env \<Rightarrow> instant option \<Rightarrow> bool" where
  "retry_due e nacked_at = (case nacked_at of None \<Rightarrow> True
     | Some t \<Rightarrow> since (te_now e) t \<ge> te_retry_gap e \<and> te_arrived_at e > t)"

definition worth_asking :: "tick_env \<Rightarrow> nat \<Rightarrow> bool \<Rightarrow> nat \<Rightarrow> bool" where
  "worth_asking e frame discardable tries \<longleftrightarrow> \<not> discardable \<or>
     (tries = 0 \<and> (case te_newest_complete e of None \<Rightarrow> True | Some newest \<Rightarrow> newest < frame))"

definition past_deadline :: "tick_env \<Rightarrow> instant \<Rightarrow> bool" where
  "past_deadline e from \<longleftrightarrow> since (te_now e) from \<ge> te_max_hold e
     \<or> (since (te_now e) from \<ge> te_deadline e \<and> te_flowing e)"

text \<open>One pending frame: its slot after the pass, the NACK sent, and the loss declared.\<close>

fun tick_slot :: "tick_env \<Rightarrow> nat \<Rightarrow> slot \<Rightarrow> slot \<times> action list \<times> (nat \<times> nat) list" where
  "tick_slot e frame (Unknown first_seen tries nacked_at discardable) =
    (if past_deadline e first_seen
     then (Unknown first_seen tries nacked_at discardable, [], [(frame, 1)])
     else if te_in_order e \<and> tries < te_retries e \<and> worth_asking e frame discardable tries
             \<and> since (te_now e) first_seen \<ge> te_nack_delay e \<and> retry_due e nacked_at
     then (Unknown first_seen (sat_add 8 tries 1) (Some (te_now e)) discardable, [Nack frame []], [])
     else (Unknown first_seen tries nacked_at discardable, [], []))"
| "tick_slot e frame (Partial p) =
    (if past_deadline e (pa_last_seen p)
     then (Partial p, [], [(frame, missing_data_count p)])
     else if (te_in_order e \<or> restartable p (te_accept_refresh e)) \<and> pa_nacks p < te_retries e
             \<and> worth_asking e frame (pa_discardable p) (pa_nacks p)
             \<and> since (te_now e) (pa_last_seen p) \<ge> te_nack_delay e \<and> retry_due e (pa_nacked_at p)
     then (Partial (p\<lparr>pa_nacks := sat_add 8 (pa_nacks p) 1, pa_nacked_at := Some (te_now e)\<rparr>),
           [Nack frame (missing_data p)], [])
     else (Partial p, [], []))"
| "tick_slot e frame slot = (slot, [], [])"

text \<open>The start of a tick: the sleep banked and the round trip taken in.\<close>

definition tick_clock :: "instant \<Rightarrow> duration \<Rightarrow> reassembler \<Rightarrow> reassembler" where
  "tick_clock now rtt s =
    (let slept = dozed_since_tick now s;
         s = (if slept \<noteq> 0 then
                s\<lparr>ra_dozed_from := Some (opt_or (ra_dozed_from s) (doze_tail_from s)),
                  ra_dozed_since_arrival := dur_add (ra_dozed_since_arrival s) slept\<rparr>
              else s)
     in s\<lparr>ra_last_tick_at := max (ra_last_tick_at s) now, ra_last_rtt := rtt,
          ra_nack_delay := for_rtt (cf_nack_delay (ra_cfg s)) rtt\<rparr>)"

definition tick_env_of :: "instant \<Rightarrow> duration \<Rightarrow> reassembler \<Rightarrow> tick_env" where
  "tick_env_of now rtt s =
    (let nack_delay = ra_nack_delay s;
         retry_gap = dur_add rtt nack_delay;
         deadline = dur_add (dur_add nack_delay (dur_mul retry_gap (cf_nack_retries (ra_cfg s))))
                      (cf_grace (ra_cfg s))
     in \<lparr>te_now = now, te_nack_delay = nack_delay, te_retry_gap = retry_gap,
         te_deadline = deadline,
         te_in_order = (case ra_need s of NeedFrame _ \<Rightarrow> True | _ \<Rightarrow> False),
         te_accept_refresh = (ra_need s = NeedRefresh),
         te_retries = cf_nack_retries (ra_cfg s), te_max_hold = cf_max_hold (ra_cfg s),
         te_arrived_at = ra_arrived_at s,
         te_flowing = (since now (ra_arrived_at s) < deadline),
         te_newest_complete = map_option fst (find (\<lambda>e. is_complete (snd e)) (rev (ra_frames s)))\<rparr>)"

text \<open>
  The refresh repeats: \<open>in_order\<close> and \<open>accept_refresh\<close> are what the tick read before it gave
  frames up.
\<close>

definition tick_refresh :: "instant \<Rightarrow> duration \<Rightarrow> tick_env \<Rightarrow> reassembler \<Rightarrow> reassembler" where
  "tick_refresh now rtt e s =
    (let answer_arriving = list_ex (\<lambda>(f, slot). case slot of
             Partial p \<Rightarrow> restartable p (te_accept_refresh e) | _ \<Rightarrow> False) (ra_frames s)
     in if \<not> te_in_order e \<and> \<not> answer_arriving \<and> (ra_any_arrived s \<or> ra_first_lost s)
           \<and> ra_source_live s \<and> ra_refresh_repeats s < cf_refresh_max_repeats (ra_cfg s)
        then
          let backoff = min (dur_mul (cf_refresh_repeat (ra_cfg s)) (2 ^ min (ra_refresh_backoff s) 16))
                          (cf_refresh_repeat_max (ra_cfg s));
              repeat = dur_add backoff (dur_mul rtt 2);
              again = (case ra_refresh_requested_at s of
                         None \<Rightarrow> Some False
                       | Some asked \<Rightarrow> if since now asked \<ge> repeat then Some True else None)
          in (case again of
                None \<Rightarrow> s
              | Some again \<Rightarrow> request_refresh now again
                  (s\<lparr>ra_refresh_repeats := sat_add 32 (ra_refresh_repeats s) 1,
                     ra_refresh_backoff := sat_add 32 (ra_refresh_backoff s) 1\<rparr>))
        else s)"

definition tick :: "instant \<Rightarrow> duration \<Rightarrow> reassembler \<Rightarrow> reassembler \<times> action list" where
  "tick now rtt s =
    (let s = tick_clock now rtt s;
         e = tick_env_of now rtt s;
         pass = map (\<lambda>(frame, slot). (frame, tick_slot e frame slot)) (ra_frames s);
         nacks = concat (map (\<lambda>(frame, slot, ns, ls). ns) pass);
         lost = concat (map (\<lambda>(frame, slot, ns, ls). ls) pass);
         st = ra_stats s;
         s = s\<lparr>ra_frames := map (\<lambda>(frame, slot, ns, ls). (frame, slot)) pass,
               ra_stats := st\<lparr>rt_nacks := sat_add 64 (rt_nacks st) (length nacks)\<rparr>,
               ra_actions := ra_actions s @ nacks\<rparr>;
         s = fold (\<lambda>(frame, missing) s. lose frame missing now s) lost s;
         s = drain now (tick_refresh now rtt e s)
     in (s\<lparr>ra_actions := []\<rparr>, ra_actions s))"

section \<open>The receiver report\<close>

definition percentile :: "nat list \<Rightarrow> nat \<Rightarrow> nat" where
  "percentile holds p =
    (let index = min (sat_mul 64 (length holds) p div 100) (length holds - 1)
     in if index < length holds then holds ! index else 0)"

definition take_report :: "instant \<Rightarrow> nat \<Rightarrow> reassembler \<Rightarrow> reassembler \<times> receiver_report" where
  "take_report now late_frames s =
    (let s = (if stalled now s then charge_stall now 0 s else s);
         w = ra_window s;
         holds = sort (wi_holds_ns w);
         taken = take 4 (ra_ltr_acks s);
         acked = (if taken = [] \<and> wi_frames_ok w > 0
                  then (case ra_newest_ack s of Some token \<Rightarrow> [token] | None \<Rightarrow> []) else taken);
         s = s\<lparr>ra_window := window_default, ra_ltr_acks := drop 4 (ra_ltr_acks s)\<rparr>
     in (s, \<lparr>rr_frames_ok = wi_frames_ok w, rr_frames_fec = wi_frames_fec w,
             rr_frames_lost = wi_frames_lost w, rr_datagrams_lost = wi_datagrams_lost w,
             rr_last_worker_send_ts_us = ra_last_worker_ts_us s,
             rr_hold_p50 = percentile holds 50, rr_hold_p95 = percentile holds 95,
             rr_owd_jitter = sat_mul 64 (nat (ra_jitter_us s)) 1000,
             rr_queue_depth = to_width 8 (queue_depth s), rr_late_frames = late_frames,
             rr_acked_ltr = acked @ replicate (4 - length acked) 0,
             rr_acked_ltr_len = length acked,
             rr_stalled_ms = to_width 16 (as_millis (wi_stalled w)), rr_stalls = wi_stalls w\<rparr>))"

end
