(* ===== verification/Reassemble_Order.thy ===== *)
theory Reassemble_Order
  imports Reassemble
begin

text \<open>
  The reassembler's central promise: frames reach the decoder strictly in decode order, and no
  frame reaches it whose reference is missing. The invariant relates the pending frames, the
  frame waited for and the frames handed out so far; every operation keeps it, so every run of
  operations does.

  \<open>D\<close> is the set of frames that some datagram of the run called discardable (by its own flag, or
  by the next frame's); \<open>H\<close> is the list of frames already handed to the decoder.
\<close>

section \<open>The invariant\<close>

definition out_no :: "frame_out \<Rightarrow> nat" where
  "out_no out = fi_frame (fo_info out)"

definition out_restarts :: "frame_out \<Rightarrow> bool" where
  "out_restarts out \<longleftrightarrow> fi_keyframe (fo_info out) \<or> fi_ltr_refresh (fo_info out)"

definition have_shards :: "byte list option list \<Rightarrow> nat" where
  "have_shards shards = length (filter (\<lambda>x. x \<noteq> None) shards)"

definition partial_ok :: "partial \<Rightarrow> bool" where
  "partial_ok p \<longleftrightarrow> 0 < pa_data_count p \<and> pa_data_count p < 2 ^ 16 \<and> pa_parity_count p < 2 ^ 8 \<and>
     length (pa_shards p) = pa_data_count p + pa_parity_count p \<and>
     pa_have_data p = have_shards (take (pa_data_count p) (pa_shards p)) \<and>
     pa_have_total p = have_shards (pa_shards p) \<and>
     (\<forall>b. Some b \<in> set (pa_shards p) \<longrightarrow> length b = pa_shard_bytes p)"

fun slot_ok :: "nat set \<Rightarrow> nat \<Rightarrow> slot \<Rightarrow> bool" where
  "slot_ok D k (Unknown _ _ _ d) = (d \<longrightarrow> k \<in> D)"
| "slot_ok D k (Partial p) = ((pa_discardable p \<longrightarrow> k \<in> D) \<and> partial_ok p)"
| "slot_ok D k (Complete out _) = (out_no out = k)"
| "slot_ok D k Skipped = (k \<in> D)"

definition frames_ok :: "nat set \<Rightarrow> slot omap \<Rightarrow> bool" where
  "frames_ok D m \<longleftrightarrow> om_ok m \<and> (\<forall>k u. om_get m k = Some u \<longrightarrow> slot_ok D k u)"

text \<open>A frame follows another: it restarts the picture, or nothing between them is referred to.\<close>

definition follows :: "nat set \<Rightarrow> frame_out \<Rightarrow> frame_out \<Rightarrow> bool" where
  "follows D a b \<longleftrightarrow> out_no a < out_no b \<and>
     (out_restarts b \<or> (\<forall>m. out_no a < m \<and> m < out_no b \<longrightarrow> m \<in> D))"

definition handed_ok :: "nat set \<Rightarrow> frame_out list \<Rightarrow> bool" where
  "handed_ok D L \<longleftrightarrow> successively (follows D) L \<and> (L \<noteq> [] \<longrightarrow> out_restarts (hd L))"

definition order_ok :: "nat set \<Rightarrow> frame_out list \<Rightarrow> slot omap \<Rightarrow> need \<Rightarrow> nat option \<Rightarrow> bool" where
  "order_ok D L m nd lg \<longleftrightarrow>
     (\<forall>k \<in> om_keys m. k < umax 32) \<and>
     (\<forall>g. lg = Some g \<longrightarrow> (\<forall>k \<in> om_keys m. g < k)) \<and>
     (L \<noteq> [] \<longrightarrow> (\<exists>g. lg = Some g \<and> out_no (last L) \<le> g)) \<and>
     (\<forall>n. nd = NeedFrame n \<longrightarrow> L \<noteq> [] \<and> (\<forall>k \<in> om_keys m. n \<le> k) \<and>
        (\<forall>g. lg = Some g \<longrightarrow> g < n) \<and>
        (\<forall>k. out_no (last L) < k \<and> k < n \<longrightarrow> k \<in> D))"

definition ra_inv :: "nat set \<Rightarrow> frame_out list \<Rightarrow> reassembler \<Rightarrow> bool" where
  "ra_inv D H s \<longleftrightarrow> frames_ok D (ra_frames s) \<and> handed_ok D (H @ ra_ready s) \<and>
     order_ok D (H @ ra_ready s) (ra_frames s) (ra_need s) (ra_last_good s)"

lemma ra_inv_new: "ra_inv D [] (reassembler_new stream cfg now)"
  by (simp add: ra_inv_def reassembler_new_def Let_def frames_ok_def handed_ok_def order_ok_def)

text \<open>The invariant reads four fields; an operation that leaves them alone keeps it.\<close>

lemma ra_inv_cong:
  assumes "ra_frames s' = ra_frames s" "ra_ready s' = ra_ready s" "ra_need s' = ra_need s"
    "ra_last_good s' = ra_last_good s"
  shows "ra_inv D H s' = ra_inv D H s"
  by (simp add: ra_inv_def assms)

lemma core_simps [simp]:
  "ra_ready (count_lost_datagrams k s) = ra_ready s"
  "ra_need (count_lost_datagrams k s) = ra_need s"
  "ra_last_good (count_lost_datagrams k s) = ra_last_good s"
  "ra_ready (give_up f s) = ra_ready s" "ra_need (give_up f s) = ra_need s"
  "ra_last_good (give_up f s) = ra_last_good s"
  "ra_ready (skip f k s) = ra_ready s" "ra_need (skip f k s) = ra_need s"
  "ra_last_good (skip f k s) = ra_last_good s"
  "ra_ready (request_refresh now again s) = ra_ready s"
  "ra_need (request_refresh now again s) = ra_need s"
  "ra_last_good (request_refresh now again s) = ra_last_good s"
  "ra_ready (enter_refresh now s) = ra_ready s" "ra_need (enter_refresh now s) = NeedRefresh"
  "ra_last_good (enter_refresh now s) = ra_last_good s"
  "ra_ready (record_delivery out now s) = ra_ready s"
  "ra_need (record_delivery out now s) = ra_need s"
  "ra_last_good (record_delivery out now s) = ra_last_good s"
  "ra_ready (count_finished out p s) = ra_ready s" "ra_need (count_finished out p s) = ra_need s"
  "ra_last_good (count_finished out p s) = ra_last_good s"
  "ra_frames (count_finished out p s) = ra_frames s"
  "ra_cfg (count_lost_datagrams k s) = ra_cfg s" "ra_cfg (give_up f s) = ra_cfg s"
  "ra_cfg (skip f k s) = ra_cfg s" "ra_cfg (request_refresh now again s) = ra_cfg s"
  "ra_cfg (enter_refresh now s) = ra_cfg s" "ra_cfg (record_delivery out now s) = ra_cfg s"
  "ra_cfg (deliver f out fs now s) = ra_cfg s" "ra_cfg (count_finished out p s) = ra_cfg s"
  by (simp_all add: count_lost_datagrams_def give_up_def skip_def request_refresh_def
      enter_refresh_def record_delivery_def count_finished_def deliver_def Let_def)

lemma core_lose:
  "ra_ready (lose f k now s) = ra_ready s"
  "ra_last_good (lose f k now s) = ra_last_good s"
  "ra_cfg (lose f k now s) = ra_cfg s"
  "ra_need (lose f k now s) =
    (if (case om_get (ra_frames s) f of None \<Rightarrow> False | Some u \<Rightarrow> slot_discardable u) then ra_need s
     else (case ra_need s of NeedFrame _ \<Rightarrow> NeedRefresh | nd \<Rightarrow> nd))"
  by (auto simp: lose_def Let_def split: need.splits)

section \<open>Frames\<close>

lemma frames_ok_get: "frames_ok D m \<Longrightarrow> om_get m k = Some u \<Longrightarrow> slot_ok D k u"
  by (simp add: frames_ok_def)

lemma frames_ok_insert: "frames_ok D m \<Longrightarrow> slot_ok D k u \<Longrightarrow> frames_ok D (om_insert k u m)"
  by (auto simp: frames_ok_def om_simps om_oks split: if_splits)

lemma frames_ok_entry: "frames_ok D m \<Longrightarrow> slot_ok D k u \<Longrightarrow> frames_ok D (om_entry k u m)"
  by (auto simp: frames_ok_def om_simps om_oks split: if_splits)

lemma frames_ok_remove: "frames_ok D m \<Longrightarrow> frames_ok D (om_remove k m)"
  by (auto simp: frames_ok_def om_simps om_oks split: if_splits)

lemma frames_ok_retain: "frames_ok D m \<Longrightarrow> frames_ok D (om_retain P m)"
  by (auto simp: frames_ok_def om_simps om_oks split: if_splits)

lemma frames_ok_map:
  assumes "frames_ok D m" and "\<And>k u. slot_ok D k u \<Longrightarrow> slot_ok D k (f u)"
  shows "frames_ok D (om_map f m)"
  using assms by (auto simp: frames_ok_def om_get_map)

lemmas frames_oks = frames_ok_insert frames_ok_entry frames_ok_remove frames_ok_retain

lemma discardable_in: "slot_ok D k u \<Longrightarrow> slot_discardable u \<Longrightarrow> k \<in> D"
  by (cases u) auto

text \<open>Fewer keys and a need that is no longer a frame keep the order.\<close>

lemma order_ok_sub:
  assumes "order_ok D L m nd lg" and "om_keys m' \<subseteq> om_keys m"
    and "nd' = nd \<or> (\<forall>n. nd' \<noteq> NeedFrame n)"
  shows "order_ok D L m' nd' lg"
  using assms unfolding order_ok_def by blast

section \<open>Giving up, skipping and losing\<close>

lemma om_keys_insert_old: "om_get m k \<noteq> None \<Longrightarrow> om_keys (om_insert k u m) = om_keys m"
  using om.keys_get [of k m] by (auto simp: om_simps)

lemma ra_inv_skip:
  assumes inv: "ra_inv D H s" and get: "om_get (ra_frames s) f = Some u" and d: "slot_discardable u"
  shows "ra_inv D H (skip f k s)"
proof -
  have "f \<in> D" using inv get d discardable_in frames_ok_get by (metis ra_inv_def)
  then show ?thesis using inv get
    by (auto simp: ra_inv_def om_keys_insert_old intro!: frames_ok_insert elim!: order_ok_sub)
qed

lemma ra_inv_lose:
  assumes inv: "ra_inv D H s"
  shows "ra_inv D H (lose f k now s)"
proof (cases "case om_get (ra_frames s) f of None \<Rightarrow> False | Some u \<Rightarrow> slot_discardable u")
  case True
  then obtain u where "om_get (ra_frames s) f = Some u" "slot_discardable u"
    by (auto split: option.splits)
  then show ?thesis using ra_inv_skip [OF inv] True by (simp add: lose_def)
next
  case False
  have sub: "om_keys (om_remove f (ra_frames s)) \<subseteq> om_keys (ra_frames s)" by (auto simp: om_simps)
  have need: "ra_need (lose f k now s) = ra_need s \<or> (\<forall>n. ra_need (lose f k now s) \<noteq> NeedFrame n)"
    by (auto simp: core_lose split: need.splits)
  show ?thesis using inv order_ok_sub [OF _ sub need] False
    by (auto simp: ra_inv_def core_lose(1,2) ra_frames_lose frames_ok_remove)
qed

lemma ra_inv_fold_lose: "ra_inv D H s \<Longrightarrow> ra_inv D H (fold (\<lambda>(f, k) s. lose f k now s) fs s)"
  by (induction fs arbitrary: s) (auto simp: ra_inv_lose)

section \<open>Delivering\<close>

lemma successively_snoc:
  "successively P (xs @ [y]) \<longleftrightarrow> successively P xs \<and> (xs \<noteq> [] \<longrightarrow> P (last xs) y)"
  by (auto simp: successively_append_iff)

lemma handed_ok_snoc:
  assumes "handed_ok D L" and "L \<noteq> [] \<Longrightarrow> follows D (last L) y" and "L = [] \<Longrightarrow> out_restarts y"
  shows "handed_ok D (L @ [y])"
  using assms by (cases "L = []") (auto simp: handed_ok_def successively_snoc)

lemma wrap_add_one: "f < umax 32 \<Longrightarrow> wrap_add 32 f 1 = Suc f"
  by (simp add: wrap_add_def umax_def)

lemma ra_inv_deliver:
  assumes inv: "ra_inv D H s" and get: "om_get (ra_frames s) f = Some (Complete out fs)"
    and least: "\<forall>k \<in> om_keys (ra_frames s). f \<le> k"
    and how: "ra_need s = NeedFrame f \<or> out_restarts out"
  shows "ra_inv D H (deliver f out fs now s)"
proof -
  let ?L = "H @ ra_ready s"
  let ?out = "out\<lparr>fo_hold := since now fs\<rparr>"
  have no: "out_no ?out = f" "out_restarts ?out = out_restarts out"
    using inv get frames_ok_get by (force simp: ra_inv_def out_no_def out_restarts_def)+
  have key: "f \<in> om_keys (ra_frames s)" using get by (simp add: om.keys_get)
  have frames: "frames_ok D (om_remove f (ra_frames s))"
    using inv by (simp add: ra_inv_def frames_ok_remove)
  have after: "\<forall>k \<in> om_keys (om_remove f (ra_frames s)). f < k"
    using least by (force simp: om_simps)
  have follow: "?L \<noteq> [] \<longrightarrow> follows D (last ?L) ?out"
    using inv key how no unfolding ra_inv_def order_ok_def follows_def by fastforce
  have first: "?L = [] \<longrightarrow> out_restarts ?out"
    using inv how no by (auto simp: ra_inv_def order_ok_def)
  have "handed_ok D (?L @ [?out])"
    using inv follow first by (intro handed_ok_snoc) (auto simp: ra_inv_def)
  moreover have "order_ok D (?L @ [?out]) (om_remove f (ra_frames s))
      (NeedFrame (wrap_add 32 f 1)) (Some f)"
    using after no(1) wrap_add_one [of f] inv key
    by (auto simp: order_ok_def ra_inv_def om_simps Suc_le_eq)
  ultimately show ?thesis using frames
    by (simp add: ra_inv_def deliver_def Let_def)
qed

text \<open>A skipped frame is passed over.\<close>

lemma ra_inv_pass:
  assumes inv: "ra_inv D H s" and get: "om_get (ra_frames s) n = Some Skipped"
    and need: "ra_need s = NeedFrame n"
  shows "ra_inv D H (s\<lparr>ra_frames := om_remove n (ra_frames s), ra_need := NeedFrame (wrap_add 32 n 1)\<rparr>)"
proof -
  have "n \<in> D" using inv get frames_ok_get by (force simp: ra_inv_def)
  moreover have "n \<in> om_keys (ra_frames s)" using get by (simp add: om.keys_get)
  then have "wrap_add 32 n 1 = Suc n" using inv wrap_add_one by (simp add: ra_inv_def order_ok_def)
  ultimately show ?thesis using inv need
    by (auto simp: ra_inv_def order_ok_def om_simps frames_ok_remove less_Suc_eq Suc_le_eq le_neq_implies_less)
qed

lemma ra_inv_remove: "ra_inv D H s \<Longrightarrow> ra_inv D H (s\<lparr>ra_frames := om_remove n (ra_frames s)\<rparr>)"
  by (auto simp: ra_inv_def frames_ok_remove om_simps elim!: order_ok_sub)

lemma ra_inv_retain:
  "ra_inv D H s \<Longrightarrow> ra_inv D H (s\<lparr>ra_frames := om_retain P (ra_frames s),
     ra_refresh_requested_at := t, ra_refresh_backoff := b\<rparr>)"
  by (auto simp: ra_inv_def frames_ok_retain om_simps elim!: order_ok_sub)

lemma restarts_out: "restarts a u \<Longrightarrow> \<exists>out fs. u = Complete out fs \<and> out_restarts out"
  by (cases u) (auto simp: out_restarts_def)

lemma find_entry:
  assumes "om_ok m" and "find (\<lambda>e. P (snd e)) m = Some (f, u)"
  shows "om_get m f = Some u \<and> P u"
  using assms om.entries_get by (metis find_Some_iff nth_mem snd_conv)

text \<open>The restart: delivery resumes at the first frame that restarts the picture.\<close>

lemma drain_restart:
  assumes inv: "ra_inv D H s" and found: "find (\<lambda>e. restarts a (snd e)) (ra_frames s) = Some (f, u)"
    and s': "s' = s\<lparr>ra_frames := om_retain (\<lambda>k. k \<ge> f) (ra_frames s),
                     ra_refresh_requested_at := None, ra_refresh_backoff := 0\<rparr>"
  obtains out fs where "om_get (ra_frames s') f = Some (Complete out fs)"
    and "ra_inv D H (deliver f out fs now s')"
proof -
  have ok: "om_ok (ra_frames s)" using inv by (simp add: ra_inv_def frames_ok_def)
  obtain out fs where get: "om_get (ra_frames s) f = Some (Complete out fs)" and out: "out_restarts out"
    using find_entry [OF ok found] restarts_out by blast
  have get': "om_get (ra_frames s') f = Some (Complete out fs)" using get by (simp add: s' om_simps)
  have "ra_inv D H s'" using ra_inv_retain [OF inv] by (simp add: s')
  moreover have "\<forall>k \<in> om_keys (ra_frames s'). f \<le> k" by (simp add: s' om_simps)
  ultimately show thesis using that get' ra_inv_deliver out by blast
qed

text \<open>The loop's induction rule: what relates a state to the state the loop ends in.\<close>

lemma drain_induct:
  assumes base: "\<And>s. Q s s"
    and deliver: "\<And>s f out fs t. om_get (ra_frames s) f = Some (Complete out fs) \<Longrightarrow>
      Q (deliver f out fs now s) t \<Longrightarrow> Q s t"
    and pass: "\<And>s n t. ra_need s = NeedFrame n \<Longrightarrow> om_get (ra_frames s) n = Some Skipped \<Longrightarrow>
      Q (s\<lparr>ra_frames := om_remove n (ra_frames s), ra_need := NeedFrame (wrap_add 32 n 1)\<rparr>) t \<Longrightarrow> Q s t"
    and skip: "\<And>s n u t. ra_need s = NeedFrame n \<Longrightarrow> om_get (ra_frames s) n = Some u \<Longrightarrow>
      slot_discardable u \<Longrightarrow> Q (skip n (slot_missing u) s) t \<Longrightarrow> Q s t"
    and restart: "\<And>s f t. Q (s\<lparr>ra_frames := om_retain (\<lambda>k. k \<ge> f) (ra_frames s),
      ra_refresh_requested_at := None, ra_refresh_backoff := 0\<rparr>) t \<Longrightarrow> Q s t"
    and drop: "\<And>s f t. Q (s\<lparr>ra_frames := om_remove f (ra_frames s)\<rparr>) t \<Longrightarrow> Q s t"
  shows "Q s (drain now s)"
proof -
  have "n = now \<Longrightarrow> Q s (drain n s)" for n
  proof (induction n s rule: drain.induct)
    case (1 n s)
    note IH = "1.IH" and now = "1.prems"
    have found: "Q s (drain n s)" if need: "ra_need s = NeedKeyframe \<or> ra_need s = NeedRefresh"
      and IH: "\<And>f u out fs t. find (\<lambda>e. restarts (ra_need s = NeedRefresh) (snd e)) (ra_frames s) = Some (f, u) \<Longrightarrow>
        t = s\<lparr>ra_frames := om_retain (\<lambda>k. k \<ge> f) (ra_frames s),
          ra_refresh_requested_at := None, ra_refresh_backoff := 0\<rparr> \<Longrightarrow>
        om_get (ra_frames t) f = Some (Complete out fs) \<Longrightarrow>
        Q (deliver f out fs n t) (drain n (deliver f out fs n t))"
    proof (cases "find (\<lambda>e. restarts (ra_need s = NeedRefresh) (snd e)) (ra_frames s)")
      case None
      then show ?thesis using need base by (elim disjE) (simp_all add: drain.simps [of n s])
    next
      case (Some e)
      obtain f u where e: "e = (f, u)" by (cases e)
      let ?t = "s\<lparr>ra_frames := om_retain (\<lambda>k. k \<ge> f) (ra_frames s),
        ra_refresh_requested_at := None, ra_refresh_backoff := 0\<rparr>"
      have eq: "drain n s = (case om_get (ra_frames ?t) f of
          Some (Complete out fs) \<Rightarrow> drain n (deliver f out fs n ?t)
        | _ \<Rightarrow> ?t\<lparr>ra_frames := om_remove f (ra_frames ?t)\<rparr>)"
        using Some need by (elim disjE) (simp_all add: drain.simps [of n s] e Let_def)
      show ?thesis
      proof (cases "\<exists>out fs. om_get (ra_frames ?t) f = Some (Complete out fs)")
        case True
        then obtain out fs where get: "om_get (ra_frames ?t) f = Some (Complete out fs)" by blast
        have "Q ?t (drain n (deliver f out fs n ?t))"
          using deliver [OF get] IH [OF Some [unfolded e] refl get] now by simp
        then have "Q s (drain n (deliver f out fs n ?t))" by (rule restart)
        then show ?thesis using eq get by simp
      next
        case False
        then have "drain n s = ?t\<lparr>ra_frames := om_remove f (ra_frames ?t)\<rparr>"
          unfolding eq by (auto split: option.splits slot.splits)
        then show ?thesis using restart drop base by metis
      qed
    qed
    show ?case
    proof (cases "ra_need s")
      case (NeedFrame k)
      show ?thesis
      proof (cases "om_get (ra_frames s) k")
        case None
        then show ?thesis using NeedFrame base by (simp add: drain.simps [of n s])
      next
        case (Some u)
        show ?thesis
          using IH NeedFrame Some now base deliver [of s k] pass [OF NeedFrame] skip [OF NeedFrame Some]
          by (cases u) (simp_all add: drain.simps [of now s])
      qed
    next
      case NeedKeyframe
      then show ?thesis using IH(1) [OF NeedKeyframe _ refl _ _ refl now] by (intro found) auto
    next
      case NeedRefresh
      then show ?thesis using IH(2) [OF NeedRefresh _ refl _ _ refl now] by (intro found) auto
    qed
  qed
  then show ?thesis by blast
qed

lemma ra_inv_drain: "ra_inv D H s \<Longrightarrow> ra_inv D H (drain now s)"
proof (induction now s rule: drain.induct)
  case (1 now s)
  note inv = "1.prems" and IH = "1.IH"
  show ?case
  proof (cases "\<exists>n. ra_need s = NeedFrame n")
    case True
    then obtain n where need: "ra_need s = NeedFrame n" by blast
    have least: "\<forall>k \<in> om_keys (ra_frames s). n \<le> k"
      using inv need by (simp add: ra_inv_def order_ok_def)
    show ?thesis
      using inv IH need ra_inv_deliver [OF inv _ least] ra_inv_pass [OF inv _ need] ra_inv_skip [OF inv]
      by (auto simp: drain.simps [of now s] split: option.splits slot.splits)
  next
    case False
    then consider "ra_need s = NeedKeyframe" | "ra_need s = NeedRefresh" by (cases "ra_need s") auto
    then show ?thesis
    proof cases
      case 1
      show ?thesis
      proof (cases "find (\<lambda>e. restarts False (snd e)) (ra_frames s)")
        case None
        then show ?thesis using inv 1 by (simp add: drain.simps [of now s])
      next
        case (Some e)
        then obtain f u where found: "find (\<lambda>e. restarts False (snd e)) (ra_frames s) = Some (f, u)"
          by (cases e) auto
        show ?thesis using IH 1 found
          by (rule_tac drain_restart [OF inv found refl, of now]) (simp add: drain.simps [of now s])
      qed
    next
      case 2
      show ?thesis
      proof (cases "find (\<lambda>e. restarts True (snd e)) (ra_frames s)")
        case None
        then show ?thesis using inv 2 by (simp add: drain.simps [of now s])
      next
        case (Some e)
        then obtain f u where found: "find (\<lambda>e. restarts True (snd e)) (ra_frames s) = Some (f, u)"
          by (cases e) auto
        show ?thesis using IH 2 found
          by (rule_tac drain_restart [OF inv found refl, of now]) (simp add: drain.simps [of now s])
      qed
    qed
  qed
qed

section \<open>Evicting\<close>

text \<open>The loop's induction rule: what relates a state to the state the loop ends in.\<close>

lemma evict_induct:
  assumes base: "\<And>s. length (ra_frames s) \<le> cf_max_pending (ra_cfg s) \<Longrightarrow> Q s s"
    and drop: "\<And>s f u m t. ra_frames s = (f, u) # m \<Longrightarrow> settled u \<Longrightarrow>
      Q (s\<lparr>ra_frames := om_remove f (ra_frames s)\<rparr>) t \<Longrightarrow> Q s t"
    and pass: "\<And>s f m t. ra_frames s = (f, Skipped) # m \<Longrightarrow> ra_need s = NeedFrame f \<Longrightarrow>
      Q (s\<lparr>ra_frames := om_remove f (ra_frames s), ra_need := NeedFrame (wrap_add 32 f 1)\<rparr>) t \<Longrightarrow> Q s t"
    and lose: "\<And>s f u m t. ra_frames s = (f, u) # m \<Longrightarrow> \<not> settled u \<Longrightarrow>
      Q (lose f (slot_missing u) now s) t \<Longrightarrow> Q s t"
  shows "Q s (evict now s)"
proof -
  have "n = now \<Longrightarrow> Q s (evict n s)" for n
  proof (induction n s rule: evict.induct)
    case (1 n s)
    show ?case
    proof (cases "length (ra_frames s) \<le> cf_max_pending (ra_cfg s)")
      case True
      then show ?thesis using base by (simp add: evict.simps [of n s])
    next
      case False
      then obtain f u m where frames: "ra_frames s = (f, u) # m" by (cases "ra_frames s") auto
      note IH = "1.IH"(1-3) [OF False frames refl _ "1.prems"] "1.IH"(4) [OF False frames refl _ refl "1.prems"]
      have ev: "evict now s = (case u of
            Complete _ _ \<Rightarrow> evict now (s\<lparr>ra_frames := om_remove f (ra_frames s)\<rparr>)
          | Skipped \<Rightarrow> if ra_need s = NeedFrame f
              then evict now (s\<lparr>ra_frames := om_remove f (ra_frames s), ra_need := NeedFrame (wrap_add 32 f 1)\<rparr>)
              else evict now (s\<lparr>ra_frames := om_remove f (ra_frames s)\<rparr>)
          | _ \<Rightarrow> evict now (lose f (slot_missing u) now s))"
        using False frames by (cases u) (simp_all add: evict.simps [of now s] Let_def)
      show ?thesis
      proof (cases u)
        case Skipped
        then show ?thesis
          using IH(4) [OF Skipped] drop [OF frames] pass [of s f m] frames "1.prems"
          by (cases "ra_need s = NeedFrame f") (simp_all add: ev)
      qed (use IH drop [OF frames] lose [OF frames] "1.prems" in \<open>simp_all add: ev\<close>)
    qed
  qed
  then show ?thesis by blast
qed

lemma ra_inv_evict:
  assumes "ra_inv D H s"
  shows "ra_inv D H (evict now s)"
proof -
  have first: "om_get (ra_frames s) f = Some u" if "ra_frames s = (f, u) # m" for s f u m
    using that by (simp add: om_get_def)
  have "ra_inv D H s \<longrightarrow> ra_inv D H (evict now s)"
    by (rule evict_induct) (blast intro: ra_inv_remove ra_inv_lose ra_inv_pass first)+
  then show ?thesis using assms by blast
qed

lemma evict_bound: "length (ra_frames (evict now s)) \<le> cf_max_pending (ra_cfg s)"
  by (rule evict_induct [where Q = "\<lambda>s t. length (ra_frames t) \<le> cf_max_pending (ra_cfg s)"])
     (simp_all add: core_lose)

section \<open>A fragment\<close>

lemma assemble_no: "assemble rs_dec f p now = Some out \<Longrightarrow> out_no out = f"
  by (auto simp: assemble_def out_no_def Let_def split: option.splits prod.splits if_splits)

lemma ra_inv_finish:
  assumes inv: "ra_inv D H s"
  shows "ra_inv D H (finish rs_dec f now s)"
proof (cases "om_get (ra_frames s) f")
  case None
  then show ?thesis using ra_inv_remove [OF inv] by (simp add: finish_def)
next
  case (Some u)
  show ?thesis
  proof (cases "\<exists>p out. u = Partial p \<and> assemble rs_dec f p now = Some out")
    case True
    then obtain p out where u: "u = Partial p" and out: "assemble rs_dec f p now = Some out" by blast
    have "f \<in> om_keys (ra_frames s)" using Some by (simp add: om.keys_get)
    then have "om_keys (om_insert f (Complete out (pa_first_seen p)) (om_remove f (ra_frames s)))
        = om_keys (ra_frames s)" by (auto simp: om_simps)
    then show ?thesis using inv assemble_no [OF out]
      by (auto simp: finish_def Some u out Let_def ra_inv_def frames_oks elim: order_ok_sub)
  next
    case False
    then show ?thesis using ra_inv_remove [OF inv, of f] Some
      by (auto simp: finish_def Let_def ra_inv_lose split: slot.splits option.splits)
  qed
qed

text \<open>Where a frame past the one waited for arrives: the frames between become pending.\<close>

lemma frames_ok_fold_entry:
  "frames_ok D m \<Longrightarrow> frames_ok D (fold (\<lambda>k m. om_entry k (slot_unknown now) m) ks m)"
  by (induction ks arbitrary: m) (simp_all add: frames_ok_entry slot_unknown_def)

lemma om_keys_fold_entry:
  "om_keys (fold (\<lambda>k m. om_entry k v m) ks m) = set ks \<union> om_keys m"
  by (induction ks arbitrary: m) (auto simp: om_simps)

text \<open>The frame of a datagram is new: past the last delivered one and not before the next.\<close>

definition fresh :: "nat \<Rightarrow> reassembler \<Rightarrow> bool" where
  "fresh f s \<longleftrightarrow> (\<forall>g. ra_last_good s = Some g \<longrightarrow> g < f) \<and> (\<forall>n. ra_need s = NeedFrame n \<longrightarrow> n \<le> f)"

lemma note_gap_ok:
  assumes inv: "ra_inv D H s" and some: "note_gap f now s = Some s'"
    and past: "\<forall>g. ra_last_good s = Some g \<longrightarrow> g < f" and f: "f < umax 32"
  shows "ra_inv D H s' \<and> fresh f s'"
proof (cases "ra_need s")
  case (NeedFrame n)
  have le: "n \<le> f" using some NeedFrame by (auto simp: note_gap_def split: if_splits)
  show ?thesis
  proof (cases "wrap_sub 32 f n > cf_max_pending (ra_cfg s)")
    case True
    have "om_keys (om_retain (\<lambda>k. f \<le> k) (ra_frames s)) \<subseteq> om_keys (ra_frames s)"
      by (auto simp: om_simps)
    with True NeedFrame some le inv past show ?thesis
      by (auto simp: note_gap_def Let_def ra_inv_def fresh_def frames_ok_retain elim: order_ok_sub)
  next
    case False
    with NeedFrame some le have s': "s' = s\<lparr>ra_frames :=
        fold (\<lambda>missing m. om_entry missing (slot_unknown now) m) [n..<f] (ra_frames s)\<rparr>"
      by (simp add: note_gap_def)
    show ?thesis using inv NeedFrame past f le
      by (auto simp: s' ra_inv_def fresh_def frames_ok_fold_entry order_ok_def om_keys_fold_entry)
  qed
qed (use assms in \<open>auto simp: note_gap_def fresh_def\<close>)

text \<open>The frames a datagram calls discardable: its own, and the one before it.\<close>

definition claimed :: "media_header \<Rightarrow> nat set" where
  "claimed h = (if has_flag (mh_flags h) DISCARDABLE then {unat (mh_frame h)} else {}) \<union>
     (if has_flag (mh_flags h) PREV_DISCARDABLE \<and> unat (mh_frame h) \<ge> 1
      then {unat (mh_frame h) - 1} else {})"

lemma slot_ok_mark: "slot_ok D k u \<Longrightarrow> k \<in> D \<Longrightarrow> slot_ok D k (mark_discardable u)"
  by (cases u) (auto simp: partial_ok_def)

lemma mark_previous_ok:
  assumes inv: "ra_inv D H s" and fresh: "fresh (unat (mh_frame h)) s" and D: "claimed h \<subseteq> D"
  shows "ra_inv D H (mark_previous h (unat (mh_frame h)) s) \<and>
    fresh (unat (mh_frame h)) (mark_previous h (unat (mh_frame h)) s)"
proof (cases "om_get (ra_frames s) (unat (mh_frame h) - 1)")
  case None
  then show ?thesis using inv fresh by (simp add: mark_previous_def)
next
  case (Some u)
  have "slot_ok D (unat (mh_frame h) - 1) u"
    using inv Some frames_ok_get unfolding ra_inv_def by blast
  then show ?thesis using inv fresh D Some
    by (auto simp: mark_previous_def claimed_def ra_inv_def fresh_def om_keys_insert_old
        intro!: frames_ok_insert slot_ok_mark elim!: order_ok_sub)
qed

lemma partial_new_ok:
  assumes "video_valid h payload"
  shows "partial_ok (partial_new h (length payload) now d)"
  using assms unsigned_less [of "mh_data_count h"] unsigned_less [of "mh_parity_count h"]
  by (auto simp: partial_ok_def partial_new_def video_valid_def have_shards_def sat_add_def umax_def Let_def)

lemma open_slot_ok:
  assumes inv: "ra_inv D H s" and fresh: "fresh (unat (mh_frame h)) s" and D: "claimed h \<subseteq> D"
    and valid: "video_valid h payload" and small: "unat (mh_frame h) < umax 32"
  shows "ra_inv D H (open_slot h payload (unat (mh_frame h)) now s)"
proof -
  let ?f = "unat (mh_frame h)"
  let ?m = "om_entry ?f (slot_unknown now) (ra_frames s)"
  have frames: "frames_ok D ?m"
    using inv by (simp add: ra_inv_def frames_ok_entry slot_unknown_def)
  have order: "order_ok D (H @ ra_ready s) m (ra_need s) (ra_last_good s)" if "om_keys m = om_keys ?m" for m
    using inv fresh small that by (auto simp: ra_inv_def order_ok_def fresh_def om_simps)
  have part: "slot_ok D ?f (Partial (partial_new h (length payload) now d))"
    if "om_get ?m ?f = Some (Unknown a b c d)" for a b c d
    using frames_ok_get [OF frames that] D partial_new_ok [OF valid]
    by (auto simp: partial_new_def claimed_def)
  have keys: "om_keys (om_insert ?f u ?m) = om_keys ?m" for u by (auto simp: om_simps)
  show ?thesis using inv frames part order keys
    by (auto simp: open_slot_def ra_inv_def Let_def frames_ok_insert split: option.splits slot.splits)
qed

lemma have_shards_update:
  assumes "i < length xs" and "xs ! i = None"
  shows "have_shards (xs[i := Some b]) = Suc (have_shards xs)"
  using filter_length_update [OF assms(1), of "\<lambda>x. x \<noteq> None"] assms(2) by (simp add: have_shards_def)

lemma add_shard_ok:
  assumes ok: "partial_ok p" and i: "unat (mh_index h) < length (pa_shards p)"
    and none: "pa_shards p ! unat (mh_index h) = None" and len: "length payload = pa_shard_bytes p"
  shows "partial_ok (add_shard h payload now p)"
proof -
  let ?i = "unat (mh_index h)"
  let ?xs = "(pa_shards p)[?i := Some payload]"
  have small: "have_shards xs \<le> length xs" for xs by (simp add: have_shards_def)
  have lens: "length (pa_shards p) < 2 ^ 17" using ok by (simp add: partial_ok_def)
  have sat: "sat_add 64 k 1 = Suc k" if "k < 2 ^ 17" for k
    using that by (simp add: sat_add_def umax_def)
  have total: "sat_add 64 (pa_have_total p) 1 = have_shards ?xs"
    using ok i none lens small [of "pa_shards p"] by (subst sat) (auto simp: have_shards_update partial_ok_def)
  have data: "(if ?i < pa_data_count p then sat_add 64 (pa_have_data p) 1 else pa_have_data p)
      = have_shards (take (pa_data_count p) ?xs)"
  proof (cases "?i < pa_data_count p")
    case True
    then have "have_shards (take (pa_data_count p) ?xs) = Suc (pa_have_data p)"
      using ok i none by (simp add: take_update_swap have_shards_update partial_ok_def)
    then show ?thesis using True sat small [of "take (pa_data_count p) (pa_shards p)"] ok
      by (simp add: partial_ok_def)
  qed (use ok in \<open>simp add: partial_ok_def\<close>)
  have "length b = pa_shard_bytes p" if "Some b \<in> set ?xs" for b
    using that ok len set_update_subset_insert [of "pa_shards p" ?i "Some payload"]
    by (auto simp: partial_ok_def)
  then show ?thesis using ok total data
    by (auto simp: partial_ok_def add_shard_def Let_def)
qed

lemma add_shard_discardable [simp]: "pa_discardable (add_shard h payload now p) = pa_discardable p"
  by (simp add: add_shard_def Let_def)

lemma store_fragment_ok:
  assumes inv: "ra_inv D H s"
  shows "ra_inv D H (fst (store_fragment rs_dec h payload f now s))"
proof (cases "om_get (ra_frames s) f")
  case None
  then show ?thesis using inv by (simp add: store_fragment_def)
next
  case (Some u)
  show ?thesis
  proof (cases u)
    case (Partial p)
    let ?p = "add_shard h payload now p"
    let ?s = "s\<lparr>ra_frames := om_insert f (Partial ?p) (ra_frames s)\<rparr>"
    have ok: "slot_ok D f (Partial p)" using inv Some Partial frames_ok_get by (metis ra_inv_def)
    have step: "ra_inv D H ?s" if "unat (mh_index h) < length (pa_shards p)"
      "pa_shards p ! unat (mh_index h) = None" "pa_shard_bytes p = length payload"
      using inv Some ok add_shard_ok [OF _ that(1,2), of payload now] that(3)
      by (auto simp: ra_inv_def om_keys_insert_old intro!: frames_ok_insert elim!: order_ok_sub)
    show ?thesis using inv Some Partial step
      by (auto simp: store_fragment_def Let_def intro!: ra_inv_evict ra_inv_drain ra_inv_finish)
  qed (use inv Some in \<open>simp_all add: store_fragment_def\<close>)
qed

lemma ra_inv_ingest_video:
  assumes inv: "ra_inv D H s" and D: "claimed h \<subseteq> D" and small: "unat (mh_frame h) < umax 32"
  shows "ra_inv D H (fst (ingest_video rs_dec h payload now s))"
proof -
  let ?s = "s\<lparr>ra_any_arrived := True\<rparr>"
  have inv': "ra_inv D H ?s" using inv by (subst ra_inv_cong) simp_all
  have gap: "ra_inv D H t \<and> fresh (unat (mh_frame h)) t"
    if "note_gap (unat (mh_frame h)) now ?s = Some t"
      "\<not> (case ra_last_good ?s of None \<Rightarrow> False | Some good \<Rightarrow> unat (mh_frame h) \<le> good)" for t
    using note_gap_ok [OF inv' that(1) _ small] that(2) by (auto split: option.splits)
  show ?thesis using inv' gap
    by (auto simp: ingest_video_def Let_def split: option.splits
        intro!: store_fragment_ok open_slot_ok [OF _ _ D _ small] dest: mark_previous_ok [OF _ _ D])
qed

end
