(* ===== verification/Reassemble_Runs.thy ===== *)
theory Reassemble_Runs
  imports Reassemble_Order
begin

text \<open>
  Runs of the reassembler: any interleaving of the operations a client calls on it, from its
  constructor on. The invariant of \<open>Reassemble_Order\<close> holds along every run, so what the run hands
  to the decoder is in decode order with no reference missing.
\<close>

section \<open>The other operations keep the invariant\<close>

lemma frames_ok_mono: "frames_ok D m \<Longrightarrow> D \<subseteq> E \<Longrightarrow> frames_ok E m"
proof -
  assume "frames_ok D m" "D \<subseteq> E"
  moreover have "slot_ok D k u \<Longrightarrow> slot_ok E k u" for k u using \<open>D \<subseteq> E\<close> by (cases u) auto
  ultimately show ?thesis by (auto simp: frames_ok_def)
qed

lemma handed_ok_mono: "handed_ok D L \<Longrightarrow> D \<subseteq> E \<Longrightarrow> handed_ok E L"
  unfolding handed_ok_def follows_def by (auto elim!: successively_mono)

lemma ra_inv_mono:
  assumes "ra_inv D H s" and "D \<subseteq> E"
  shows "ra_inv E H s"
proof -
  have "order_ok E (H @ ra_ready s) (ra_frames s) (ra_need s) (ra_last_good s)"
    using assms unfolding ra_inv_def order_ok_def by blast
  then show ?thesis using assms frames_ok_mono handed_ok_mono by (simp add: ra_inv_def) blast
qed

lemma stall_simps [simp]:
  "ra_frames (attribute g st d k s) = ra_frames s" "ra_ready (attribute g st d k s) = ra_ready s"
  "ra_need (attribute g st d k s) = ra_need s" "ra_last_good (attribute g st d k s) = ra_last_good s"
  "ra_frames (charge_stall now wg s) = ra_frames s" "ra_ready (charge_stall now wg s) = ra_ready s"
  "ra_need (charge_stall now wg s) = ra_need s" "ra_last_good (charge_stall now wg s) = ra_last_good s"
  "ra_ready (resume now s) = ra_ready s" "ra_need (resume now s) = ra_need s"
  "ra_last_good (resume now s) = ra_last_good s"
  by (simp_all add: attribute_def charge_stall_def resume_def Let_def)

lemma slot_ok_resume: "slot_ok D k u \<Longrightarrow> slot_ok D k (resume_slot t now u)"
  by (cases u) (auto simp: partial_ok_def)

lemma ra_inv_resume: "ra_inv D H s \<Longrightarrow> ra_inv D H (resume now s)"
  by (auto simp: ra_inv_def resume_def frames_ok_map slot_ok_resume order_ok_def)

lemma ra_inv_settle: 
  assumes "ra_inv D H s"
  shows "ra_inv D H (settle_silence h now s)"
proof -
  have keep: "ra_inv D H (attribute g st d k t) = ra_inv D H t"
      "ra_inv D H (charge_stall now wg t) = ra_inv D H t" for g st d k wg t
    by (rule ra_inv_cong; simp)+
  have upd: "ra_inv D H (t\<lparr>ra_last_send_ms_lo := a, ra_arrived_at := b, ra_dozed_since_arrival := c,
      ra_dozed_from := d, ra_dozed_spent := e, ra_last_tick_at := f, ra_refresh_repeats := g\<rparr>)
      = ra_inv D H t"
      "ra_inv D H (t\<lparr>ra_window := w, ra_stats := st\<rparr>) = ra_inv D H t" for t a b c d e f g w st
    by (rule ra_inv_cong; simp)+
  show ?thesis using assms
    by (simp add: settle_silence_def Let_def upd keep ra_inv_resume)
qed

text \<open>What a datagram claims, and the frame it belongs to, read off its header.\<close>

definition datagram_claims :: "byte list \<Rightarrow> nat set" where
  "datagram_claims dg = (case header_parse dg of None \<Rightarrow> {} | Some (h, _) \<Rightarrow> claimed h)"

definition datagram_frame :: "byte list \<Rightarrow> nat" where
  "datagram_frame dg = (case header_parse dg of None \<Rightarrow> 0 | Some (h, _) \<Rightarrow> unat (mh_frame h))"

lemma ra_inv_ingest:
  assumes inv: "ra_inv D H s" and small: "datagram_frame dg < umax 32"
  shows "ra_inv (D \<union> datagram_claims dg) H (fst (ingest rs_dec dg now s))"
proof (cases "header_parse dg")
  case None
  then show ?thesis using inv by (simp add: ingest_def datagram_claims_def)
next
  case (Some hp)
  obtain h payload where hp: "header_parse dg = Some (h, payload)" using Some by (cases hp) auto
  let ?E = "D \<union> datagram_claims dg"
  have inv': "ra_inv ?E H s" by (rule ra_inv_mono [OF inv]) simp
  have D: "claimed h \<subseteq> ?E" and f: "unat (mh_frame h) < umax 32"
    using small hp by (auto simp: datagram_claims_def datagram_frame_def)
  have hb: "ra_inv ?E H (t\<lparr>ra_first_lost := a, ra_refresh_requested_at := b\<rparr>) = ra_inv ?E H t" for t a b
    by (rule ra_inv_cong) simp_all
  show ?thesis using inv' ra_inv_settle [OF inv', of h now] ra_inv_ingest_video [OF _ D f] hb
    by (auto simp: ingest_def hp Let_def split: option.splits kind.splits)
qed

text \<open>A pass over the frames that changes slots but no key.\<close>

lemma om_pass:
  fixes m :: "'v omap" and g :: "nat \<Rightarrow> 'v \<Rightarrow> 'v"
  defines "m' \<equiv> map (\<lambda>(k, u). (k, g k u)) m"
  shows "om_get m' k = map_option (g k) (om_get m k)" "om_ok m' = om_ok m" "om_keys m' = om_keys m"
proof -
  show "om_get m' k = map_option (g k) (om_get m k)"
    unfolding m'_def by (induction m) (auto simp: om_get_def)
  have fst: "map fst m' = map fst m" unfolding m'_def by (induction m) auto
  then show "om_ok m' = om_ok m" by (simp add: om_ok_def)
  have "set (map fst m') = set (map fst m)" using fst by simp
  then show "om_keys m' = om_keys m" by (simp add: om_keys_def)
qed

lemma slot_ok_tick: "slot_ok D k u \<Longrightarrow> slot_ok D k (fst (tick_slot e k u))"
  by (cases u) (auto simp: partial_ok_def)

lemma tick_clock_simps [simp]:
  "ra_frames (tick_clock now rtt s) = ra_frames s" "ra_ready (tick_clock now rtt s) = ra_ready s"
  "ra_need (tick_clock now rtt s) = ra_need s" "ra_last_good (tick_clock now rtt s) = ra_last_good s"
  "ra_actions (tick_clock now rtt s) = ra_actions s" "ra_cfg (tick_clock now rtt s) = ra_cfg s"
  by (simp_all add: tick_clock_def Let_def)

lemma tick_refresh_simps [simp]:
  "ra_frames (tick_refresh now rtt e s) = ra_frames s" "ra_ready (tick_refresh now rtt e s) = ra_ready s"
  "ra_need (tick_refresh now rtt e s) = ra_need s" "ra_last_good (tick_refresh now rtt e s) = ra_last_good s"
  by (auto simp: tick_refresh_def Let_def split: option.splits)

text \<open>The tick after its pass over the frames.\<close>

definition tick_pass :: "instant \<Rightarrow> duration \<Rightarrow> reassembler \<Rightarrow> reassembler" where
  "tick_pass now rtt s =
    (let s = tick_clock now rtt s; e = tick_env_of now rtt s; st = ra_stats s;
         nacks = concat (map (\<lambda>(f, u). fst (snd (tick_slot e f u))) (ra_frames s))
     in s\<lparr>ra_frames := map (\<lambda>(f, u). (f, fst (tick_slot e f u))) (ra_frames s),
          ra_stats := st\<lparr>rt_nacks := sat_add 64 (rt_nacks st) (length nacks)\<rparr>,
          ra_actions := ra_actions s @ nacks\<rparr>)"

definition tick_lost :: "instant \<Rightarrow> duration \<Rightarrow> reassembler \<Rightarrow> (nat \<times> nat) list" where
  "tick_lost now rtt s =
    (let s = tick_clock now rtt s; e = tick_env_of now rtt s
     in concat (map (\<lambda>(f, u). snd (snd (tick_slot e f u))) (ra_frames s)))"

lemma tick_eq:
  "tick now rtt s =
    (let e = tick_env_of now rtt (tick_clock now rtt s);
         t = drain now (tick_refresh now rtt e
               (fold (\<lambda>(f, k) s. lose f k now s) (tick_lost now rtt s) (tick_pass now rtt s)))
     in (t\<lparr>ra_actions := []\<rparr>, ra_actions t))"
proof -
  have "map (\<lambda>(frame, slot, ns, ls). (frame, slot)) (map (\<lambda>(frame, slot). (frame, tick_slot e frame slot)) m)
      = map (\<lambda>(f, u). (f, fst (tick_slot e f u))) m"
    "map (\<lambda>(frame, slot, ns, ls). ns) (map (\<lambda>(frame, slot). (frame, tick_slot e frame slot)) m)
      = map (\<lambda>(f, u). fst (snd (tick_slot e f u))) m"
    "map (\<lambda>(frame, slot, ns, ls). ls) (map (\<lambda>(frame, slot). (frame, tick_slot e frame slot)) m)
      = map (\<lambda>(f, u). snd (snd (tick_slot e f u))) m" for e m
    by (auto split: prod.splits)
  then show ?thesis unfolding tick_def tick_pass_def tick_lost_def Let_def by (simp only:)
qed

lemma ra_inv_tick:
  assumes inv: "ra_inv D H s"
  shows "ra_inv D H (fst (tick now rtt s))"
proof -
  have "frames_ok D (ra_frames (tick_pass now rtt s))"
    using inv by (auto simp: tick_pass_def Let_def ra_inv_def frames_ok_def om_pass slot_ok_tick)
  then have pass: "ra_inv D H (tick_pass now rtt s)"
    using inv by (auto simp: tick_pass_def Let_def ra_inv_def om_pass elim!: order_ok_sub)
  have cong: "ra_inv D H (t\<lparr>ra_actions := a\<rparr>) = ra_inv D H t" for t a
    by (rule ra_inv_cong) simp_all
  have refresh: "ra_inv D H (tick_refresh now rtt e t) = ra_inv D H t" for e t
    by (rule ra_inv_cong) simp_all
  show ?thesis using ra_inv_fold_lose [OF pass, of now "tick_lost now rtt s"]
    by (simp add: tick_eq Let_def cong ra_inv_drain refresh)
qed

lemma handed_sorted: "handed_ok D L \<Longrightarrow> sorted_wrt (<) (map out_no L)"
proof -
  assume "handed_ok D L"
  then have "successively (\<lambda>a b. out_no a < out_no b) L"
    by (auto simp: handed_ok_def follows_def elim!: successively_mono)
  moreover have "transp (\<lambda>a b. out_no a < out_no b)" by (auto intro: transpI)
  ultimately have "sorted_wrt (\<lambda>a b. out_no a < out_no b) L"
    by (simp add: successively_conv_sorted_wrt)
  then show ?thesis by (simp add: sorted_wrt_map)
qed

lemma handed_prefix: "handed_ok D (H @ R) \<Longrightarrow> handed_ok D H"
  by (cases "H = []") (auto simp: handed_ok_def successively_append_iff)

lemma ra_inv_next:
  assumes "ra_inv D H s" and "next_frame s = (Some out, s')"
  shows "ra_inv D (H @ [out]) s'"
  using assms by (auto simp: next_frame_def ra_inv_def split: list.splits)

lemma ra_inv_force:
  assumes inv: "ra_inv D H s"
  shows "ra_inv D H (force_refresh now keyframe s)"
proof -
  let ?t = "force_refresh now keyframe s"
  have simps: "ra_frames ?t = ra_frames s" "ra_ready ?t = []" "ra_last_good ?t = ra_last_good s"
    "\<And>n. ra_need ?t \<noteq> NeedFrame n"
    by (auto simp: force_refresh_def Let_def)
  have "out_no (last H) \<le> out_no (last (H @ ra_ready s))" if "H \<noteq> []"
  proof (cases "ra_ready s = []")
    case False
    have "sorted_wrt (<) (map out_no (H @ ra_ready s))" using inv handed_sorted unfolding ra_inv_def by blast
    then show ?thesis using that False by (auto simp: sorted_wrt_append less_imp_le)
  qed simp
  moreover have "order_ok D (H @ ra_ready s) (ra_frames s) (ra_need s) (ra_last_good s)"
    using inv by (simp add: ra_inv_def)
  ultimately have "order_ok D H (ra_frames s) (ra_need ?t) (ra_last_good s)"
    using simps(4) by (auto simp: order_ok_def)
  then show ?thesis using inv handed_prefix by (auto simp: ra_inv_def simps)
qed

lemma ra_inv_others:
  "ra_inv D H (set_source_live live s) = ra_inv D H s"
  "ra_inv D H (ack_ltr token s) = ra_inv D H s"
  "ra_inv D H (take_back report s) = ra_inv D H s"
  "ra_inv D H (fst (take_report now late s)) = ra_inv D H s"
  by (rule ra_inv_cong;
      simp add: set_source_live_def ack_ltr_def take_back_def take_report_def Let_def)+

section \<open>Runs\<close>

text \<open>
  \<open>ra_run rs_dec stream cfg t0 D H s\<close>: operations on a new reassembler led to the state \<open>s\<close>; its
  client took the frames \<open>H\<close> from it, and the datagrams it was fed called the frames \<open>D\<close>
  discardable. The last frame number of all, \<open>2 ^ 32 - 1\<close>, does not occur: the code compares
  frame numbers without wrapping (see \<open>Reassemble_Reports\<close>).
\<close>

inductive ra_run ::
  "rs_decoder \<Rightarrow> 32 word \<Rightarrow> config \<Rightarrow> instant \<Rightarrow> nat set \<Rightarrow> frame_out list \<Rightarrow> reassembler \<Rightarrow> bool"
  for rs_dec stream cfg t0 where
  new: "ra_run rs_dec stream cfg t0 {} [] (reassembler_new stream cfg t0)"
| ingest: "ra_run rs_dec stream cfg t0 D H s \<Longrightarrow> datagram_frame dg < umax 32 \<Longrightarrow>
    ra_run rs_dec stream cfg t0 (D \<union> datagram_claims dg) H (fst (ingest rs_dec dg now s))"
| tick: "ra_run rs_dec stream cfg t0 D H s \<Longrightarrow> ra_run rs_dec stream cfg t0 D H (fst (tick now rtt s))"
| take: "ra_run rs_dec stream cfg t0 D H s \<Longrightarrow> next_frame s = (Some out, s') \<Longrightarrow>
    ra_run rs_dec stream cfg t0 D (H @ [out]) s'"
| force: "ra_run rs_dec stream cfg t0 D H s \<Longrightarrow>
    ra_run rs_dec stream cfg t0 D H (force_refresh now keyframe s)"
| live: "ra_run rs_dec stream cfg t0 D H s \<Longrightarrow> ra_run rs_dec stream cfg t0 D H (set_source_live live s)"
| ack: "ra_run rs_dec stream cfg t0 D H s \<Longrightarrow> ra_run rs_dec stream cfg t0 D H (ack_ltr token s)"
| report: "ra_run rs_dec stream cfg t0 D H s \<Longrightarrow>
    ra_run rs_dec stream cfg t0 D H (fst (take_report now late s))"
| restore: "ra_run rs_dec stream cfg t0 D H s \<Longrightarrow> ra_run rs_dec stream cfg t0 D H (take_back rep s)"

lemma ra_run_inv: "ra_run rs_dec stream cfg t0 D H s \<Longrightarrow> ra_inv D H s"
  by (induction rule: ra_run.induct)
     (simp_all add: ra_inv_new ra_inv_ingest ra_inv_tick ra_inv_next ra_inv_force ra_inv_others)

text \<open>The order along a run, from the invariant.\<close>

lemma run_in_decode_order:
  assumes "ra_run rs_dec stream cfg t0 D H s"
  shows "sorted_wrt (<) (map out_no H) \<and> (H \<noteq> [] \<longrightarrow> out_restarts (hd H)) \<and> successively (follows D) H"
proof -
  have "handed_ok D H" using ra_run_inv [OF assms] handed_prefix unfolding ra_inv_def by blast
  then show ?thesis using handed_sorted by (simp add: handed_ok_def)
qed

end
