(* ===== verification/Media_Path.thy ===== *)
theory Media_Path
  imports Reassemble_Runs
begin

text \<open>
  The media path end to end: what the worker's packetizer cuts, sends and retransmits, the
  client's reassembler puts together again, whichever fragments arrive, in whichever order, as
  long as there are as many as the frame has data fragments.

  The Reed-Solomon engine is a parameter on both ends; \<open>rs_recovers\<close> is its documented
  behaviour: as many shards as there were originals restore every missing original.
\<close>

unbundle bit_operations_syntax

section \<open>Fragments received so far\<close>

text \<open>The shards of \<open>pieces\<close> with the indices in \<open>I\<close>.\<close>

definition pieces_in :: "nat set \<Rightarrow> byte list list \<Rightarrow> byte list option list" where
  "pieces_in I pieces = map (\<lambda>i. if i \<in> I then Some (pieces ! i) else None) [0..<length pieces]"

lemma length_pieces_in [simp]: "length (pieces_in I pieces) = length pieces"
  by (simp add: pieces_in_def)

lemma nth_pieces_in [simp]: "i < length pieces \<Longrightarrow> pieces_in I pieces ! i = (if i \<in> I then Some (pieces ! i) else None)"
  by (simp add: pieces_in_def)

lemma pieces_in_empty: "pieces_in {} pieces = replicate (length pieces) None"
  by (rule nth_equalityI) simp_all

lemma pieces_in_insert: "i < length pieces \<Longrightarrow> (pieces_in I pieces)[i := Some (pieces ! i)] = pieces_in (insert i I) pieces"
  by (rule nth_equalityI) (auto simp: nth_list_update)

lemma have_shards_pieces_in:
  assumes "n \<le> length pieces"
  shows "have_shards (take n (pieces_in I pieces)) = card {i \<in> I. i < n}"
proof -
  have "take n (pieces_in I pieces) = map (\<lambda>i. if i \<in> I then Some (pieces ! i) else None) [0..<n]"
    using assms by (simp add: pieces_in_def take_map)
  then have "have_shards (take n (pieces_in I pieces)) = length (filter (\<lambda>i. i \<in> I) [0..<n])"
    by (auto simp: have_shards_def filter_map comp_def intro!: arg_cong [where f = length] filter_cong)
  also have "\<dots> = card (set (filter (\<lambda>i. i \<in> I) [0..<n]))"
    by (rule distinct_card [symmetric]) simp
  also have "set (filter (\<lambda>i. i \<in> I) [0..<n]) = {i \<in> I. i < n}" by auto
  finally show ?thesis .
qed

definition rs_recovers :: "rs_encoder \<Rightarrow> rs_decoder \<Rightarrow> bool" where
  "rs_recovers rs_enc rs_dec \<longleftrightarrow> (\<forall>k m b originals recovery I.
     rs_enc k m b originals = Some recovery \<and> length originals = k \<and>
     (\<forall>x \<in> set originals. length x = b) \<and> I \<subseteq> {0..<k + m} \<and> k \<le> card I \<longrightarrow>
     (let shards = pieces_in I (originals @ recovery) in
      \<exists>restored. rs_dec k m b (received (take k shards)) (received (drop k shards)) = Some restored \<and>
        (\<forall>i < k. i \<notin> I \<longrightarrow> restored i = Some (originals ! i))))"

lemma rs_recoversD:
  assumes "rs_recovers rs_enc rs_dec" and "rs_enc k m b originals = Some recovery"
    and "length originals = k" "\<forall>x \<in> set originals. length x = b" "I \<subseteq> {0..<k + m}" "k \<le> card I"
  shows "\<exists>restored. rs_dec k m b (received (take k (pieces_in I (originals @ recovery))))
      (received (drop k (pieces_in I (originals @ recovery)))) = Some restored \<and>
    (\<forall>i < k. i \<notin> I \<longrightarrow> restored i = Some (originals ! i))"
  using assms(1) [unfolded rs_recovers_def, THEN spec, of k, THEN spec, of m, THEN spec, of b,
      THEN spec, of originals, THEN spec, of recovery, THEN spec, of I] assms(2-)
  by (simp add: Let_def)

lemma join_shards_concat:
  assumes "length xs = length ys"
    and "\<And>j. j < length xs \<Longrightarrow> xs ! j = Some (ys ! j) \<or> xs ! j = None \<and> restored (i + j) = Some (ys ! j)"
  shows "join_shards restored i xs = Some (concat ys)"
  using assms
proof (induction xs arbitrary: i ys)
  case Nil
  then show ?case by simp
next
  case (Cons x xs)
  then obtain y zs where ys: "ys = y # zs" by (cases ys) auto
  have "join_shards restored (Suc i) xs = Some (concat zs)"
  proof (rule Cons.IH)
    show "length xs = length zs" using Cons.prems(1) ys by simp
    show "xs ! j = Some (zs ! j) \<or> xs ! j = None \<and> restored (Suc i + j) = Some (zs ! j)" if "j < length xs" for j
      using Cons.prems(2) [of "Suc j"] that ys by simp
  qed
  moreover have "x = Some y \<or> x = None \<and> restored i = Some y" using Cons.prems(2) [of 0] ys by simp
  ultimately show ?case by (auto simp: ys)
qed

section \<open>A frame's pieces\<close>

text \<open>\<open>fl\<close> are the frame's flags; a retransmitted copy carries one more bit.\<close>

definition same_flags :: "byte \<Rightarrow> byte \<Rightarrow> bool" where
  "same_flags x fl \<longleftrightarrow> (\<forall>b \<in> {KEYFRAME, LTR, LTR_REFRESH, DISCARDABLE}. has_flag x b = has_flag fl b)"

text \<open>A partial frame that holds the pieces with the indices in \<open>I\<close>.\<close>

definition gathered :: "byte list list \<Rightarrow> layout \<Rightarrow> byte \<Rightarrow> nat set \<Rightarrow> partial \<Rightarrow> bool" where
  "gathered pieces ly fl I p \<longleftrightarrow>
     pa_data_count p = ly_data_count ly \<and> pa_parity_count p = ly_parity_count ly \<and>
     pa_shard_bytes p = ly_shard_bytes ly \<and> pa_shards p = pieces_in I pieces \<and> partial_ok p \<and>
     same_flags (pa_flags p) fl \<and> pa_discardable p = has_flag fl DISCARDABLE"

lemma gathered_counts:
  assumes "gathered pieces ly fl I p" and "I \<subseteq> {0..<length pieces}"
  shows "pa_have_data p = card {i \<in> I. i < ly_data_count ly}" "pa_have_total p = card I"
    "length pieces = ly_data_count ly + ly_parity_count ly"
proof -
  show len: "length pieces = ly_data_count ly + ly_parity_count ly"
    using assms(1) unfolding gathered_def partial_ok_def by (metis length_pieces_in)
  have "pa_have_data p = have_shards (take (ly_data_count ly) (pieces_in I pieces))"
    "pa_have_total p = have_shards (take (length pieces) (pieces_in I pieces))"
    using assms(1) by (auto simp: gathered_def partial_ok_def)
  moreover have "{i \<in> I. i < length pieces} = I" using assms(2) by auto
  ultimately show "pa_have_data p = card {i \<in> I. i < ly_data_count ly}" "pa_have_total p = card I"
    using len have_shards_pieces_in [of "ly_data_count ly" pieces I]
      have_shards_pieces_in [of "length pieces" pieces I] by simp_all
qed

text \<open>A frame is complete when it has as many pieces, of any kind, as it has data fragments.\<close>

lemma gathered_complete:
  assumes g: "gathered pieces ly fl I p" and I: "I \<subseteq> {0..<length pieces}"
  shows "partial_complete p \<longleftrightarrow> ly_data_count ly \<le> card I"
proof -
  note counts = gathered_counts [OF g I]
  have fin: "finite I" using I finite_subset by blast
  let ?data = "{i \<in> I. i < ly_data_count ly}"
  have data: "card ?data \<le> card I" "card ?data \<le> ly_data_count ly"
    using fin card_mono [of I ?data] card_mono [of "{0..<ly_data_count ly}" ?data]
    by (auto simp: subset_eq)
  have "card ?data = card I" if "ly_parity_count ly = 0"
  proof -
    have "?data = I" using I counts(3) that by auto
    then show ?thesis by (rule arg_cong)
  qed
  moreover have "partial_complete p \<longleftrightarrow> card ?data = ly_data_count ly
      \<or> (ly_parity_count ly > 0 \<and> ly_data_count ly \<le> card I)"
    using counts(1,2) g by (auto simp: partial_complete_def gathered_def)
  ultimately show ?thesis using data by (metis le_antisym le_trans neq0_conv order_refl)
qed

text \<open>What the decoder is handed for a frame the encoder produced.\<close>

definition out_matches :: "packetizer \<Rightarrow> encoded_frame \<Rightarrow> frame_out \<Rightarrow> bool" where
  "out_matches pk frame out \<longleftrightarrow>
     fo_data out = ef_data frame \<and> fi_frame (fo_info out) = unat (pk_next_frame pk) \<and>
     fi_keyframe (fo_info out) = ef_keyframe frame \<and>
     fi_ltr_token (fo_info out) = map_option unat (ef_ltr_token frame) \<and>
     fi_ltr_refresh (fo_info out) = ef_ltr_refresh frame \<and>
     fi_capture_ts_us (fo_info out) = unat (ef_capture_ts_us frame) \<and>
     fi_stripes (fo_info out) = ef_stripes frame \<and> fi_build (fo_info out) = pk_build pk \<and>
     fi_region (fo_info out) = prefix_region (frame_prefix_of pk frame)"

lemma restored_body:
  assumes g: "gathered (shards @ recovery) ly fl I p" and I: "I \<subseteq> {0..<length (shards @ recovery)}"
    and enough: "ly_data_count ly \<le> card I"
    and size: "length shards = ly_data_count ly" "\<forall>x \<in> set shards. length x = ly_shard_bytes ly"
    and enc: "ly_parity_count ly \<noteq> 0 \<Longrightarrow>
      rs_enc (ly_data_count ly) (ly_parity_count ly) (ly_shard_bytes ly) shards = Some recovery"
    and rs: "rs_recovers rs_enc rs_dec"
  shows "assemble_body rs_dec p = Some (concat shards)"
proof -
  note counts = gathered_counts [OF g I]
  let ?pieces = "shards @ recovery"
  let ?k = "ly_data_count ly"
  have data: "take ?k (pa_shards p) ! j = (if j \<in> I then Some (shards ! j) else None)" if "j < ?k" for j
    using g that size counts(3) by (simp add: gathered_def nth_append)
  have len: "length (take ?k (pa_shards p)) = length shards"
    using g size counts(3) by (simp add: gathered_def)
  show ?thesis
  proof (cases "pa_have_data p < ?k")
    case True
    have par: "ly_parity_count ly \<noteq> 0"
    proof
      assume "ly_parity_count ly = 0"
      then have "{i \<in> I. i < ?k} = I" using I counts(3) by auto
      then show False using True enough counts(1) by simp
    qed
    have IS: "I \<subseteq> {0..<?k + ly_parity_count ly}" using I counts(3) by simp
    from rs_recoversD [OF rs enc [OF par] size IS enough] obtain restored where "rs_dec ?k (ly_parity_count ly) (ly_shard_bytes ly)
        (received (take ?k (pieces_in I ?pieces))) (received (drop ?k (pieces_in I ?pieces))) = Some restored"
      and "\<forall>i < ?k. i \<notin> I \<longrightarrow> restored i = Some (shards ! i)"
      by (elim exE conjE)
    moreover have "join_shards restored 0 (take ?k (pa_shards p)) = Some (concat shards)"
      using data len size(1) calculation(2) by (intro join_shards_concat) auto
    ultimately show ?thesis using True g by (simp add: assemble_body_def gathered_def)
  next
    case False
    have all: "{i \<in> I. i < ?k} = {0..<?k}"
      using False counts(1) by (intro card_seteq) (auto simp: subset_eq)
    have "j \<in> I" if "j < ?k" for j
    proof -
      have "j \<in> {i \<in> I. i < ?k}" unfolding all using that by simp
      then show ?thesis by simp
    qed
    then have "join_shards (\<lambda>_. None) 0 (take ?k (pa_shards p)) = Some (concat shards)"
      using data len size(1) by (intro join_shards_concat) auto
    then show ?thesis using False g by (simp add: assemble_body_def gathered_def)
  qed
qed

lemma assemble_exact:
  assumes body: "assemble_body rs_dec p = Some (concat (frame_shards pk frame ly))"
    and good: "layout_good (length (ef_data frame)) cap ly" and cap: "cap \<le> MAX_PAYLOAD"
    and flags: "same_flags (pa_flags p) (frame_flags frame pd)"
  obtains out where "assemble rs_dec (unat (pk_next_frame pk)) p now = Some out"
    and "out_matches pk frame out"
proof -
  let ?pre = "frame_prefix_of pk frame"
  obtain pad where cat: "concat (frame_shards pk frame ly)
      = prefix_bytes ?pre @ ef_data frame @ replicate pad 0"
    using frame_shards_body [OF good] by blast
  have "length (ef_data frame) \<le> ly_data_count ly * ly_shard_bytes ly"
    using good by (simp add: layout_good_def)
  also have "\<dots> \<le> MAX_DATA_FRAGMENTS * MAX_PAYLOAD"
    using good cap by (intro mult_le_mono) (simp_all add: layout_good_def)
  finally have small: "length (ef_data frame) \<le> umax 32"
    by (simp add: layout_simps umax_def)
  have len: "unat (fp_len ?pre) = length (ef_data frame)"
    using small by (simp add: frame_prefix_of_def to_width_exact unat_word_small umax_def)
  have fields: "fp_capture_ts_us ?pre = ef_capture_ts_us frame" "fp_stripes ?pre = ef_stripes frame"
    "fp_build ?pre = pk_build pk" "ef_ltr_token frame = Some t \<Longrightarrow> fp_ltr_token ?pre = t" for t
    by (simp_all add: frame_prefix_of_def opt_or_def)
  note run = assemble_def body [unfolded cat] prefix_format.dec_enc Let_def len
  have "assemble rs_dec (unat (pk_next_frame pk)) p now \<noteq> None" by (simp add: run)
  then obtain out where out: "assemble rs_dec (unat (pk_next_frame pk)) p now = Some out" by blast
  moreover have "out_matches pk frame out"
    using out flags by (auto simp: run out_matches_def same_flags_def frame_flags_bits fields)
  ultimately show thesis using that by blast
qed

section \<open>One piece at a time\<close>

text \<open>A datagram that carries piece \<open>i\<close> of the frame: the original, or a retransmitted copy.\<close>

definition carries :: "32 word \<Rightarrow> 32 word \<Rightarrow> byte list list \<Rightarrow> layout \<Rightarrow> byte \<Rightarrow> nat \<Rightarrow> byte list \<Rightarrow> bool" where
  "carries stream frame pieces ly fl i dg \<longleftrightarrow> i < length pieces \<and> (\<exists>h.
     header_parse dg = Some (h, pieces ! i) \<and> mh_stream h = stream \<and> mh_frame h = frame \<and>
     unat (mh_index h) = i \<and> unat (mh_data_count h) = ly_data_count ly \<and>
     unat (mh_parity_count h) = ly_parity_count ly \<and>
     header_kind h = Some (if i < ly_data_count ly then VideoData else VideoParity) \<and>
     same_flags (mh_flags h) fl)"

text \<open>The frame can be delivered as soon as it is complete.\<close>

definition admits :: "need \<Rightarrow> nat \<Rightarrow> byte \<Rightarrow> bool" where
  "admits nd f fl \<longleftrightarrow> (case nd of NeedFrame n \<Rightarrow> n = f | NeedKeyframe \<Rightarrow> has_flag fl KEYFRAME
     | NeedRefresh \<Rightarrow> has_flag fl KEYFRAME \<or> has_flag fl LTR_REFRESH)"

text \<open>Nothing is pending but the pieces \<open>I\<close> of frame \<open>f\<close>; what was ready is still ready.\<close>

definition waiting ::
  "32 word \<Rightarrow> nat \<Rightarrow> byte list list \<Rightarrow> layout \<Rightarrow> byte \<Rightarrow> frame_out list \<Rightarrow> nat set \<Rightarrow> reassembler \<Rightarrow> bool" where
  "waiting stream f pieces ly fl ready I s \<longleftrightarrow>
     ra_stream s = stream \<and> 0 < cf_max_pending (ra_cfg s) \<and> f \<notin> set (ra_given_up s) \<and>
     (\<forall>g. ra_last_good s = Some g \<longrightarrow> g < f) \<and> admits (ra_need s) f fl \<and> ra_ready s = ready \<and>
     (if I = {} then ra_frames s = []
      else \<exists>p. ra_frames s = [(f, Partial p)] \<and> gathered pieces ly fl I p)"

text \<open>The frame was handed over and nothing is pending.\<close>

definition handed_over :: "32 word \<Rightarrow> nat \<Rightarrow> frame_out list \<Rightarrow> reassembler \<Rightarrow> bool" where
  "handed_over stream f ready s \<longleftrightarrow> ra_stream s = stream \<and> ra_frames s = [] \<and> ra_last_good s = Some f \<and> ra_ready s = ready"

lemma stall_simps2 [simp]:
  "ra_stream (attribute g st d k s) = ra_stream s" "ra_cfg (attribute g st d k s) = ra_cfg s"
  "ra_given_up (attribute g st d k s) = ra_given_up s"
  "ra_stream (charge_stall now wg s) = ra_stream s" "ra_cfg (charge_stall now wg s) = ra_cfg s"
  "ra_given_up (charge_stall now wg s) = ra_given_up s"
  "ra_stream (resume now s) = ra_stream s" "ra_cfg (resume now s) = ra_cfg s"
  "ra_given_up (resume now s) = ra_given_up s"
  by (simp_all add: attribute_def charge_stall_def resume_def Let_def)

lemma settle_keeps [simp]:
  "ra_stream (settle_silence h now s) = ra_stream s" "ra_cfg (settle_silence h now s) = ra_cfg s"
  "ra_given_up (settle_silence h now s) = ra_given_up s"
  "ra_need (settle_silence h now s) = ra_need s"
  "ra_last_good (settle_silence h now s) = ra_last_good s"
  "ra_ready (settle_silence h now s) = ra_ready s"
  by (simp_all add: settle_silence_def Let_def)

lemma settle_frames:
  "ra_frames (settle_silence h now s) = ra_frames s \<or>
   (\<exists>fresh. ra_frames (settle_silence h now s) = om_map (resume_slot fresh now) (ra_frames s))"
  by (auto simp: settle_silence_def Let_def resume_def)

lemma waiting_settle:
  assumes "waiting stream f pieces ly fl ready I s"
  shows "waiting stream f pieces ly fl ready I (settle_silence h now s)"
proof -
  have g: "gathered pieces ly fl I p \<Longrightarrow>
      gathered pieces ly fl I (p\<lparr>pa_first_seen := a, pa_last_seen := b, pa_nacked_at := c\<rparr>)" for p a b c
    by (auto simp: gathered_def partial_ok_def)
  show ?thesis using assms settle_frames [of h now s] g
    by (auto simp: waiting_def om_map_def split: if_splits)
qed

lemma handed_settle: "handed_over stream f ready s \<Longrightarrow> handed_over stream f ready (settle_silence h now s)"
  using settle_frames [of h now s] by (auto simp: handed_over_def om_map_def)

text \<open>What the pieces of one frame have in common.\<close>

definition pieces_ok :: "byte list list \<Rightarrow> layout \<Rightarrow> bool" where
  "pieces_ok pieces ly \<longleftrightarrow> length pieces = ly_data_count ly + ly_parity_count ly \<and>
     (\<forall>x \<in> set pieces. length x = ly_shard_bytes ly) \<and>
     (\<exists>len cap. cap \<le> MAX_PAYLOAD \<and> layout_good len cap ly)"

lemma pieces_total:
  "pieces_ok pieces ly \<Longrightarrow> sat_add 64 (ly_data_count ly) (ly_parity_count ly) = length pieces"
  by (auto simp: pieces_ok_def sat_add_def umax_def layout_good_def layout_simps)

lemma carries_valid:
  assumes ok: "pieces_ok pieces ly" and i: "i < length pieces"
    and h: "unat (mh_index h) = i" "unat (mh_data_count h) = ly_data_count ly"
      "unat (mh_parity_count h) = ly_parity_count ly"
      "header_kind h = Some (if i < ly_data_count ly then VideoData else VideoParity)"
  shows "video_valid h (pieces ! i)"
proof -
  have len: "length (pieces ! i) = ly_shard_bytes ly" using ok i by (simp add: pieces_ok_def)
  have par: "is_parity h \<longleftrightarrow> ly_data_count ly \<le> i"
    using h(4) by (auto simp: is_parity_def header_kind_def kind_from_u8_Some split: if_splits)
  have b: "0 < ly_data_count ly" "ly_data_count ly \<le> 32768" "ly_parity_count ly \<le> 255"
    "even (ly_shard_bytes ly)" "28 \<le> ly_shard_bytes ly" "ly_shard_bytes ly \<le> MAX_PAYLOAD"
    using ok by (auto simp: pieces_ok_def layout_good_def layout_simps)
  have "pieces ! i \<noteq> []" using len b by auto
  then show ?thesis using i len par b ok
    by (auto simp: video_valid_def Let_def h sat_add_def umax_def pieces_ok_def)
qed

lemma fresh_gathered:
  assumes "pieces_ok pieces ly" and "unat (mh_data_count h) = ly_data_count ly"
    "unat (mh_parity_count h) = ly_parity_count ly" "same_flags (mh_flags h) fl"
    and "video_valid h payload" "length payload = ly_shard_bytes ly"
  shows "gathered pieces ly fl {} (partial_new h (length payload) now False)"
  using assms partial_new_ok [OF assms(5), of now False]
  by (auto simp: gathered_def partial_new_def pieces_in_empty pieces_ok_def same_flags_def sat_add_def
      umax_def layout_good_def layout_simps)

text \<open>The entry of the frame is open and holds the pieces \<open>I\<close>, possibly none.\<close>

definition opened ::
  "32 word \<Rightarrow> nat \<Rightarrow> byte list list \<Rightarrow> layout \<Rightarrow> byte \<Rightarrow> frame_out list \<Rightarrow> nat set \<Rightarrow> reassembler \<Rightarrow> bool" where
  "opened stream f pieces ly fl ready I s \<longleftrightarrow>
     ra_stream s = stream \<and> 0 < cf_max_pending (ra_cfg s) \<and> f \<notin> set (ra_given_up s) \<and>
     (\<forall>g. ra_last_good s = Some g \<longrightarrow> g < f) \<and> admits (ra_need s) f fl \<and> ra_ready s = ready \<and>
     (\<exists>p. ra_frames s = [(f, Partial p)] \<and> gathered pieces ly fl I p)"

lemma om_single [simp]:
  "om_get [(k, u)] j = (if j = k then Some u else None)"
  "om_insert k v [(k, u)] = [(k, v)]" "om_entry k v [(k, u)] = [(k, u)]" "om_remove k [(k, u)] = []"
  "om_entry k v [] = [(k, v)]" "om_insert k v [] = [(k, v)]"
  by (simp_all add: om_get_def om_insert_def om_entry_def om_remove_def om_has_def om_set_def)

lemma waiting_open:
  assumes w: "waiting stream (unat (mh_frame h)) pieces ly fl ready I s" and ok: "pieces_ok pieces ly"
    and h: "unat (mh_data_count h) = ly_data_count ly" "unat (mh_parity_count h) = ly_parity_count ly"
      "same_flags (mh_flags h) fl"
    and payload: "video_valid h payload" "length payload = ly_shard_bytes ly"
  shows "note_gap (unat (mh_frame h)) now s = Some s \<and>
    opened stream (unat (mh_frame h)) pieces ly fl ready I
      (open_slot h payload (unat (mh_frame h)) now (mark_previous h (unat (mh_frame h)) s))"
proof -
  let ?f = "unat (mh_frame h)"
  have "?f < 2 ^ LENGTH(32)" by (rule unsigned_less)
  then have "wrap_sub 32 ?f ?f = 0" by (simp add: wrap_sub_def)
  then have gap: "note_gap ?f now s = Some s"
    using w by (auto simp: note_gap_def waiting_def admits_def Let_def split: need.splits)
  have mark: "mark_previous h ?f s = s"
    using w by (auto simp: mark_previous_def waiting_def split: if_splits)
  have "opened stream ?f pieces ly fl ready I (open_slot h payload ?f now s)"
    using w fresh_gathered [OF ok h payload, of now]
    by (auto simp: waiting_def opened_def open_slot_def Let_def slot_unknown_def split: if_splits)
  then show ?thesis using gap mark by simp
qed

lemma gathered_insert:
  assumes g: "gathered pieces ly fl I p" and i: "i < length pieces" "i \<notin> I" "unat (mh_index h) = i"
    and len: "length (pieces ! i) = ly_shard_bytes ly"
  shows "gathered pieces ly fl (insert i I) (add_shard h (pieces ! i) now p)"
proof -
  have "partial_ok (add_shard h (pieces ! i) now p)"
    using g i len by (intro add_shard_ok) (simp_all add: gathered_def)
  then show ?thesis using g i
    by (simp add: gathered_def add_shard_def Let_def pieces_in_insert)
qed

lemma drain_partial:
  assumes "ra_frames s = [(f, Partial p)]" and "admits (ra_need s) f fl"
  shows "drain now s = s"
  using assms
  by (cases "ra_need s") (simp_all add: drain.simps [of now s] admits_def complete_after_def)

lemma drain_empty: "ra_frames s = [] \<Longrightarrow> drain now s = s"
  by (cases "ra_need s") (simp_all add: drain.simps [of now s])

lemma drain_complete:
  assumes frames: "ra_frames s = [(f, Complete out fs)]" and need: "admits (ra_need s) f fl"
    and out: "fi_keyframe (fo_info out) = has_flag fl KEYFRAME"
      "fi_ltr_refresh (fo_info out) = has_flag fl LTR_REFRESH"
    and stream: "ra_stream s = stream"
  shows "handed_over stream f (ra_ready s @ [out\<lparr>fo_hold := since now fs\<rparr>]) (drain now s)"
proof -
  have empty: "drain now (deliver f out fs now t) = deliver f out fs now t"
    if "ra_frames t = [(f, Complete out fs)]" for t
    using that by (intro drain_empty) simp
  have "handed_over stream f (R @ [out\<lparr>fo_hold := since now fs\<rparr>]) (deliver f out fs now t)"
    if "ra_frames t = [(f, Complete out fs)]" "ra_ready t = R" "ra_stream t = stream" for t R
    using that by (simp add: handed_over_def deliver_def record_delivery_def Let_def)
  then show ?thesis using frames need out empty stream
    by (cases "ra_need s") (simp_all add: drain.simps [of now s] admits_def om_retain_def Let_def)
qed

lemma evict_small: "length (ra_frames s) \<le> cf_max_pending (ra_cfg s) \<Longrightarrow> evict now s = s"
  by (simp add: evict.simps [of now s])

lemma store_waiting:
  assumes op: "opened stream f pieces ly fl ready I s" and i: "i < length pieces" "i \<notin> I" "unat (mh_index h) = i"
    and ok: "pieces_ok pieces ly" and h: "unat (mh_data_count h) = ly_data_count ly"
      "unat (mh_parity_count h) = ly_parity_count ly"
    and I: "I \<subseteq> {0..<length pieces}" and few: "card (insert i I) < ly_data_count ly"
  shows "waiting stream f pieces ly fl ready (insert i I) (fst (store_fragment rs_dec h (pieces ! i) f now s))"
proof -
  obtain p where frames: "ra_frames s = [(f, Partial p)]" and g: "gathered pieces ly fl I p"
    using op by (auto simp: opened_def)
  have len: "length (pieces ! i) = ly_shard_bytes ly" using ok i by (simp add: pieces_ok_def)
  note g' = gathered_insert [OF g i len, of now]
  have part: "\<not> partial_complete (add_shard h (pieces ! i) now p)"
    using gathered_complete [OF g'] I i few by auto
  let ?s = "s\<lparr>ra_frames := [(f, Partial (add_shard h (pieces ! i) now p))]\<rparr>"
  have "evict now (drain now ?s) = ?s"
    using op drain_partial [of ?s f _ fl now] by (simp add: opened_def evict_small)
  then have "fst (store_fragment rs_dec h (pieces ! i) f now s) = ?s"
    using frames g i len part ok
    by (simp add: store_fragment_def Let_def h gathered_def pieces_total [OF ok])
  then show ?thesis using op g' by (auto simp: waiting_def opened_def)
qed

lemma store_complete:
  assumes op: "opened stream f pieces ly fl ready I s" and i: "i < length pieces" "i \<notin> I" "unat (mh_index h) = i"
    and ok: "pieces_ok pieces ly" and h: "unat (mh_data_count h) = ly_data_count ly"
      "unat (mh_parity_count h) = ly_parity_count ly"
    and I: "I \<subseteq> {0..<length pieces}" and enough: "ly_data_count ly \<le> card (insert i I)"
    and asm: "\<And>p. gathered pieces ly fl (insert i I) p \<Longrightarrow>
      \<exists>out. assemble rs_dec f p now = Some out \<and> Q out \<and>
        fi_keyframe (fo_info out) = has_flag fl KEYFRAME \<and>
        fi_ltr_refresh (fo_info out) = has_flag fl LTR_REFRESH"
  shows "\<exists>out hold. Q out \<and> handed_over stream f (ready @ [out\<lparr>fo_hold := hold\<rparr>])
    (fst (store_fragment rs_dec h (pieces ! i) f now s))"
proof -
  obtain p where frames: "ra_frames s = [(f, Partial p)]" and g: "gathered pieces ly fl I p"
    using op by (auto simp: opened_def)
  have len: "length (pieces ! i) = ly_shard_bytes ly" using ok i by (simp add: pieces_ok_def)
  let ?p = "add_shard h (pieces ! i) now p"
  note g' = gathered_insert [OF g i len, of now]
  have full: "partial_complete ?p" using gathered_complete [OF g'] I i enough by auto
  obtain out where out: "assemble rs_dec f ?p now = Some out" "Q out"
    "fi_keyframe (fo_info out) = has_flag fl KEYFRAME"
    "fi_ltr_refresh (fo_info out) = has_flag fl LTR_REFRESH"
    using asm [OF g'] by blast
  let ?s = "finish rs_dec f now (s\<lparr>ra_frames := [(f, Partial ?p)]\<rparr>)"
  have fin: "ra_frames ?s = [(f, Complete out (pa_first_seen ?p))]" "ra_need ?s = ra_need s"
    "ra_ready ?s = ready" "ra_cfg ?s = ra_cfg s" "ra_stream ?s = stream"
    using op out(1)
    by (simp_all add: finish_def Let_def opened_def count_lost_datagrams_def count_finished_def)
  have over: "handed_over stream f (ready @ [out\<lparr>fo_hold := since now (pa_first_seen ?p)\<rparr>]) (drain now ?s)"
    using drain_complete [OF fin(1), of fl stream now] fin op out by (simp add: opened_def)
  then have "evict now (drain now ?s) = drain now ?s" by (simp add: handed_over_def evict_small)
  then have "fst (store_fragment rs_dec h (pieces ! i) f now s) = drain now ?s"
    using frames g i len full ok
    by (simp add: store_fragment_def Let_def h gathered_def pieces_total [OF ok])
  then show ?thesis using over out(2) by metis
qed

section \<open>Any order, any selection\<close>

lemma ingest_waiting:
  assumes w: "waiting stream (unat frame) pieces ly fl ready I s" and ok: "pieces_ok pieces ly"
    and c: "carries stream frame pieces ly fl i dg" and i: "i \<notin> I" and I: "I \<subseteq> {0..<length pieces}"
    and asm: "\<And>p. gathered pieces ly fl (insert i I) p \<Longrightarrow> ly_data_count ly \<le> card (insert i I) \<Longrightarrow>
      \<exists>out. assemble rs_dec (unat frame) p now = Some out \<and> Q out \<and>
        fi_keyframe (fo_info out) = has_flag fl KEYFRAME \<and>
        fi_ltr_refresh (fo_info out) = has_flag fl LTR_REFRESH"
  defines "t \<equiv> fst (ingest rs_dec dg now s)"
  shows "if card (insert i I) < ly_data_count ly
    then waiting stream (unat frame) pieces ly fl ready (insert i I) t
    else \<exists>out hold. Q out \<and> handed_over stream (unat frame) (ready @ [out\<lparr>fo_hold := hold\<rparr>]) t"
proof -
  obtain h where h: "header_parse dg = Some (h, pieces ! i)" "mh_stream h = stream" "mh_frame h = frame"
    "unat (mh_index h) = i" "unat (mh_data_count h) = ly_data_count ly"
    "unat (mh_parity_count h) = ly_parity_count ly"
    "header_kind h = Some (if i < ly_data_count ly then VideoData else VideoParity)"
    "same_flags (mh_flags h) fl" and il: "i < length pieces"
    using c by (auto simp: carries_def)
  let ?s = "settle_silence h now s\<lparr>ra_any_arrived := True\<rparr>"
  have ws: "waiting stream (unat frame) pieces ly fl ready I ?s"
    using waiting_settle [OF w, of h now] by (simp add: waiting_def)
  note valid = carries_valid [OF ok il h(4-7)]
  have len: "length (pieces ! i) = ly_shard_bytes ly" using ok il by (simp add: pieces_ok_def)
  note op = waiting_open [OF ws [folded h(3)] ok h(5,6,8) valid len, unfolded h(3), of now]
  have t: "t = fst (store_fragment rs_dec h (pieces ! i) (unat frame) now
      (open_slot h (pieces ! i) (unat frame) now (mark_previous h (unat frame) ?s)))"
    using ws h valid op w unfolding t_def
    by (auto simp: ingest_def ingest_video_def Let_def waiting_def split: option.splits)
  show ?thesis
    using store_waiting [OF conjunct2 [OF op] il i h(4) ok h(5,6) I]
      store_complete [OF conjunct2 [OF op] il i h(4) ok h(5,6) I _ asm]
    unfolding t by (auto simp: not_less)
qed

lemma ingest_handed:
  assumes d: "handed_over stream (unat frame) ready s" and c: "carries stream frame pieces ly fl i dg"
  shows "handed_over stream (unat frame) ready (fst (ingest rs_dec dg now s))"
proof -
  obtain h where h: "header_parse dg = Some (h, pieces ! i)" "mh_stream h = stream" "mh_frame h = frame"
    "header_kind h = Some (if i < ly_data_count ly then VideoData else VideoParity)"
    using c by (auto simp: carries_def)
  have "handed_over stream (unat frame) ready (settle_silence h now s\<lparr>ra_any_arrived := True\<rparr>)"
    using handed_settle [OF d, of h now] by (simp add: handed_over_def)
  then show ?thesis using d h
    by (auto simp: ingest_def ingest_video_def Let_def handed_over_def)
qed

text \<open>Datagrams fed one after the other, each at its time of arrival.\<close>

definition feed :: "rs_decoder \<Rightarrow> (byte list \<times> instant) list \<Rightarrow> reassembler \<Rightarrow> reassembler" where
  "feed rs_dec arrivals s = fold (\<lambda>(dg, now) s. fst (ingest rs_dec dg now s)) arrivals s"

lemma feed_handed:
  assumes "handed_over stream (unat frame) ready s"
    and "\<forall>(i, dg, now) \<in> set as. carries stream frame pieces ly fl i dg"
  shows "handed_over stream (unat frame) ready (feed rs_dec (map snd as) s)"
  using assms by (induction as arbitrary: s) (auto simp: feed_def ingest_handed)

lemma feed_delivers:
  assumes w: "waiting stream (unat frame) pieces ly fl ready I s" and ok: "pieces_ok pieces ly"
    and c: "\<forall>(i, dg, now) \<in> set as. carries stream frame pieces ly fl i dg"
    and I: "I \<subseteq> {0..<length pieces}" and few: "card I < ly_data_count ly"
    and dist: "distinct (map fst as)" "I \<inter> fst ` set as = {}"
    and enough: "ly_data_count ly \<le> card I + length as"
    and asm: "\<And>I p now. gathered pieces ly fl I p \<Longrightarrow> I \<subseteq> {0..<length pieces} \<Longrightarrow>
      ly_data_count ly \<le> card I \<Longrightarrow> \<exists>out. assemble rs_dec (unat frame) p now = Some out \<and> Q out \<and>
        fi_keyframe (fo_info out) = has_flag fl KEYFRAME \<and>
        fi_ltr_refresh (fo_info out) = has_flag fl LTR_REFRESH"
  shows "\<exists>out hold. Q out \<and> handed_over stream (unat frame) (ready @ [out\<lparr>fo_hold := hold\<rparr>])
    (feed rs_dec (map snd as) s)"
  using w c I few dist enough
proof (induction as arbitrary: I s)
  case Nil
  then show ?case by simp
next
  case (Cons a as)
  obtain i dg now where a: "a = (i, dg, now)" by (cases a) auto
  let ?t = "fst (ingest rs_dec dg now s)"
  have carries: "carries stream frame pieces ly fl i dg" and iI: "i \<notin> I" and il: "i < length pieces"
    using Cons.prems a by (auto simp: carries_def)
  have sub: "insert i I \<subseteq> {0..<length pieces}" using Cons.prems(3) il by simp
  have card: "card (insert i I) = Suc (card I)"
    using iI Cons.prems(3) finite_subset by (metis card_insert_disjoint finite_atLeastLessThan)
  note step = ingest_waiting [OF Cons.prems(1) ok carries iI Cons.prems(3) asm [OF _ sub]]
  have tail: "feed rs_dec (map snd (a # as)) s = feed rs_dec (map snd as) ?t" by (simp add: feed_def a)
  show ?case
  proof (cases "card (insert i I) < ly_data_count ly")
    case True
    then have "waiting stream (unat frame) pieces ly fl ready (insert i I) ?t" using step [of now] by simp
    from Cons.IH [OF this _ sub True] show ?thesis
      using Cons.prems(2,5,6,7) a card unfolding tail by (auto simp: image_iff)
  next
    case False
    then obtain out hold where "Q out" "handed_over stream (unat frame) (ready @ [out\<lparr>fo_hold := hold\<rparr>]) ?t"
      using step [of now] by auto
    then show ?thesis using feed_handed Cons.prems(2) unfolding tail by fastforce
  qed
qed

section \<open>What was sent is what is delivered\<close>

lemma has_flag_or_other: "f AND g = 0 \<Longrightarrow> has_flag (x OR f) g = has_flag x g"
  by (simp add: has_flag_def word_ao_dist)

lemma same_flags_retransmit: "same_flags x fl \<Longrightarrow> same_flags (x OR RETRANSMIT) fl"
  by (simp add: same_flags_def has_flag_or_other flag_values)

lemma sent_carries:
  assumes good: "layout_good len cap ly" and rec: "length recovery = ly_parity_count ly"
    and i: "i < ly_data_count ly + ly_parity_count ly"
  shows "carries (pk_stream pk) (pk_next_frame pk) (frame_shards pk frame ly @ recovery) ly
    (frame_flags frame (pk_previous_discardable pk)) i
    (let d = sf_datagrams (sent_of pk frame ms ly recovery) ! i in if again then retransmission d else d)"
proof -
  let ?h = "(frame_header pk frame ms ly)\<lparr>mh_index := word_of_nat i,
       mh_kind := kind_byte (if i < ly_data_count ly then VideoData else VideoParity)\<rparr>"
  let ?p = "(frame_shards pk frame ly @ recovery) ! i"
  let ?d = "sf_datagrams (sent_of pk frame ms ly recovery) ! i"
  have b: "ly_data_count ly \<le> 32768" "ly_parity_count ly \<le> 255"
    using good by (simp_all add: layout_good_def layout_simps)
  have p: "?d = header_bytes ?h @ ?p"
    unfolding sent_of_nth [OF rec good i] using frame_shards_sized(1) [OF good]
    by (simp add: nth_append)
  have parse: "header_parse ?d = Some (?h, ?p)"
    unfolding p by (rule header_parse_bytes) (simp add: frame_header_def)
  have "same_flags (frame_flags frame pd) (frame_flags frame pd)" for pd by (simp add: same_flags_def)
  then show ?thesis using parse retransmission_parse [OF parse] b i rec frame_shards_sized(1) [OF good, of pk frame]
    by (auto simp: carries_def Let_def frame_header_def unat_word_small header_kind_def
        kind_from_byte intro: same_flags_retransmit)
qed

text \<open>Enough pieces of a sent frame assemble to what the encoder produced.\<close>

lemma sent_assembles:
  assumes ly: "layout_of (length (ef_data frame)) (pk_parity_permille pk) (pk_max_payload pk) = Inr ly"
    and enc: "if ly_parity_count ly = 0 then recovery = []
     else rs_enc (ly_data_count ly) (ly_parity_count ly) (ly_shard_bytes ly)
            (frame_shards pk frame ly) = Some recovery"
    and rs: "rs_recovers rs_enc rs_dec"
    and g: "gathered (frame_shards pk frame ly @ recovery) ly
        (frame_flags frame (pk_previous_discardable pk)) I p"
      "I \<subseteq> {0..<length (frame_shards pk frame ly @ recovery)}" "ly_data_count ly \<le> card I"
  shows "\<exists>out. assemble rs_dec (unat (pk_next_frame pk)) p now = Some out \<and> out_matches pk frame out \<and>
    fi_keyframe (fo_info out) = has_flag (frame_flags frame (pk_previous_discardable pk)) KEYFRAME \<and>
    fi_ltr_refresh (fo_info out) = has_flag (frame_flags frame (pk_previous_discardable pk)) LTR_REFRESH"
proof -
  note good = layout_of_good [OF ly]
  note cap = conjunct1 [OF conjunct2 [OF payload_cap_bounds]]
  have body: "assemble_body rs_dec p = Some (concat (frame_shards pk frame ly))"
    using enc by (intro restored_body [OF g frame_shards_sized [OF good] _ rs]) (simp split: if_splits)
  have fl: "same_flags (pa_flags p) (frame_flags frame (pk_previous_discardable pk))"
    using g(1) by (simp add: gathered_def)
  obtain out where "assemble rs_dec (unat (pk_next_frame pk)) p now = Some out" "out_matches pk frame out"
    using assemble_exact [OF body good cap fl] by blast
  then show ?thesis by (auto simp: out_matches_def frame_flags_bits)
qed

lemma sent_pieces_ok:
  assumes ly: "layout_of (length (ef_data frame)) (pk_parity_permille pk) (pk_max_payload pk) = Inr ly"
    and rec: "length recovery = ly_parity_count ly" "\<forall>r \<in> set recovery. length r = ly_shard_bytes ly"
  shows "pieces_ok (frame_shards pk frame ly @ recovery) ly"
proof -
  note good = layout_of_good [OF ly]
  have "\<exists>len cap. cap \<le> MAX_PAYLOAD \<and> layout_good len cap ly"
    using good payload_cap_bounds by blast
  then show ?thesis using frame_shards_sized [OF good, of pk frame] rec by (auto simp: pieces_ok_def)
qed

text \<open>An arrival: a fragment's index, whether it is the retransmitted copy, and when.\<close>

definition arrival :: "sent_frame \<Rightarrow> nat \<times> bool \<times> instant \<Rightarrow> byte list \<times> instant" where
  "arrival sent a = (case a of (i, again, now) \<Rightarrow>
     (let d = sf_datagrams sent ! i in if again then retransmission d else d, now))"

text \<open>What the receiver needs to know of a sent frame: its pieces, what carries them, what they assemble to.\<close>

lemma sent_pieces:
  assumes sent: "snd (snd (packetize rs_enc pk frame ms)) = Inr sent"
    and rs: "rs_sized rs_enc" "rs_recovers rs_enc rs_dec"
  obtains pieces where "pieces_ok pieces (sf_layout sent)" "length (sf_datagrams sent) = length pieces"
    "0 < ly_data_count (sf_layout sent)" "sent_ok (pk_stream pk) sent"
    "\<And>i again now. i < length pieces \<Longrightarrow> carries (pk_stream pk) (pk_next_frame pk) pieces (sf_layout sent)
       (frame_flags frame (pk_previous_discardable pk)) i (fst (arrival sent (i, again, now)))"
    "\<And>I p now. gathered pieces (sf_layout sent) (frame_flags frame (pk_previous_discardable pk)) I p \<Longrightarrow>
       I \<subseteq> {0..<length pieces} \<Longrightarrow> ly_data_count (sf_layout sent) \<le> card I \<Longrightarrow>
       \<exists>out. assemble rs_dec (unat (pk_next_frame pk)) p now = Some out \<and> out_matches pk frame out \<and>
         fi_keyframe (fo_info out) = has_flag (frame_flags frame (pk_previous_discardable pk)) KEYFRAME \<and>
         fi_ltr_refresh (fo_info out) = has_flag (frame_flags frame (pk_previous_discardable pk)) LTR_REFRESH"
proof -
  obtain pk' shipped where run: "packetize rs_enc pk frame ms = (pk', shipped, Inr sent)"
    using sent by (metis prod.collapse)
  from packetize_sent [OF run rs(1)] obtain ly recovery where
    ly: "layout_of (length (ef_data frame)) (pk_parity_permille pk) (pk_max_payload pk) = Inr ly"
    and so: "sent = sent_of pk frame ms ly recovery"
    and enc: "if ly_parity_count ly = 0 then recovery = []
     else rs_enc (ly_data_count ly) (ly_parity_count ly) (ly_shard_bytes ly)
            (frame_shards pk frame ly) = Some recovery"
    and rec: "length recovery = ly_parity_count ly" "\<forall>r \<in> set recovery. length r = ly_shard_bytes ly"
    by metis
  note good = layout_of_good [OF ly]
  let ?pieces = "frame_shards pk frame ly @ recovery"
  have len: "length (sf_datagrams sent) = length ?pieces" "sf_layout sent = ly"
      "length ?pieces = ly_data_count ly + ly_parity_count ly"
    using frame_shards_sized [OF good] rec by (simp_all add: so sent_of_def)
  show thesis
  proof (rule that [of ?pieces, unfolded len(2)])
    show "pieces_ok ?pieces ly" by (rule sent_pieces_ok [OF ly rec])
    show "0 < ly_data_count ly" using good by (simp add: layout_good_def)
    show "sent_ok (pk_stream pk) sent" unfolding so by (rule sent_of_ok [OF ly rec])
    show "carries (pk_stream pk) (pk_next_frame pk) ?pieces ly (frame_flags frame (pk_previous_discardable pk)) i
        (fst (arrival sent (i, again, now)))" if "i < length ?pieces" for i again now
      using sent_carries [OF good rec(1)] that len(3) by (simp add: so arrival_def)
  qed (use len sent_assembles [OF ly enc rs(2)] in auto)
qed

text \<open>Feeding enough distinct fragments of a sent frame, in any order, delivers it.\<close>

lemma path_lossless:
  assumes sent: "snd (snd (packetize rs_enc pk frame ms)) = Inr sent"
    and rs: "rs_sized rs_enc" "rs_recovers rs_enc rs_dec"
    and s: "ra_stream s = pk_stream pk" "ra_frames s = []" "0 < cf_max_pending (ra_cfg s)"
      "unat (pk_next_frame pk) \<notin> set (ra_given_up s)"
      "\<forall>g. ra_last_good s = Some g \<longrightarrow> g < unat (pk_next_frame pk)"
      "admits (ra_need s) (unat (pk_next_frame pk)) (frame_flags frame (pk_previous_discardable pk))"
    and arrivals: "distinct (map fst arrivals)" "\<forall>a \<in> set arrivals. fst a < length (sf_datagrams sent)"
      "ly_data_count (sf_layout sent) \<le> length arrivals"
  shows "\<exists>out. out_matches pk frame out \<and>
    ra_ready (feed rs_dec (map (arrival sent) arrivals) s) = ra_ready s @ [out]"
proof -
  obtain pieces where ok: "pieces_ok pieces (sf_layout sent)" "length (sf_datagrams sent) = length pieces"
      "0 < ly_data_count (sf_layout sent)"
    and carry: "\<And>i again now. i < length pieces \<Longrightarrow> carries (pk_stream pk) (pk_next_frame pk) pieces
       (sf_layout sent) (frame_flags frame (pk_previous_discardable pk)) i (fst (arrival sent (i, again, now)))"
    and asm: "\<And>I p now. gathered pieces (sf_layout sent) (frame_flags frame (pk_previous_discardable pk)) I p \<Longrightarrow>
       I \<subseteq> {0..<length pieces} \<Longrightarrow> ly_data_count (sf_layout sent) \<le> card I \<Longrightarrow>
       \<exists>out. assemble rs_dec (unat (pk_next_frame pk)) p now = Some out \<and> out_matches pk frame out \<and>
         fi_keyframe (fo_info out) = has_flag (frame_flags frame (pk_previous_discardable pk)) KEYFRAME \<and>
         fi_ltr_refresh (fo_info out) = has_flag (frame_flags frame (pk_previous_discardable pk)) LTR_REFRESH"
    by (rule sent_pieces [OF sent rs]) blast
  let ?fl = "frame_flags frame (pk_previous_discardable pk)"
  let ?as = "map (\<lambda>a. (fst a, arrival sent a)) arrivals"
  have c: "\<forall>(i, dg, now) \<in> set ?as. carries (pk_stream pk) (pk_next_frame pk) pieces (sf_layout sent) ?fl i dg"
    using arrivals(2) ok(2) carry by (fastforce simp: arrival_def)
  have w: "waiting (pk_stream pk) (unat (pk_next_frame pk)) pieces (sf_layout sent) ?fl (ra_ready s) {} s"
    using s by (simp add: waiting_def)
  have maps: "map fst ?as = map fst arrivals" "map snd ?as = map (arrival sent) arrivals" by simp_all
  have "\<exists>out hold. out_matches pk frame out \<and> handed_over (pk_stream pk) (unat (pk_next_frame pk))
      (ra_ready s @ [out\<lparr>fo_hold := hold\<rparr>]) (feed rs_dec (map snd ?as) s)"
    by (rule feed_delivers [OF w ok(1) c])
       (use asm arrivals ok(3) maps(1) in \<open>auto simp: image_iff comp_def\<close>)
  then show ?thesis unfolding maps by (auto simp: handed_over_def out_matches_def)
qed

section \<open>A concrete engine\<close>

text \<open>
  Repetition: for a single data fragment every recovery shard is a copy of it. It shows that an
  engine as assumed exists, and lets the path be run.
\<close>

definition repeat_enc :: rs_encoder where
  "repeat_enc k m b originals =
     (if k = 1 \<and> length originals = 1 \<and> length (hd originals) = b then Some (replicate m (hd originals))
      else None)"

definition repeat_dec :: rs_decoder where
  "repeat_dec k m b originals recoveries = (case originals @ recoveries of [] \<Rightarrow> None
     | x # _ \<Rightarrow> Some (\<lambda>_. Some (snd x)))"

lemma received_iff: "(i, b) \<in> set (received xs) \<longleftrightarrow> i < length xs \<and> xs ! i = Some b"
  by (auto simp: received_def image_iff in_set_enumerate_eq)

lemma repeat_sized: "rs_sized repeat_enc"
  by (auto simp: rs_sized_def repeat_enc_def)

lemma repeat_recovers: "rs_recovers repeat_enc repeat_dec"
proof -
  have "\<exists>restored. repeat_dec k m b (received (take k (pieces_in I (originals @ recovery))))
        (received (drop k (pieces_in I (originals @ recovery)))) = Some restored \<and>
      (\<forall>i < k. i \<notin> I \<longrightarrow> restored i = Some (originals ! i))"
    if enc: "repeat_enc k m b originals = Some recovery" and I: "I \<subseteq> {0..<k + m}" "k \<le> card I"
    for k m b originals recovery I
  proof -
    obtain x where x: "k = 1" "originals = [x]" "recovery = replicate m x"
      using enc by (cases originals) (auto simp: repeat_enc_def split: if_splits)
    let ?got = "received (take k (pieces_in I (originals @ recovery)))
      @ received (drop k (pieces_in I (originals @ recovery)))"
    have nth: "(x # replicate m x) ! j = x" if "j < Suc m" for j using that by (cases j) simp_all
    have same: "snd e = x" if e: "e \<in> set ?got" for e
    proof -
      obtain j b where jb: "e = (j, b)" by (cases e)
      have "Some b \<in> set (pieces_in I (originals @ recovery))"
        using e unfolding jb set_append Un_iff received_iff
        by (metis in_set_dropD in_set_takeD nth_mem)
      then show ?thesis using nth jb by (auto simp: pieces_in_def x split: if_splits)
    qed
    have "I \<noteq> {}" using I(2) x by auto
    then obtain i where i: "i \<in> I" by blast
    then have "i < Suc m" using I(1) x by auto
    note i = i this
    have "?got \<noteq> []"
    proof (cases "i = 0")
      case True
      then have "(0, x) \<in> set ?got" using i by (auto simp: received_iff x)
      then show ?thesis by (metis empty_iff empty_set)
    next
      case False
      then have "(i - 1, x) \<in> set ?got" using i nth [of i] by (auto simp: received_iff x)
      then show ?thesis by (metis empty_iff empty_set)
    qed
    then obtain e es where got: "?got = e # es" by (cases ?got) auto
    then have "snd e = x" using same by (metis list.set_intros(1))
    then show ?thesis using got x by (auto simp: repeat_dec_def)
  qed
  then show ?thesis unfolding rs_recovers_def Let_def by blast
qed

definition demo_frame :: encoded_frame where
  "demo_frame = \<lparr>ef_data = [1, 2, 3], ef_keyframe = True, ef_ltr_token = None, ef_ltr_refresh = False,
     ef_discardable = False, ef_capture_ts_us = 5, ef_stripes = 1, ef_region = None\<rparr>"
definition demo_sent :: sent_frame where
  "demo_sent = projr (snd (snd (packetize repeat_enc (packetizer_new 7) demo_frame 0)))"

lemma demo_layout:
  "layout_of (length (ef_data demo_frame)) (pk_parity_permille (packetizer_new 7))
     (pk_max_payload (packetizer_new 7)) = Inr \<lparr>ly_data_count = 1, ly_shard_bytes = 32, ly_parity_count = 2\<rparr>"
  by (simp add: demo_frame_def packetizer_new_def layout_of_def layout_simps payload_cap_def
      even_down_def clamp_def sat_add_def sat_mul_def umax_def div_ceil_def next_multiple_of_def
      to_width_def Let_def)

lemma demo_sent:
  "snd (snd (packetize repeat_enc (packetizer_new 7) demo_frame 0)) = Inr demo_sent"
  "sf_layout demo_sent = \<lparr>ly_data_count = 1, ly_shard_bytes = 32, ly_parity_count = 2\<rparr>"
  "length (sf_datagrams demo_sent) = 3"
proof -
  let ?ly = "\<lparr>ly_data_count = 1, ly_shard_bytes = 32, ly_parity_count = 2\<rparr>"
  have "repeat_enc 1 2 32 (frame_shards (packetizer_new 7) demo_frame ?ly) \<noteq> None"
    using frame_shards_sized [OF layout_of_good [OF demo_layout], of "packetizer_new 7" demo_frame]
    by (auto simp: repeat_enc_def length_Suc_conv)
  then obtain s where "snd (snd (packetize repeat_enc (packetizer_new 7) demo_frame 0)) = Inr s" "sf_layout s = ?ly" "length (sf_datagrams s) = 3"
    using packetize_succeeds [OF demo_layout, of repeat_enc 0] by auto
  then show "snd (snd (packetize repeat_enc (packetizer_new 7) demo_frame 0)) = Inr demo_sent"
    "sf_layout demo_sent = ?ly" "length (sf_datagrams demo_sent) = 3"
    by (simp_all add: demo_sent_def)
qed

text \<open>The demo's reassembler waits for exactly the demo's frame.\<close>

lemma demo_admits:
  "admits (ra_need (reassembler_new 7 config_default 0)) (unat (pk_next_frame (packetizer_new 7)))
     (frame_flags demo_frame (pk_previous_discardable (packetizer_new 7)))"
  by (simp add: admits_def frame_flags_bits demo_frame_def)

lemma demo_delivered:
  assumes "distinct (map fst as)" "\<forall>a \<in> set as. fst a < 3" "as \<noteq> []"
  shows "\<exists>out. out_matches (packetizer_new 7) demo_frame out \<and>
     ra_ready (feed repeat_dec (map (arrival demo_sent) as) (reassembler_new 7 config_default 0)) = [out]"
proof -
  have "\<exists>out. out_matches (packetizer_new 7) demo_frame out \<and>
     ra_ready (feed repeat_dec (map (arrival demo_sent) as)
       (reassembler_new 7 config_default 0)) = ra_ready (reassembler_new 7 config_default 0) @ [out]"
    using assms
    by (intro path_lossless [OF demo_sent(1) repeat_sized repeat_recovers])
       (use demo_admits in \<open>simp_all add: demo_sent packetizer_new_def config_default_def Suc_leI\<close>)
  then show ?thesis by simp
qed

lemma demo_frame_number:
  assumes "i < 3"
  shows "datagram_frame (fst (arrival demo_sent (i, again, now))) = 0"
proof -
  obtain pieces where p: "length (sf_datagrams demo_sent) = length pieces"
    "\<And>i again now. i < length pieces \<Longrightarrow> carries (pk_stream (packetizer_new 7)) (pk_next_frame (packetizer_new 7)) pieces
       (sf_layout demo_sent) (frame_flags demo_frame (pk_previous_discardable (packetizer_new 7))) i
       (fst (arrival demo_sent (i, again, now)))"
    by (rule sent_pieces [OF demo_sent(1) repeat_sized repeat_recovers]) blast
  show ?thesis using p(2) [of i again now] p(1) assms demo_sent(3)
    by (auto simp: carries_def datagram_frame_def packetizer_new_def)
qed

end
