(* ===== verification/Reassemble_Policy.thy ===== *)
theory Reassemble_Policy
  imports Reassemble_Runs
begin

text \<open>
  The reassembler's policy: how much it keeps, what it asks for again, what it does with a frame that
  nothing refers to, and what its reports carry.
\<close>

section \<open>Bounded memory\<close>

lemma evict_cfg: "ra_cfg (evict now s) = ra_cfg s"
  by (rule evict_induct [where Q = "\<lambda>s t. ra_cfg t = ra_cfg s"]) (simp_all add: core_lose)

lemma ingest_video_bound:
  assumes "snd (ingest_video rs_dec h payload now s) = IVideo"
  shows "length (ra_frames (fst (ingest_video rs_dec h payload now s)))
    \<le> cf_max_pending (ra_cfg (fst (ingest_video rs_dec h payload now s)))"
  using assms evict_bound
  by (auto simp: ingest_video_def store_fragment_def Let_def evict_cfg
      split: if_splits option.splits slot.splits)

lemma ingest_IVideo:
  assumes "snd (ingest rs_dec datagram now s) = IVideo"
  obtains h payload where "ingest rs_dec datagram now s = ingest_video rs_dec h payload now (settle_silence h now s)"
proof (cases "header_parse datagram")
  case None
  then show thesis using assms by (simp add: ingest_def)
next
  case (Some hp)
  obtain h payload where hp: "hp = (h, payload)" by (cases hp)
  show thesis using assms that [of h payload]
    by (auto simp: ingest_def Some hp Let_def split: if_splits option.splits kind.splits)
qed

text \<open>
  C29. Memory is bounded: after every video fragment that was taken in, at most
  \<open>Config::max_pending\<close> frames are being assembled, whatever numbers and flags the datagrams carry.
\<close>

theorem pending_frames_bounded:
  assumes "snd (ingest rs_dec datagram now s) = IVideo"
  shows "length (ra_frames (fst (ingest rs_dec datagram now s)))
    \<le> cf_max_pending (ra_cfg (fst (ingest rs_dec datagram now s)))"
proof -
  obtain h payload where
    eq: "ingest rs_dec datagram now s = ingest_video rs_dec h payload now (settle_silence h now s)"
    by (rule ingest_IVideo [OF assms])
  show ?thesis unfolding eq by (rule ingest_video_bound) (use assms eq in simp)
qed

section \<open>What is asked for again\<close>

fun is_nack :: "action \<Rightarrow> bool" where
  "is_nack (Nack _ _) = True"
| "is_nack _ = False"

text \<open>Outside the pass of a tick only refreshes are asked for.\<close>

definition no_nacks :: "reassembler \<Rightarrow> bool" where
  "no_nacks s \<longleftrightarrow> (\<forall>a \<in> set (ra_actions s). \<not> is_nack a)"

lemma actions_simps [simp]:
  "ra_actions (count_lost_datagrams k s) = ra_actions s" "ra_actions (give_up f s) = ra_actions s"
  "ra_actions (skip f k s) = ra_actions s"
  "ra_actions (record_delivery out now s) = ra_actions s" "ra_actions (deliver f out fs now s) = ra_actions s"
  "ra_actions (count_finished out p s) = ra_actions s"
  by (simp_all add: count_lost_datagrams_def give_up_def skip_def record_delivery_def deliver_def
      count_finished_def Let_def)

lemma request_actions [simp]:
  "ra_actions (request_refresh now again s) =
     ra_actions s @ [RequestRefresh (opt_or (ra_last_good s) 0) (ra_need s = NeedKeyframe)]"
  "ra_actions (enter_refresh now s) = ra_actions s @ [RequestRefresh (opt_or (ra_last_good s) 0) False]"
  by (simp_all add: request_refresh_def enter_refresh_def Let_def)

lemma lose_actions:
  "\<exists>rs. ra_actions (lose f k now s) = ra_actions s @ rs \<and> (\<forall>a \<in> set rs. \<not> is_nack a)"
  by (auto simp: lose_def Let_def split: need.splits)

lemma fold_lose_actions:
  "\<exists>rs. ra_actions (fold (\<lambda>(f, k) s. lose f k now s) fs s) = ra_actions s @ rs \<and> (\<forall>a \<in> set rs. \<not> is_nack a)"
proof (induction fs arbitrary: s)
  case Nil
  then show ?case by simp
next
  case (Cons e fs)
  obtain f k where e: "e = (f, k)" by (cases e)
  obtain rs where rs: "ra_actions (lose f k now s) = ra_actions s @ rs" "\<forall>a \<in> set rs. \<not> is_nack a"
    using lose_actions by blast
  obtain rs' where "ra_actions (fold (\<lambda>(f, k) s. lose f k now s) fs (lose f k now s))
      = ra_actions (lose f k now s) @ rs'" "\<forall>a \<in> set rs'. \<not> is_nack a" using Cons.IH by blast
  then show ?case using rs by (intro exI [of _ "rs @ rs'"]) (auto simp: e)
qed

lemma drain_actions: "ra_actions (drain now s) = ra_actions s"
  by (rule drain_induct [where Q = "\<lambda>s t. ra_actions t = ra_actions s"]) simp_all

lemma tick_refresh_actions:
  "\<exists>rs. ra_actions (tick_refresh now rtt e s) = ra_actions s @ rs \<and> (\<forall>a \<in> set rs. \<not> is_nack a)"
  by (auto simp: tick_refresh_def Let_def split: option.splits)

text \<open>A tick's actions: what was pending, the pass's NACKs in frame order, then refreshes only.\<close>

lemma tick_actions:
  fixes now rtt s
  defines "e \<equiv> tick_env_of now rtt (tick_clock now rtt s)"
  obtains rs where "snd (tick now rtt s) = ra_actions s
      @ concat (map (\<lambda>(f, u). fst (snd (tick_slot e f u))) (ra_frames s)) @ rs"
    and "\<forall>a \<in> set rs. \<not> is_nack a"
proof -
  let ?t = "fold (\<lambda>(f, k) s. lose f k now s) (tick_lost now rtt s) (tick_pass now rtt s)"
  obtain rs1 where 1: "ra_actions ?t = ra_actions (tick_pass now rtt s) @ rs1" "\<forall>a \<in> set rs1. \<not> is_nack a"
    using fold_lose_actions by blast
  obtain rs2 where 2: "ra_actions (tick_refresh now rtt e ?t) = ra_actions ?t @ rs2" "\<forall>a \<in> set rs2. \<not> is_nack a"
    using tick_refresh_actions by blast
  have "ra_actions (tick_pass now rtt s) = ra_actions s
      @ concat (map (\<lambda>(f, u). fst (snd (tick_slot e f u))) (ra_frames s))"
    by (simp add: tick_pass_def e_def Let_def)
  then have "snd (tick now rtt s) = ra_actions s
      @ concat (map (\<lambda>(f, u). fst (snd (tick_slot e f u))) (ra_frames s)) @ rs1 @ rs2"
    using 1(1) 2(1) by (simp add: tick_eq Let_def drain_actions e_def)
  then show thesis using that [of "rs1 @ rs2"] 1(2) 2(2) by auto
qed


section \<open>NACKs leave with the tick that asks\<close>

lemma no_nacks_simps [simp]:
  "no_nacks (s\<lparr>ra_frames := m\<rparr>) = no_nacks s" "no_nacks (s\<lparr>ra_need := n\<rparr>) = no_nacks s"
  "no_nacks (s\<lparr>ra_stats := st\<rparr>) = no_nacks s" "no_nacks (s\<lparr>ra_any_arrived := b\<rparr>) = no_nacks s"
  by (simp_all add: no_nacks_def)

lemma no_nacks_lose: "no_nacks s \<Longrightarrow> no_nacks (lose f k now s)"
  using lose_actions [of f k now s] by (auto simp: no_nacks_def)

lemma no_nacks_evict: "no_nacks s \<Longrightarrow> no_nacks (evict now s)"
proof -
  have "no_nacks s \<longrightarrow> no_nacks (evict now s)"
    by (rule evict_induct) (simp_all add: no_nacks_lose)
  then show "no_nacks s \<Longrightarrow> no_nacks (evict now s)" by blast
qed

lemma no_nacks_drain: "no_nacks s \<Longrightarrow> no_nacks (drain now s)"
  by (simp add: no_nacks_def drain_actions)

lemma no_nacks_finish: "no_nacks s \<Longrightarrow> no_nacks (finish rs_dec f now s)"
proof -
  assume s: "no_nacks s"
  have "no_nacks (count_lost_datagrams k (count_finished out p (s\<lparr>ra_frames := m\<rparr>)))" for k out p m
    using s by (simp add: no_nacks_def)
  then show ?thesis using s
    by (auto simp: finish_def Let_def no_nacks_lose split: option.splits slot.splits)
qed

lemma no_nacks_note_gap: "no_nacks s \<Longrightarrow> note_gap f now s = Some t \<Longrightarrow> no_nacks t"
  by (auto simp: note_gap_def Let_def no_nacks_def split: need.splits if_splits)

lemma stall_actions [simp]:
  "ra_actions (attribute g st d k s) = ra_actions s" "ra_actions (charge_stall now wg s) = ra_actions s"
  "ra_actions (resume now s) = ra_actions s"
  by (simp_all add: attribute_def charge_stall_def resume_def Let_def)

lemma settle_actions [simp]: "ra_actions (settle_silence h now s) = ra_actions s"
  by (simp add: settle_silence_def Let_def)

lemma no_nacks_ingest_video: "no_nacks s \<Longrightarrow> no_nacks (fst (ingest_video rs_dec h payload now s))"
proof -
  assume s: "no_nacks s"
  have "no_nacks (open_slot h payload f now (mark_previous h f t))" if "no_nacks t" for f t
    using that by (auto simp: open_slot_def mark_previous_def no_nacks_def Let_def split: option.splits slot.splits)
  moreover have "no_nacks (fst (store_fragment rs_dec h payload f now t))" if "no_nacks t" for f t
    using that
    by (auto simp: store_fragment_def Let_def no_nacks_evict no_nacks_drain no_nacks_finish
        split: option.splits slot.splits)
  moreover have "no_nacks t" if "note_gap f now (s\<lparr>ra_any_arrived := True\<rparr>) = Some t" for f t
    by (rule no_nacks_note_gap [OF _ that]) (simp add: s)
  ultimately show ?thesis using s by (simp add: ingest_video_def Let_def split: option.splits)
qed

lemma no_nacks_ingest: "no_nacks s \<Longrightarrow> no_nacks (fst (ingest rs_dec dg now s))"
proof -
  assume s: "no_nacks s"
  have settle: "no_nacks (settle_silence h now s)" for h using s by (simp add: no_nacks_def)
  have "no_nacks (t\<lparr>ra_first_lost := a, ra_refresh_requested_at := b\<rparr>) = no_nacks t" for t a b
    by (simp add: no_nacks_def)
  then show ?thesis using s settle no_nacks_ingest_video [OF settle]
    by (auto simp: ingest_def Let_def split: option.splits kind.splits)
qed

lemma no_nacks_tick: "no_nacks (fst (tick now rtt s))"
  by (simp add: tick_eq Let_def no_nacks_def)

lemma no_nacks_run: "ra_run rs_dec stream cfg t0 D H s \<Longrightarrow> no_nacks s"
proof (induction rule: ra_run.induct)
  case new
  then show ?case by (simp add: no_nacks_def)
next
  case (take D H s out s')
  then show ?case by (auto simp: next_frame_def no_nacks_def split: list.splits)
next
  case (force D H s now keyframe)
  then show ?case by (auto simp: force_refresh_def Let_def no_nacks_def)
next
  case (report D H s now late)
  then show ?case by (auto simp: take_report_def charge_stall_def Let_def no_nacks_def)
qed (simp_all add: no_nacks_ingest no_nacks_tick,
     simp_all add: no_nacks_def set_source_live_def ack_ltr_def take_back_def Let_def)

text \<open>The fragments asked for are exactly the data fragments not had.\<close>

lemma missing_data_eq:
  assumes "partial_ok p"
  shows "missing_data p = filter (\<lambda>i. pa_shards p ! i = None) [0..<pa_data_count p]"
proof -
  have len: "length (take (pa_data_count p) (pa_shards p)) = pa_data_count p"
    and small: "pa_data_count p < 2 ^ 16"
    using assms by (simp_all add: partial_ok_def)
  have enum: "enumerate 0 (take (pa_data_count p) (pa_shards p))
      = map (\<lambda>i. (i, pa_shards p ! i)) [0..<pa_data_count p]"
    by (rule nth_equalityI) (use len in \<open>auto simp: nth_enumerate_eq\<close>)
  have "map (\<lambda>i. to_width 16 i) (filter P [0..<pa_data_count p]) = filter P [0..<pa_data_count p]" for P
    using small by (intro map_idI) (auto simp: to_width_def umax_def)
  then show ?thesis by (simp add: missing_data_def enum filter_map comp_def)
qed

lemma tick_slot_nack:
  assumes "Nack f idxs \<in> set (fst (snd (tick_slot e k u)))"
  shows "f = k \<and> snd (snd (tick_slot e k u)) = [] \<and>
    ((\<exists>t n a d. u = Unknown t n a d \<and> idxs = [] \<and> n < te_retries e) \<or>
     (\<exists>p. u = Partial p \<and> idxs = missing_data p \<and> pa_nacks p < te_retries e))"
  using assms by (cases u) (auto split: if_splits)

section \<open>Pending frames are incomplete\<close>

text \<open>A frame whose fragments suffice does not stay pending: it was assembled, or given up on.\<close>

fun short :: "slot \<Rightarrow> bool" where
  "short (Partial p) = (\<not> partial_complete p)"
| "short _ = True"

definition awaits :: "slot omap \<Rightarrow> bool" where
  "awaits m \<longleftrightarrow> (\<forall>k u. om_get m k = Some u \<longrightarrow> short u)"

lemma awaits_ops:
  "awaits []"
  "awaits m \<Longrightarrow> short u \<Longrightarrow> awaits (om_insert k u m)" "awaits m \<Longrightarrow> short u \<Longrightarrow> awaits (om_entry k u m)"
  "awaits m \<Longrightarrow> awaits (om_remove k m)" "awaits m \<Longrightarrow> awaits (om_retain P m)"
  by (auto simp: awaits_def om_simps om_get_def [of "[]"] split: if_splits)

lemma awaits_lose: "awaits (ra_frames s) \<Longrightarrow> awaits (ra_frames (lose f k now s))"
  by (simp add: ra_frames_lose awaits_ops)

lemma awaits_fold_lose:
  "awaits (ra_frames s) \<Longrightarrow> awaits (ra_frames (fold (\<lambda>(f, k) s. lose f k now s) fs s))"
  by (induction fs arbitrary: s) (auto simp: awaits_lose)

lemma awaits_evict: "awaits (ra_frames s) \<Longrightarrow> awaits (ra_frames (evict now s))"
proof -
  have "awaits (ra_frames s) \<longrightarrow> awaits (ra_frames (evict now s))"
    by (rule evict_induct) (simp_all add: awaits_lose awaits_ops)
  then show "awaits (ra_frames s) \<Longrightarrow> awaits (ra_frames (evict now s))" by blast
qed

lemma awaits_drain: "awaits (ra_frames s) \<Longrightarrow> awaits (ra_frames (drain now s))"
proof -
  have "awaits (ra_frames s) \<longrightarrow> awaits (ra_frames (drain now s))"
    by (rule drain_induct) (simp_all add: awaits_ops)
  then show "awaits (ra_frames s) \<Longrightarrow> awaits (ra_frames (drain now s))" by blast
qed

lemma awaits_finish:
  assumes "awaits (om_remove f (ra_frames s))"
  shows "awaits (ra_frames (finish rs_dec f now s))"
  using assms by (auto simp: finish_def Let_def awaits_lose awaits_ops split: option.splits slot.splits)

lemma awaits_store:
  assumes "awaits (ra_frames s)"
  shows "awaits (ra_frames (fst (store_fragment rs_dec h payload f now s)))"
proof -
  have "awaits (ra_frames (if partial_complete p then finish rs_dec f now (s\<lparr>ra_frames := om_insert f (Partial p) (ra_frames s)\<rparr>)
      else s\<lparr>ra_frames := om_insert f (Partial p) (ra_frames s)\<rparr>))" for p
  proof (cases "partial_complete p")
    case True
    have "awaits (om_remove f (om_insert f (Partial p) (ra_frames s)))"
      using assms by (auto simp: awaits_def om_simps)
    then show ?thesis using True awaits_finish [of f "s\<lparr>ra_frames := om_insert f (Partial p) (ra_frames s)\<rparr>"]
      by simp
  next
    case False
    then show ?thesis using assms by (simp add: awaits_ops)
  qed
  then show ?thesis using assms
    by (auto simp: store_fragment_def Let_def awaits_evict awaits_drain split: option.splits slot.splits)
qed

lemma awaits_note_gap: "awaits (ra_frames s) \<Longrightarrow> note_gap f now s = Some t \<Longrightarrow> awaits (ra_frames t)"
proof -
  have "awaits m \<Longrightarrow> awaits (fold (\<lambda>missing m. om_entry missing (slot_unknown now) m) ks m)" for ks m
    by (induction ks arbitrary: m) (simp_all add: awaits_ops slot_unknown_def)
  then show "awaits (ra_frames s) \<Longrightarrow> note_gap f now s = Some t \<Longrightarrow> awaits (ra_frames t)"
    by (auto simp: note_gap_def Let_def awaits_ops split: need.splits if_splits)
qed

lemma awaits_mark: "awaits (ra_frames s) \<Longrightarrow> awaits (ra_frames (mark_previous h f s))"
proof -
  have "short (mark_discardable u)" if "awaits m" "om_get m k = Some u" for m k u
  proof -
    have "short u" using that by (auto simp: awaits_def)
    then show ?thesis by (cases u) (auto simp: partial_complete_def)
  qed
  then show "awaits (ra_frames s) \<Longrightarrow> awaits (ra_frames (mark_previous h f s))"
    by (auto simp: mark_previous_def awaits_ops split: option.splits)
qed

lemma awaits_open:
  assumes "awaits (ra_frames s)" and "video_valid h payload"
  shows "awaits (ra_frames (open_slot h payload f now s))"
proof -
  have "\<not> partial_complete (partial_new h n now d)" for n d
    using assms(2) by (simp add: partial_complete_def partial_new_def video_valid_def Let_def)
  then show ?thesis using assms(1)
    by (auto simp: open_slot_def Let_def awaits_ops slot_unknown_def split: option.splits slot.splits)
qed

lemma awaits_ingest_video:
  assumes "awaits (ra_frames s)"
  shows "awaits (ra_frames (fst (ingest_video rs_dec h payload now s)))"
proof -
  have "awaits (ra_frames t)" if "note_gap f now (s\<lparr>ra_any_arrived := True\<rparr>) = Some t" for f t
    by (rule awaits_note_gap [OF _ that]) (simp add: assms)
  then show ?thesis using assms
    by (simp add: ingest_video_def Let_def awaits_store awaits_open awaits_mark split: option.splits)
qed

text \<open>A pass that keeps each partial frame's fragments keeps what it waits for.\<close>

lemma awaits_pass:
  assumes "awaits m" and "\<And>k u. short u \<Longrightarrow> short (g k u)"
  shows "awaits (map (\<lambda>(k, u). (k, g k u)) m)"
  using assms by (auto simp: awaits_def om_pass)

lemma awaits_resume: "awaits (ra_frames s) \<Longrightarrow> awaits (ra_frames (resume now s))"
proof -
  have "short u \<Longrightarrow> short (resume_slot fresh now u)" for fresh u
    by (cases u) (auto simp: partial_complete_def)
  moreover have "om_map f m = map (\<lambda>(k, u). (k, f u)) m" for f :: "slot \<Rightarrow> slot" and m
    by (simp add: om_map_def split_def)
  ultimately show "awaits (ra_frames s) \<Longrightarrow> awaits (ra_frames (resume now s))"
    by (auto simp: resume_def intro: awaits_pass)
qed

lemma awaits_ingest:
  assumes "awaits (ra_frames s)"
  shows "awaits (ra_frames (fst (ingest rs_dec dg now s)))"
proof -
  have "awaits (ra_frames (settle_silence h now s))" for h
    using assms awaits_resume [of s now] awaits_resume [of "attribute g st d k s" now for g st d k]
    by (simp add: settle_silence_def Let_def)
  then show ?thesis using assms awaits_ingest_video
    by (auto simp: ingest_def Let_def split: option.splits kind.splits)
qed

lemma awaits_tick: "awaits (ra_frames s) \<Longrightarrow> awaits (ra_frames (fst (tick now rtt s)))"
proof -
  have "short u \<Longrightarrow> short (fst (tick_slot e k u))" for e k u
    by (cases u) (auto simp: partial_complete_def)
  then have "awaits (ra_frames s) \<Longrightarrow> awaits (ra_frames (tick_pass now rtt s))"
    by (auto simp: tick_pass_def Let_def intro: awaits_pass)
  then show "awaits (ra_frames s) \<Longrightarrow> awaits (ra_frames (fst (tick now rtt s)))"
    by (simp add: tick_eq Let_def awaits_drain awaits_fold_lose)
qed

lemma awaits_run: "ra_run rs_dec stream cfg t0 D H s \<Longrightarrow> awaits (ra_frames s)"
proof (induction rule: ra_run.induct)
  case (take D H s out s')
  then show ?case by (auto simp: next_frame_def split: list.splits)
qed (simp_all add: awaits_ops awaits_ingest awaits_tick,
     simp_all add: force_refresh_def take_report_def set_source_live_def ack_ltr_def take_back_def Let_def)

section \<open>A concrete run\<close>

text \<open>The first of the two data fragments of a keyframe, at a new reassembler.\<close>

definition first_of_two :: "media_header \<Rightarrow> byte list \<Rightarrow> bool" where
  "first_of_two h payload \<longleftrightarrow> video_valid h payload \<and> mh_stream h = 7 \<and> unat (mh_frame h) = 0 \<and>
     unat (mh_index h) = 0 \<and> unat (mh_data_count h) = 2 \<and> unat (mh_parity_count h) = 0 \<and>
     header_kind h = Some VideoData \<and> has_flag (mh_flags h) KEYFRAME \<and>
     \<not> has_flag (mh_flags h) DISCARDABLE \<and> \<not> has_flag (mh_flags h) PREV_DISCARDABLE"

definition first_partial :: "media_header \<Rightarrow> byte list \<Rightarrow> partial" where
  "first_partial h payload = add_shard h payload 0 (partial_new h (length payload) 0 False)"

lemma replicate_two: "replicate 2 x = [x, x]"
  by (simp add: numeral_2_eq_2)

lemma first_partial:
  assumes "first_of_two h payload"
  shows "partial_ok (first_partial h payload)" "\<not> partial_complete (first_partial h payload)"
    "pa_shards (first_partial h payload) = [Some payload, None]"
    "pa_data_count (first_partial h payload) = 2" "pa_nacks (first_partial h payload) = 0"
    "pa_nacked_at (first_partial h payload) = None" "pa_last_seen (first_partial h payload) = 0"
    "\<not> pa_discardable (first_partial h payload)" "restartable (first_partial h payload) b"
proof -
  have valid: "video_valid h payload" using assms by (simp add: first_of_two_def)
  show "partial_ok (first_partial h payload)" unfolding first_partial_def
    by (rule add_shard_ok [OF partial_new_ok [OF valid]])
       (use assms in \<open>simp_all add: first_of_two_def partial_new_def sat_add_def umax_def\<close>)
qed (use assms in \<open>simp_all add: first_of_two_def first_partial_def add_shard_def partial_new_def
      partial_complete_def sat_add_def umax_def restartable_def Let_def replicate_two\<close>)

lemma first_ingest:
  fixes rs_dec
  assumes parse: "header_parse dg = Some (h, payload)" and h: "first_of_two h payload"
  defines "s \<equiv> fst (ingest rs_dec dg 0 (reassembler_new 7 config_default 0))"
  shows "ra_frames s = [(0, Partial (first_partial h payload))]" "ra_need s = NeedKeyframe"
    "ra_cfg s = config_default"
    "snd (ingest rs_dec dg 0 (reassembler_new 7 config_default 0)) = IVideo"
proof -
  define s1 where "s1 = settle_silence h 0 (reassembler_new 7 config_default 0)"
  let ?s = "s1\<lparr>ra_any_arrived := True\<rparr>"
  have keep: "ra_frames s1 = []" "ra_need s1 = NeedKeyframe" "ra_cfg s1 = config_default"
    "ra_given_up s1 = []" "ra_last_good s1 = None"
    by (simp_all add: s1_def settle_silence_def reassembler_new_def Let_def)
  let ?t = "open_slot h payload 0 0 ?s"
  let ?new = "partial_new h (length payload) 0 False"
  have t: "ra_frames ?t = [(0, Partial ?new)]" "ra_need ?t = NeedKeyframe" "ra_cfg ?t = config_default"
    using keep by (simp_all add: open_slot_def Let_def om_entry_def om_has_def om_get_def slot_unknown_def
        om_insert_def om_set_def)
  let ?u = "?t\<lparr>ra_frames := [(0, Partial (first_partial h payload))]\<rparr>"
  have pend: "cf_max_pending config_default = 64" by (simp add: config_default_def)
  have u: "evict 0 (drain 0 ?u) = ?u"
    using t pend by (simp add: drain.simps [of 0 ?u] evict.simps [of 0 ?u])
  have new: "pa_data_count ?new = 2" "pa_shards ?new = [None, None]" "pa_shard_bytes ?new = length payload"
    using h by (simp_all add: partial_new_def first_of_two_def sat_add_def umax_def replicate_two)
  have store: "store_fragment rs_dec h payload 0 0 ?t = (?u, IVideo)"
    using t(1) u first_partial(2) [OF h] h
    by (simp add: store_fragment_def Let_def new om_get_def om_insert_def om_has_def om_set_def
        first_partial_def [symmetric] sat_add_def umax_def first_of_two_def)
  have run: "ingest rs_dec dg 0 (reassembler_new 7 config_default 0) = (?u, IVideo)"
    using h keep store
    by (simp add: ingest_def parse Let_def s1_def [symmetric] ingest_video_def note_gap_def
        mark_previous_def first_of_two_def)
  show "ra_frames s = [(0, Partial (first_partial h payload))]" "ra_need s = NeedKeyframe"
    "ra_cfg s = config_default" "snd (ingest rs_dec dg 0 (reassembler_new 7 config_default 0)) = IVideo"
    using t by (simp_all add: s_def run)
qed

text \<open>Six milliseconds later, at a round trip of twenty, the other fragment is asked for.\<close>

lemma first_tick:
  assumes parse: "header_parse dg = Some (h, payload)" and h: "first_of_two h payload"
  shows "Nack 0 [1] \<in> set (snd (tick 6000000 20000000
     (fst (ingest rs_dec dg 0 (reassembler_new 7 config_default 0)))))"
proof -
  define s where "s = fst (ingest rs_dec dg 0 (reassembler_new 7 config_default 0))"
  let ?e = "tick_env_of 6000000 20000000 (tick_clock 6000000 20000000 s)"
  have s: "ra_frames s = [(0, Partial (first_partial h payload))]" "ra_cfg s = config_default"
    by (simp_all add: s_def first_ingest [OF parse h])
  obtain rs where tick: "snd (tick 6000000 20000000 s) = ra_actions s
      @ concat (map (\<lambda>(f, u). fst (snd (tick_slot ?e f u))) (ra_frames s)) @ rs"
    by (rule tick_actions)
  have delay: "ra_nack_delay (tick_clock 6000000 20000000 s) = 5000000"
    by (simp add: tick_clock_def Let_def s for_rtt_def config_default_def
        nack_policy_default_def layout_simps opt_or_def clamp_def)
  have env: "te_now ?e = 6000000" "te_nack_delay ?e = 5000000" "te_deadline ?e = 65000000"
    "te_retries ?e = 2" "te_max_hold ?e = 500000000"
    by (simp_all add: tick_env_of_def Let_def s delay config_default_def layout_simps
        dur_add_def dur_mul_def duration_max_def)
  note p = first_partial [OF h]
  have "missing_data (first_partial h payload) = [1]"
    by (simp add: missing_data_eq [OF p(1)] p(3,4) upt_conv_Cons)
  then have "fst (snd (tick_slot ?e 0 (Partial (first_partial h payload)))) = [Nack 0 [1]]"
    using p by (simp add: env past_deadline_def since_def worth_asking_def retry_due_def)
  then show ?thesis unfolding s_def [symmetric] tick by (simp add: s)
qed

definition demo_header :: media_header where
  "demo_header = \<lparr>mh_channel = channel_byte Media, mh_stream = 7, mh_frame = 0, mh_index = 0,
     mh_data_count = 2, mh_parity_count = 0, mh_kind = kind_byte VideoData, mh_flags = KEYFRAME,
     mh_send_ms_lo = 0\<rparr>"

definition demo_fragment :: "byte list" where
  "demo_fragment = header_bytes demo_header @ [1, 2]"

lemma demo_parse: "header_parse demo_fragment = Some (demo_header, [1, 2])"
  unfolding demo_fragment_def by (rule header_parse_bytes) (simp add: demo_header_def)

lemma demo_first: "first_of_two demo_header [1, 2]"
  by (simp add: first_of_two_def video_valid_def demo_header_def Let_def sat_add_def umax_def layout_simps
      is_parity_def header_kind_def kind_from_u8_def has_flag_def flag_values)

lemmas demo_ingest = first_ingest [OF demo_parse demo_first]
lemmas demo_tick = first_tick [OF demo_parse demo_first]

section \<open>What a NACK names\<close>

lemma all_had:
  assumes "partial_ok p" and "filter (\<lambda>i. pa_shards p ! i = None) [0..<pa_data_count p] = []"
  shows "partial_complete p"
proof -
  have len: "length (take (pa_data_count p) (pa_shards p)) = pa_data_count p"
    using assms(1) by (simp add: partial_ok_def)
  have "\<forall>x \<in> set (take (pa_data_count p) (pa_shards p)). x \<noteq> None"
    using assms(2) len by (auto simp: in_set_conv_nth filter_empty_conv)
  then have "have_shards (take (pa_data_count p) (pa_shards p)) = pa_data_count p"
    using len by (simp add: have_shards_def)
  then show ?thesis using assms(1) by (simp add: partial_complete_def partial_ok_def)
qed

text \<open>How often a frame still awaited was asked for, by the count its slot keeps; one that is whole or given up keeps none.\<close>

fun asked :: "slot \<Rightarrow> nat option" where
  "asked (Unknown _ tries _ _) = Some tries"
| "asked (Partial p) = Some (pa_nacks p)"
| "asked _ = None"

definition counted :: "nat \<Rightarrow> nat \<Rightarrow> slot omap \<Rightarrow> bool" where
  "counted f n m \<longleftrightarrow> (case om_get m f of None \<Rightarrow> True | Some u \<Rightarrow> asked u = None \<or> asked u = Some n)"

lemma counted_ops:
  "counted f n m \<Longrightarrow> asked u = None \<Longrightarrow> counted f n (om_insert k u m)"
  "counted f n m \<Longrightarrow> counted f n (om_remove k m)" "counted f n m \<Longrightarrow> counted f n (om_retain P m)"
  by (auto simp: counted_def om_simps split: option.splits)

lemma counted_fold_lose: "counted f n (ra_frames s) \<Longrightarrow> counted f n (ra_frames (fold (\<lambda>(f, k) s. lose f k now s) fs s))"
  by (induction fs arbitrary: s) (auto simp: ra_frames_lose counted_ops)

lemma counted_drain: "counted f n (ra_frames s) \<Longrightarrow> counted f n (ra_frames (drain now s))"
proof -
  have "counted f n (ra_frames s) \<longrightarrow> counted f n (ra_frames (drain now s))"
    by (rule drain_induct) (simp_all add: counted_ops)
  then show "counted f n (ra_frames s) \<Longrightarrow> counted f n (ra_frames (drain now s))" by blast
qed

text \<open>What the tick's pass leaves in a slot it asks for is what the whole tick leaves, unless the frame is given up or passed.\<close>

lemma tick_counts:
  assumes "om_get (ra_frames s) f = Some u"
    and "asked (fst (tick_slot (tick_env_of now rtt (tick_clock now rtt s)) f u)) = Some n"
  shows "counted f n (ra_frames (fst (tick now rtt s)))"
proof -
  have "counted f n (ra_frames (tick_pass now rtt s))"
    using assms by (simp add: counted_def tick_pass_def Let_def om_pass)
  then show ?thesis by (simp add: tick_eq Let_def counted_drain counted_fold_lose)
qed


lemma demo_run:
  "ra_run rs_dec 7 config_default 0 (datagram_claims demo_fragment) []
     (fst (ingest rs_dec demo_fragment 0 (reassembler_new 7 config_default 0)))"
  using ra_run.ingest [OF ra_run.new, of demo_fragment rs_dec 7 config_default 0 0]
  by (simp add: datagram_frame_def demo_parse demo_header_def umax_def)


theorem pending_frames_bounded_witness:
  "length (ra_frames (fst (ingest (\<lambda>_ _ _ _ _. None) demo_fragment 0 (reassembler_new 7 config_default 0)))) \<le> 64"
  using pending_frames_bounded [OF demo_ingest(4) [where rs_dec = "\<lambda>_ _ _ _ _. None"]]
  by (simp add: demo_ingest(3)) (simp add: config_default_def)

end
