(* ===== verification/Repair.thy ===== *)
theory Repair
  imports Media_Path Reassemble_Policy
begin

text \<open>
  The repair loop between the two ends: the reassembler's tick asks for the fragments it misses, the
  packetizer answers from its history, and the answer completes the frame.
\<close>

section \<open>Waiting through arrivals and ticks\<close>

text \<open>Too few pieces leave the frame waiting with one piece more each.\<close>

lemma feed_waiting:
  assumes w: "waiting stream (unat frame) pieces ly fl ready I s" and ok: "pieces_ok pieces ly"
    and c: "\<forall>(i, dg, now) \<in> set as. carries stream frame pieces ly fl i dg"
    and I: "I \<subseteq> {0..<length pieces}"
    and dist: "distinct (map fst as)" "I \<inter> fst ` set as = {}"
    and few: "card I + length as < ly_data_count ly"
  shows "waiting stream (unat frame) pieces ly fl ready (I \<union> fst ` set as) (feed rs_dec (map snd as) s)"
  using w c I dist few
proof (induction as arbitrary: I s)
  case Nil
  then show ?case by (simp add: feed_def)
next
  case (Cons a as)
  obtain i dg now where a: "a = (i, dg, now)" by (cases a) auto
  let ?t = "fst (ingest rs_dec dg now s)"
  have carries: "carries stream frame pieces ly fl i dg" and iI: "i \<notin> I" and il: "i < length pieces"
    using Cons.prems a by (auto simp: carries_def)
  have sub: "insert i I \<subseteq> {0..<length pieces}" using Cons.prems(3) il by simp
  have card: "card (insert i I) = Suc (card I)"
    using iI Cons.prems(3) finite_subset by (metis card_insert_disjoint finite_atLeastLessThan)
  have "waiting stream (unat frame) pieces ly fl ready (insert i I) ?t"
    using ingest_waiting [OF Cons.prems(1) ok carries iI Cons.prems(3), of rs_dec now "\<lambda>_. True"]
      Cons.prems(6) card by simp
  from Cons.IH [OF this _ sub] show ?case
    using Cons.prems(2,4,5,6) a card by (auto simp: feed_def image_iff)
qed

lemma no_nacks_feed: "no_nacks s \<Longrightarrow> no_nacks (feed rs_dec as s)"
  by (induction as arbitrary: s) (auto simp: feed_def no_nacks_ingest)

lemma tick_misc [simp]:
  "ra_stream (tick_clock now rtt s) = ra_stream s" "ra_given_up (tick_clock now rtt s) = ra_given_up s"
  "ra_stream (tick_refresh now rtt e s) = ra_stream s" "ra_given_up (tick_refresh now rtt e s) = ra_given_up s"
  "ra_cfg (tick_refresh now rtt e s) = ra_cfg s"
  by (auto simp: tick_clock_def tick_refresh_def request_refresh_def Let_def split: option.splits)

text \<open>A tick that asks for the frame leaves it waiting, and asks for the data pieces not had.\<close>

lemma tick_waiting:
  assumes w: "waiting stream f pieces ly fl ready I s" and I: "I \<noteq> {}"
    and none: "no_nacks s" and nack: "Nack f idxs \<in> set (snd (tick now rtt s))"
  shows "waiting stream f pieces ly fl ready I (fst (tick now rtt s)) \<and>
    idxs = filter (\<lambda>i. i \<notin> I) [0..<ly_data_count ly]"
proof -
  let ?e = "tick_env_of now rtt (tick_clock now rtt s)"
  obtain p where frames: "ra_frames s = [(f, Partial p)]" and g: "gathered pieces ly fl I p"
    and rest: "ra_stream s = stream" "0 < cf_max_pending (ra_cfg s)" "f \<notin> set (ra_given_up s)"
      "\<forall>g. ra_last_good s = Some g \<longrightarrow> g < f" "admits (ra_need s) f fl" "ra_ready s = ready"
    using w I by (auto simp: waiting_def)
  obtain rs where tick: "snd (tick now rtt s) = ra_actions s
      @ concat (map (\<lambda>(f, u). fst (snd (tick_slot ?e f u))) (ra_frames s)) @ rs"
    and rs: "\<forall>a \<in> set rs. \<not> is_nack a" by (rule tick_actions)
  have "Nack f idxs \<in> set (fst (snd (tick_slot ?e f (Partial p))))"
    using nack none rs unfolding tick no_nacks_def frames by (auto simp del: tick_slot.simps)
  from tick_slot_nack [OF this] have lost: "snd (snd (tick_slot ?e f (Partial p))) = []"
    and idxs: "idxs = missing_data p" by auto
  obtain q where q: "fst (tick_slot ?e f (Partial p)) = Partial q"
    "gathered pieces ly fl I q"
    using g by (cases "fst (tick_slot ?e f (Partial p))") (auto simp: gathered_def partial_ok_def split: if_splits)
  let ?t = "tick_refresh now rtt ?e (tick_pass now rtt s)"
  have t: "ra_frames ?t = [(f, Partial q)]" "ra_need ?t = ra_need s" "ra_stream ?t = stream"
    "ra_cfg ?t = ra_cfg s" "ra_given_up ?t = ra_given_up s" "ra_last_good ?t = ra_last_good s" "ra_ready ?t = ready"
    using rest q(1) by (simp_all add: tick_pass_def Let_def frames)
  have "tick_lost now rtt s = []" using lost by (simp add: tick_lost_def Let_def frames)
  moreover have "drain now ?t = ?t" using drain_partial [OF t(1), of fl now] t(2) rest(5) by simp
  ultimately have "fst (tick now rtt s) = ?t\<lparr>ra_actions := []\<rparr>" by (simp add: tick_eq Let_def)
  then have "waiting stream f pieces ly fl ready I (fst (tick now rtt s))"
    using t rest q(2) I by (simp add: waiting_def)
  moreover have "idxs = filter (\<lambda>i. i \<notin> I) [0..<ly_data_count ly]"
  proof -
    have ok: "partial_ok p" and shards: "pa_shards p = pieces_in I pieces" "pa_data_count p = ly_data_count ly"
      using g by (simp_all add: gathered_def)
    have "ly_data_count ly \<le> length pieces" using ok shards by (simp add: partial_ok_def)
    then show ?thesis using idxs missing_data_eq [OF ok] by (auto simp: shards intro!: filter_cong)
  qed
  ultimately show ?thesis by simp
qed

section \<open>Asked for, answered, delivered\<close>

text \<open>The history's answer to a NACK, as arrivals of retransmitted copies.\<close>

lemma answer_arrivals:
  assumes "find (\<lambda>x. sf_frame x = n) (pk_history pk') = Some sent" and "sent_ok stream sent"
    and "idxs \<noteq> []" "\<forall>i \<in> set idxs. i < ly_data_count (sf_layout sent)"
  shows "map (\<lambda>d. (d, t)) (snd (retransmit pk' n idxs)) = map (arrival sent) (map (\<lambda>i. (i, True, t)) idxs)"
proof -
  have "filter (\<lambda>i. i < ly_data_count (sf_layout sent)) idxs = idxs" using assms(4) by (simp add: filter_id_conv)
  then show ?thesis using retransmit_eq [OF assms(1,2), of idxs] assms(3) by (simp add: arrival_def)
qed

lemma missing_completes:
  assumes "finite I"
  shows "k \<le> card I + length (filter (\<lambda>i. i \<notin> I) [0..<k])"
proof -
  have "k = card {0..<k}" by simp
  also have "\<dots> \<le> card (I \<union> set (filter (\<lambda>i. i \<notin> I) [0..<k]))"
    by (intro card_mono) (auto simp: assms)
  also have "\<dots> \<le> card I + card (set (filter (\<lambda>i. i \<notin> I) [0..<k]))" by (rule card_Un_le)
  also have "\<dots> \<le> card I + length (filter (\<lambda>i. i \<notin> I) [0..<k])"
    by (intro add_left_mono card_length)
  finally show ?thesis .
qed

lemma nack_answered:
  assumes sent: "snd (snd (packetize rs_enc pk frame ms)) = Inr sent"
    and rs: "rs_sized rs_enc" "rs_recovers rs_enc rs_dec"
    and s: "ra_stream s = pk_stream pk" "ra_frames s = []" "0 < cf_max_pending (ra_cfg s)"
      "unat (pk_next_frame pk) \<notin> set (ra_given_up s)"
      "\<forall>g. ra_last_good s = Some g \<longrightarrow> g < unat (pk_next_frame pk)"
      "admits (ra_need s) (unat (pk_next_frame pk)) (frame_flags frame (pk_previous_discardable pk))"
      "no_nacks s"
    and arrivals: "distinct (map fst arrivals)" "\<forall>a \<in> set arrivals. fst a < length (sf_datagrams sent)"
      "arrivals \<noteq> []" "length arrivals < ly_data_count (sf_layout sent)"
    and nack: "Nack (unat (pk_next_frame pk)) idxs
      \<in> set (snd (tick now rtt (feed rs_dec (map (arrival sent) arrivals) s)))"
    and kept: "find (\<lambda>x. sf_frame x = pk_next_frame pk) (pk_history pk') = Some sent"
  shows "\<exists>out. out_matches pk frame out \<and>
    ra_ready (feed rs_dec (map (\<lambda>d. (d, t)) (snd (retransmit pk' (pk_next_frame pk) idxs)))
      (fst (tick now rtt (feed rs_dec (map (arrival sent) arrivals) s)))) = ra_ready s @ [out]"
proof -
  let ?fl = "frame_flags frame (pk_previous_discardable pk)" and ?f = "unat (pk_next_frame pk)"
  let ?ly = "sf_layout sent"
  obtain pieces where ok: "pieces_ok pieces ?ly" "length (sf_datagrams sent) = length pieces"
      "0 < ly_data_count ?ly" "sent_ok (pk_stream pk) sent"
    and carry: "\<And>i again now. i < length pieces \<Longrightarrow> carries (pk_stream pk) (pk_next_frame pk) pieces
       ?ly ?fl i (fst (arrival sent (i, again, now)))"
    and asm: "\<And>I p now. gathered pieces ?ly ?fl I p \<Longrightarrow> I \<subseteq> {0..<length pieces} \<Longrightarrow>
       ly_data_count ?ly \<le> card I \<Longrightarrow> \<exists>out. assemble rs_dec ?f p now = Some out \<and> out_matches pk frame out \<and>
         fi_keyframe (fo_info out) = has_flag ?fl KEYFRAME \<and> fi_ltr_refresh (fo_info out) = has_flag ?fl LTR_REFRESH"
    by (rule sent_pieces [OF sent rs]) blast
  let ?as = "\<lambda>as. map (\<lambda>a. (fst a, arrival sent a)) as"
  let ?s1 = "feed rs_dec (map (arrival sent) arrivals) s" and ?I = "fst ` set arrivals"
  have c: "\<forall>(i, dg, now) \<in> set (?as as). carries (pk_stream pk) (pk_next_frame pk) pieces ?ly ?fl i dg"
    if "\<forall>a \<in> set as. fst a < length pieces" for as
    using that carry by (fastforce simp: arrival_def)
  have I: "?I \<subseteq> {0..<length pieces}" "finite ?I" "?I \<noteq> {}" "card ?I = length arrivals"
    using arrivals ok(2) distinct_card [OF arrivals(1)] by auto
  have "waiting (pk_stream pk) ?f pieces ?ly ?fl (ra_ready s) {} s" using s by (simp add: waiting_def)
  from feed_waiting [OF this ok(1) c [of arrivals], of rs_dec]
  have w: "waiting (pk_stream pk) ?f pieces ?ly ?fl (ra_ready s) ?I ?s1"
    using arrivals ok(2) by (simp add: comp_def image_image)
  note tick = tick_waiting [OF w I(3) no_nacks_feed [OF s(7)] nack]
  let ?s2 = "fst (tick now rtt ?s1)" and ?bs = "map (\<lambda>i. (i, True, t)) idxs"
  have idxs: "idxs = filter (\<lambda>i. i \<notin> ?I) [0..<ly_data_count ?ly]" using tick by simp
  have enough: "ly_data_count ?ly \<le> card ?I + length idxs" unfolding idxs by (rule missing_completes [OF I(2)])
  then have ne: "idxs \<noteq> []" using arrivals(4) I(4) by auto
  have len: "ly_data_count ?ly \<le> length pieces" using ok(1) by (simp add: pieces_ok_def)
  have answer: "map (\<lambda>d. (d, t)) (snd (retransmit pk' (pk_next_frame pk) idxs)) = map snd (?as ?bs)"
    using answer_arrivals [OF kept ok(4) ne, of t] idxs by simp
  have "\<exists>out hold. out_matches pk frame out \<and> handed_over (pk_stream pk) ?f
      (ra_ready s @ [out\<lparr>fo_hold := hold\<rparr>]) (feed rs_dec (map snd (?as ?bs)) ?s2)"
  proof (rule feed_delivers [OF conjunct1 [OF tick] ok(1) c I(1)])
    show "\<forall>a \<in> set ?bs. fst a < length pieces" using idxs len by auto
    show "card ?I < ly_data_count ?ly" using I(4) arrivals(4) by simp
    show "distinct (map fst (?as ?bs))" using idxs by (simp add: comp_def)
    have "fst ` set (?as ?bs) = set idxs" by (simp add: image_image)
    then show "?I \<inter> fst ` set (?as ?bs) = {}" using idxs by auto
    show "ly_data_count ?ly \<le> card ?I + length (?as ?bs)" using enough by simp
  qed (use asm in auto)
  then show ?thesis unfolding answer by (auto simp: handed_over_def out_matches_def)
qed

section \<open>A concrete repair\<close>

text \<open>A keyframe of two data fragments and no parity.\<close>

definition wide_frame :: encoded_frame where
  "wide_frame = demo_frame\<lparr>ef_data := replicate 1300 1\<rparr>"

definition bare_packetizer :: packetizer where
  "bare_packetizer = set_parity_permille 0 (packetizer_new 7)"

definition wide_layout :: layout where
  "wide_layout = \<lparr>ly_data_count = 2, ly_shard_bytes = 664, ly_parity_count = 0\<rparr>"

definition wide_sent :: sent_frame where
  "wide_sent = sent_of bare_packetizer wide_frame 0 wide_layout []"

lemma bare_simps [simp]:
  "pk_stream bare_packetizer = 7" "pk_next_frame bare_packetizer = 0"
  "pk_previous_discardable bare_packetizer = False" "pk_history bare_packetizer = []"
  by (simp_all add: bare_packetizer_def set_parity_permille_def packetizer_new_def)

lemma wide_layout:
  "layout_of (length (ef_data wide_frame)) (pk_parity_permille bare_packetizer) (pk_max_payload bare_packetizer)
     = Inr wide_layout"
  by (simp add: wide_frame_def wide_layout_def bare_packetizer_def set_parity_permille_def packetizer_new_def
      layout_of_def layout_simps payload_cap_def even_down_def clamp_def sat_add_def sat_mul_def umax_def
      div_ceil_def next_multiple_of_def to_width_def Let_def numeral_2_eq_2 [symmetric])

lemma wide_sent:
  "snd (snd (packetize repeat_enc bare_packetizer wide_frame 0)) = Inr wide_sent"
  "pk_history (fst (packetize repeat_enc bare_packetizer wide_frame 0)) = [wide_sent]"
  "sf_layout wide_sent = wide_layout" "length (sf_datagrams wide_sent) = 2" "sf_frame wide_sent = 0"
proof -
  obtain sent where ok: "snd (snd (packetize repeat_enc bare_packetizer wide_frame 0)) = Inr sent"
    using packetize_succeeds [OF wide_layout, of repeat_enc 0] by (auto simp: wide_layout_def)
  obtain pk' shipped where run: "packetize repeat_enc bare_packetizer wide_frame 0 = (pk', shipped, Inr sent)"
    using ok by (metis prod.collapse)
  obtain ly recovery where
    ly: "layout_of (length (ef_data wide_frame)) (pk_parity_permille bare_packetizer)
      (pk_max_payload bare_packetizer) = Inr ly" and so: "sent = sent_of bare_packetizer wide_frame 0 ly recovery"
    and "length recovery = ly_parity_count ly"
    and hist: "pk_history pk' = [sent]"
    by (rule packetize_sent [OF run repeat_sized]) (rule that, assumption, assumption, assumption, simp add: layout_simps)
  then have "ly = wide_layout" "recovery = []" using wide_layout by (auto simp: wide_layout_def)
  then have eq: "sent = wide_sent" using so by (simp add: wide_sent_def)
  show "snd (snd (packetize repeat_enc bare_packetizer wide_frame 0)) = Inr wide_sent"
    "pk_history (fst (packetize repeat_enc bare_packetizer wide_frame 0)) = [wide_sent]"
    using run hist eq by simp_all
  show "sf_layout wide_sent = wide_layout" "length (sf_datagrams wide_sent) = 2" "sf_frame wide_sent = 0"
    using frame_shards_sized(1) [OF layout_of_good [OF wide_layout]]
    by (simp_all add: wide_sent_def sent_of_def) (simp add: wide_layout_def)
qed

definition wide_header :: media_header where
  "wide_header = (frame_header bare_packetizer wide_frame 0 wide_layout)\<lparr>mh_index := 0, mh_kind := kind_byte VideoData\<rparr>"

lemma wide_first:
  "header_parse (sf_datagrams wide_sent ! 0) = Some (wide_header, frame_shards bare_packetizer wide_frame wide_layout ! 0)"
  "first_of_two wide_header (frame_shards bare_packetizer wide_frame wide_layout ! 0)"
proof -
  note good = layout_of_good [OF wide_layout]
  have nth: "sf_datagrams wide_sent ! 0 = header_bytes wide_header @ frame_shards bare_packetizer wide_frame wide_layout ! 0"
    using sent_of_nth [OF _ good, of "[]" 0 bare_packetizer wide_frame 0]
    by (simp add: wide_sent_def wide_header_def) (simp add: wide_layout_def)
  show "header_parse (sf_datagrams wide_sent ! 0) = Some (wide_header, frame_shards bare_packetizer wide_frame wide_layout ! 0)"
    unfolding nth by (rule header_parse_bytes) (simp add: wide_header_def frame_header_def)
  have len: "length (frame_shards bare_packetizer wide_frame wide_layout ! 0) = 664"
    using frame_shards_sized [OF good, of bare_packetizer wide_frame] by (simp add: wide_layout_def)
  then have "frame_shards bare_packetizer wide_frame wide_layout ! 0 \<noteq> []" by auto
  then show "first_of_two wide_header (frame_shards bare_packetizer wide_frame wide_layout ! 0)"
    using len
    by (simp add: first_of_two_def video_valid_def wide_header_def frame_header_def wide_layout_def Let_def
        sat_add_def umax_def layout_simps is_parity_def header_kind_def kind_from_u8_def frame_flags_bits)
       (simp add: wide_frame_def demo_frame_def)
qed

lemma wide_admits:
  "admits (ra_need (reassembler_new 7 config_default 0)) 0 (frame_flags wide_frame False)"
  by (simp add: admits_def frame_flags_bits wide_frame_def demo_frame_def)

lemma wide_nack:
  "Nack 0 [1] \<in> set (snd (tick 6000000 20000000 (feed repeat_dec (map (arrival wide_sent) [(0, False, 0)])
     (reassembler_new 7 config_default 0))))"
  using first_tick [OF wide_first, of repeat_dec] by (simp add: feed_def arrival_def)

text \<open>The packetizer's own promises, at the frame above.\<close>

lemma wide_reach: "pk_reach repeat_enc 7 (fst (packetize repeat_enc bare_packetizer wide_frame 0))"
  unfolding bare_packetizer_def by (intro pk_reach.intros)

theorem datagrams_fit_and_read_back_witness:
  "length (sf_datagrams wide_sent ! 1) \<le> MAX_DATAGRAM \<and>
   (\<exists>h payload. header_parse (sf_datagrams wide_sent ! 1) = Some (h, payload) \<and> mh_stream h = 7 \<and> unat (mh_index h) = 1)"
  using datagrams_fit_and_read_back [OF wide_reach repeat_sized, of wide_sent 1] by (auto simp: wide_sent)

theorem nack_answer_witness:
  "length (snd (retransmit (fst (packetize repeat_enc bare_packetizer wide_frame 0)) 0 [1, 7])) = 1 \<and>
   (\<exists>h payload. header_parse (snd (retransmit (fst (packetize repeat_enc bare_packetizer wide_frame 0)) 0 [1, 7]) ! 0)
      = Some (h, payload) \<and> unat (mh_index h) = 1)"
proof -
  let ?pk = "fst (packetize repeat_enc bare_packetizer wide_frame 0)"
  have "find (\<lambda>s. sf_frame s = 0) (pk_history ?pk) = Some wide_sent" by (simp add: wide_sent)
  then show ?thesis using nack_answer [OF wide_reach repeat_sized, of 0 "[1, 7]"]
    by (auto simp: wide_sent wide_layout_def)
qed

theorem refused_frames_witness:
  "packetize repeat_enc bare_packetizer (wide_frame\<lparr>ef_data := []\<rparr>) 0 = (bare_packetizer, [], Inl Empty)"
  using refused_frames [of repeat_enc bare_packetizer "wide_frame\<lparr>ef_data := []\<rparr>" 0] by simp

end
