(* ===== verification/Reassemble_Reports.thy ===== *)
theory Reassemble_Reports
  imports Reassemble_Policy
begin

text \<open>
  What the reassembler reports to the worker, and two places where it departs from its own
  description: a corrupt frame that nothing refers to, and the last frame number.
\<close>

section \<open>Where the code departs from its description\<close>

text \<open>
  C35. A frame nothing refers to can still cost a refresh, against the description of the state machine
  (such a frame is never worth a refresh): when its fragments are all there but do not assemble, the
  frame is taken off the map before it is given up on, so its discardable mark is gone and delivery
  stops until a refresh arrives.
\<close>

theorem corrupt_discardable_asks_refresh:
  assumes "om_get (ra_frames s) f = Some (Partial p)" "pa_discardable p" "assemble rs_dec f p now = None"
    and "ra_need s = NeedFrame n"
  shows "ra_need (finish rs_dec f now s) = NeedRefresh \<and>
    RequestRefresh (opt_or (ra_last_good s) 0) False \<in> set (ra_actions (finish rs_dec f now s))"
proof -
  have gone: "om_get (om_remove f (ra_frames s)) f = None" by (simp add: om_simps)
  have fin: "finish rs_dec f now s = lose f (missing_data_count p) now (s\<lparr>ra_frames := om_remove f (ra_frames s)\<rparr>)"
    using assms by (simp add: finish_def)
  show ?thesis unfolding fin using gone assms(4) by (simp add: lose_def Let_def)
qed

definition corrupt_partial :: partial where
  "corrupt_partial = \<lparr>pa_data_count = 1, pa_parity_count = 0, pa_shard_bytes = 2, pa_flags = DISCARDABLE,
     pa_shards = [Some [1, 2]], pa_have_data = 1, pa_have_total = 1, pa_first_seen = 0, pa_last_seen = 0,
     pa_nacks = 0, pa_nacked_at = None, pa_retransmitted = False, pa_discardable = True\<rparr>"

theorem corrupt_discardable_asks_refresh_witness:
  "ra_need (finish (\<lambda>_ _ _ _ _. None) 5 0 ((reassembler_new 7 config_default 0)
     \<lparr>ra_frames := [(5, Partial corrupt_partial)], ra_need := NeedFrame 5\<rparr>)) = NeedRefresh"
proof -
  have "prefix_parse [1, 2] = None" by (simp add: prefix_format.dec_none_iff layout_simps)
  then have "assemble (\<lambda>_ _ _ _ _. None) 5 corrupt_partial 0 = None"
    by (simp add: assemble_def assemble_body_def corrupt_partial_def)
  then show ?thesis
    using corrupt_discardable_asks_refresh [where s = "(reassembler_new 7 config_default 0)
        \<lparr>ra_frames := [(5, Partial corrupt_partial)], ra_need := NeedFrame 5\<rparr>" and f = 5 and n = 5
        and p = corrupt_partial and now = 0 and rs_dec = "\<lambda>_ _ _ _ _. None"]
    by (simp add: om_get_def corrupt_partial_def)
qed

text \<open>Everything a client calls on its reassembler, one call after the other, with the frames it takes from it.\<close>

datatype ra_call = CallIngest "byte list" instant | CallTick instant duration | CallNext | CallForce instant bool
  | CallLive bool | CallAck nat | CallReport instant nat | CallRestore receiver_report

fun ra_call_step :: "rs_decoder \<Rightarrow> ra_call \<Rightarrow> reassembler \<Rightarrow> reassembler \<times> frame_out list" where
  "ra_call_step rs_dec (CallIngest dg now) s = (fst (ingest rs_dec dg now s), [])"
| "ra_call_step rs_dec (CallTick now rtt) s = (fst (tick now rtt s), [])"
| "ra_call_step rs_dec CallNext s = (case next_frame s of (None, s') \<Rightarrow> (s', []) | (Some out, s') \<Rightarrow> (s', [out]))"
| "ra_call_step rs_dec (CallForce now keyframe) s = (force_refresh now keyframe s, [])"
| "ra_call_step rs_dec (CallLive live) s = (set_source_live live s, [])"
| "ra_call_step rs_dec (CallAck token) s = (ack_ltr token s, [])"
| "ra_call_step rs_dec (CallReport now late) s = (fst (take_report now late s), [])"
| "ra_call_step rs_dec (CallRestore rep) s = (take_back rep s, [])"

primrec ra_calls :: "rs_decoder \<Rightarrow> ra_call list \<Rightarrow> reassembler \<Rightarrow> reassembler \<times> frame_out list" where
  "ra_calls rs_dec [] s = (s, [])"
| "ra_calls rs_dec (c # cs) s = (let (s, out) = ra_call_step rs_dec c s; (s, outs) = ra_calls rs_dec cs s in (s, out @ outs))"

definition past_last :: "reassembler \<Rightarrow> bool" where
  "past_last s \<longleftrightarrow> ra_last_good s = Some (umax 32) \<and> ra_frames s = []"

lemma past_last_ingest:
  assumes "past_last s"
  shows "past_last (fst (ingest rs_dec dg now s))" "ra_ready (fst (ingest rs_dec dg now s)) = ra_ready s" "snd (ingest rs_dec dg now s) \<noteq> IVideo"
proof -
  have small: "unat (mh_frame h) \<le> umax 32" for h :: media_header
  proof -
    have "unat (mh_frame h) < 2 ^ LENGTH(32)" by (rule unsigned_less)
    then show ?thesis by (simp add: umax_def)
  qed
  have video: "ingest_video rs_dec h payload now t = (t\<lparr>ra_any_arrived := True\<rparr>, IIgnored (if video_valid h payload then Stale else Malformed))"
    if "ra_last_good t = Some (umax 32)" for h payload t
    using that small by (simp add: ingest_video_def Let_def)
  have settle: "ra_last_good (settle_silence h now s) = Some (umax 32)" "ra_ready (settle_silence h now s) = ra_ready s"
    "ra_frames (settle_silence h now s) = []" for h
    using assms by (simp_all add: settle_silence_def past_last_def resume_def Let_def)
  show "past_last (fst (ingest rs_dec dg now s))" "ra_ready (fst (ingest rs_dec dg now s)) = ra_ready s" "snd (ingest rs_dec dg now s) \<noteq> IVideo"
    using assms settle video [OF settle(1)]
    by (auto simp: ingest_def past_last_def Let_def split: option.splits kind.splits)
qed

lemma drain_no_frames: "ra_frames s = [] \<Longrightarrow> drain now s = s"
  by (subst drain.simps) (simp add: om_get_def split: need.splits)

lemma past_last_tick:
  assumes "past_last s"
  shows "past_last (fst (tick now rtt s))" "ra_ready (fst (tick now rtt s)) = ra_ready s"
proof -
  have "ra_frames (tick_pass now rtt s) = []" "tick_lost now rtt s = []" using assms by (simp_all add: tick_pass_def tick_lost_def past_last_def Let_def)
  then show "past_last (fst (tick now rtt s))" "ra_ready (fst (tick now rtt s)) = ra_ready s"
    using assms by (simp_all add: tick_eq Let_def drain_no_frames past_last_def tick_pass_def)
qed

lemma past_last_call:
  assumes "past_last s" and "ra_call_step rs_dec c s = (t, out)"
  shows "past_last t \<and> (\<exists>rest. ra_ready s = out @ ra_ready t @ rest)"
  using assms past_last_ingest [OF assms(1)] past_last_tick [OF assms(1)]
  by (cases c) (auto simp: past_last_def next_frame_def force_refresh_def request_refresh_def set_source_live_def ack_ltr_def
      take_report_def take_back_def Let_def split: list.splits)

lemma past_last_calls:
  assumes "past_last s"
  shows "past_last (fst (ra_calls rs_dec cs s)) \<and> (\<exists>rest. ra_ready s = snd (ra_calls rs_dec cs s) @ rest)"
  using assms
proof (induction cs arbitrary: s)
  case (Cons c cs)
  obtain t out where step: "ra_call_step rs_dec c s = (t, out)" by fastforce
  then show ?case using past_last_call [OF Cons.prems step] Cons.IH [of t] by (fastforce simp: Let_def split_def)
qed simp

text \<open>
  C36. Frame numbers do not wrap: a packetizer counts past \<open>2 ^ 32 - 1\<close> to zero, but once a reassembler delivers the frame with
  that number, nothing else being pending, no video is ever taken again. Whatever is called on it from then on, every ingest, tick, refresh and report in any
  order, the client gets no frame but those ready at that moment, and every further video datagram is ignored.
\<close>

theorem last_frame_number_ends_the_stream:
  fixes delivered_at s
  assumes "ra_need s = NeedFrame (umax 32)" and "ra_frames s = [(umax 32, Complete out first_seen)]"
  defines "t \<equiv> drain delivered_at s"
  shows "ra_ready t = ra_ready s @ [out\<lparr>fo_hold := since delivered_at first_seen\<rparr>] \<and>
    (\<exists>rest. ra_ready t = snd (ra_calls rs_dec cs t) @ rest) \<and>
    snd (ingest rs_dec dg now (fst (ra_calls rs_dec cs t))) \<noteq> IVideo"
proof -
  have "om_get (ra_frames s) (umax 32) = Some (Complete out first_seen)" "om_remove (umax 32) (ra_frames s) = []"
    using assms(2) by (simp_all add: om_get_def om_remove_def)
  then have t: "t = deliver (umax 32) out first_seen delivered_at s" "ra_frames (deliver (umax 32) out first_seen delivered_at s) = []"
    using assms(1) unfolding t_def by (subst drain.simps, simp_all add: drain_no_frames)
  then have "past_last t" "ra_ready t = ra_ready s @ [out\<lparr>fo_hold := since delivered_at first_seen\<rparr>]"
    by (simp_all add: past_last_def) (simp_all add: deliver_def Let_def)
  then show ?thesis using past_last_calls [of t rs_dec cs] past_last_ingest(3) by blast
qed

definition last_delivered :: reassembler where
  "last_delivered = (reassembler_new 7 config_default 0)\<lparr>ra_need := NeedFrame (umax 32), ra_frames := [(umax 32, Complete
     \<lparr>fo_info = \<lparr>fi_frame = umax 32, fi_keyframe = True, fi_ltr_token = None, fi_ltr_refresh = False, fi_discardable = False,
        fi_capture_ts_us = 0, fi_stripes = 1, fi_build = 0, fi_region = None, fi_recovered = False\<rparr>,
      fo_data = [1], fo_hold = 0, fo_arrived = 0\<rparr> 0)]\<rparr>"

theorem last_frame_number_ends_the_stream_witness:
  "snd (ingest (\<lambda>_ _ _ _ _. None) demo_fragment 9
     (fst (ra_calls (\<lambda>_ _ _ _ _. None) [CallForce 1 True, CallTick 5 0] (drain 0 last_delivered)))) \<noteq> IVideo"
  using last_frame_number_ends_the_stream [where s = last_delivered and delivered_at = 0 and cs = "[CallForce 1 True, CallTick 5 0]"]
  by (simp add: last_delivered_def)

section \<open>Reports\<close>

lemma push_front_missing_distinct:
  "distinct (rev ts @ acks) \<Longrightarrow> push_front_missing ts acks = rev ts @ acks"
  by (induction ts arbitrary: acks) auto

definition counters_ok :: "report_window \<Rightarrow> bool" where
  "counters_ok w \<longleftrightarrow> wi_frames_ok w \<le> umax 32 \<and> wi_frames_fec w \<le> umax 32 \<and> wi_frames_lost w \<le> umax 32 \<and>
     wi_datagrams_lost w \<le> umax 32 \<and> wi_stalls w \<le> umax 16 \<and> as_millis (wi_stalled w) \<le> umax 16"

text \<open>
  A report that could not be sent is not lost: taking it and handing it back leaves the window
  with the same counts and the acknowledgements in the same order, so the next report carries them;
  of the stalled time less than the millisecond the report does not carry is dropped.
\<close>

lemma unsent_report_is_kept:
  fixes now late s
  assumes w: "counters_ok (ra_window (if stalled now s then charge_stall now 0 s else s))"
    and acks: "distinct (ra_ltr_acks s)" "length (ra_ltr_acks s) \<le> MAX_PENDING_ACKS" "ra_ltr_acks s \<noteq> []"
  defines "w0 \<equiv> ra_window (if stalled now s then charge_stall now 0 s else s)"
  defines "t \<equiv> take_back (snd (take_report now late s)) (fst (take_report now late s))"
  shows "wi_frames_ok (ra_window t) = wi_frames_ok w0 \<and> wi_frames_fec (ra_window t) = wi_frames_fec w0 \<and>
    wi_frames_lost (ra_window t) = wi_frames_lost w0 \<and>
    wi_datagrams_lost (ra_window t) = wi_datagrams_lost w0 \<and> wi_stalls (ra_window t) = wi_stalls w0 \<and>
    wi_stalled (ra_window t) \<le> wi_stalled w0 \<and> wi_stalled w0 < wi_stalled (ra_window t) + from_millis 1 \<and>
    ra_ltr_acks t = ra_ltr_acks s"
proof -
  have charged: "ra_ltr_acks (charge_stall now 0 s) = ra_ltr_acks s"
    by (simp add: charge_stall_def Let_def)
  let ?taken = "take 4 (ra_ltr_acks s)"
  have taken: "?taken \<noteq> []" using acks(3) by simp
  have "push_front_missing (rev ?taken) (drop 4 (ra_ltr_acks s)) = ra_ltr_acks s"
    using push_front_missing_distinct [of "rev ?taken" "drop 4 (ra_ltr_acks s)"] acks(1) by simp
  then have kept: "ra_ltr_acks t = ra_ltr_acks s"
    using taken acks(2) by (simp add: t_def take_back_def take_report_def Let_def charged)
  have ms: "from_millis (as_millis d) \<le> d" "d < from_millis (as_millis d) + from_millis 1"
    "from_millis (as_millis d) \<le> duration_max" if "as_millis d \<le> umax 16" for d
  proof -
    have "d = from_millis (as_millis d) + d mod 1000000" by (simp add: from_millis_def as_millis_def)
    moreover have "d mod 1000000 < 1000000" by simp
    ultimately show "from_millis (as_millis d) \<le> d" "d < from_millis (as_millis d) + from_millis 1"
      by (simp_all add: from_millis_def)
    show "from_millis (as_millis d) \<le> duration_max"
      using that by (simp add: from_millis_def umax_def duration_max_def)
  qed
  show ?thesis using kept w ms [of "wi_stalled w0"]
    by (simp add: w0_def [symmetric])
       (simp add: t_def take_back_def take_report_def Let_def w0_def [symmetric] counters_ok_def
         window_default_def sat_add_def to_width_exact dur_add_def)
qed

section \<open>Stalls\<close>

text \<open>
  The worker's own quiet is not charged to the link: when two datagrams were stamped \<open>ms\<close>
  milliseconds apart and arrived in order, within the stamp's range, the silence between them adds
  at most its remainder over \<open>ms\<close> to the stalled time that the report carries.
\<close>

lemma quiet_worker_is_not_a_stall:
  assumes stamp: "\<not> has_flag (mh_flags h) RETRANSMIT" "ra_last_send_ms_lo s = Some prev"
      "mh_send_ms_lo h = prev + word_of_nat ms"
    and gap: "from_millis ms \<le> since now (ra_arrived_at s)" "since now (ra_arrived_at s) < SEND_STAMP_RANGE"
  shows "wi_stalled (ra_window (settle_silence h now s)) \<le> wi_stalled (ra_window s) +
    (since now (max (ra_arrived_at s) (ra_stall_charged_to s)) - from_millis ms)"
proof -
  note share = read_stamp_exact [OF stamp gap]
  have charge: "wi_stalled (ra_window (charge_stall now (from_millis ms) t)) \<le> wi_stalled (ra_window s) +
      (since now (max (ra_arrived_at s) (ra_stall_charged_to s)) - from_millis ms)"
    if "ra_window t = ra_window s" "ra_arrived_at t = ra_arrived_at s"
      "ra_stall_charged_to t = ra_stall_charged_to s" for t
    using that by (simp add: charge_stall_def Let_def dur_add_def min.coboundedI1)
  have same: "ra_window (resume now t) = ra_window t" "ra_arrived_at (resume now t) = ra_arrived_at t"
    "ra_stall_charged_to (resume now t) = ra_stall_charged_to t"
    "ra_window (attribute g st d k t) = ra_window t" "ra_arrived_at (attribute g st d k t) = ra_arrived_at t"
    "ra_stall_charged_to (attribute g st d k t) = ra_stall_charged_to t" for g st d k t
    by (simp_all add: resume_def attribute_def Let_def)
  show ?thesis unfolding settle_silence_def share Let_def
    by (auto simp: same intro!: charge)
qed


lemma quiet_worker_is_not_a_stall_witness:
  "wi_stalled (ra_window (settle_silence (demo_header\<lparr>mh_send_ms_lo := 80\<rparr>) 100000000
     ((reassembler_new 7 config_default 0)\<lparr>ra_last_send_ms_lo := Some 0, ra_any_arrived := True\<rparr>))) \<le> 20000000"
  using quiet_worker_is_not_a_stall [where h = "demo_header\<lparr>mh_send_ms_lo := 80\<rparr>" and now = 100000000 and prev = 0
      and ms = 80 and s = "(reassembler_new 7 config_default 0)\<lparr>ra_last_send_ms_lo := Some 0, ra_any_arrived := True\<rparr>"]
  by (simp add: demo_header_def has_flag_def flag_values since_def reassembler_new_def Let_def
      layout_simps window_default_def)

definition owed :: reassembler where
  "owed = (reassembler_new 7 config_default 0)\<lparr>ra_ltr_acks := [3, 1],
     ra_window := window_default\<lparr>wi_frames_ok := 4, wi_stalled := 1500000\<rparr>\<rparr>"

lemma unsent_report_is_kept_witness:
  "wi_frames_ok (ra_window (take_back (snd (take_report 0 0 owed)) (fst (take_report 0 0 owed)))) = 4 \<and>
   ra_ltr_acks (take_back (snd (take_report 0 0 owed)) (fst (take_report 0 0 owed))) = [3, 1]"
proof -
  have "\<not> stalled 0 owed" by (simp add: stalled_def owed_def reassembler_new_def Let_def)
  then show ?thesis using unsent_report_is_kept [of 0 owed 0]
    by (simp add: owed_def counters_ok_def window_default_def umax_def as_millis_def layout_simps)
qed

end
