(* ===== verification/Redundancy.thy ===== *)
theory Redundancy
  imports Reassemble_State Packetize
begin

text \<open>
  The worker's adaptive parity ratio (\<open>slopty-media/src/redundancy.rs\<close>): receiver reports in, a
  ratio in thousandths out, quick to rise and slow to fall.
\<close>

section \<open>The controller\<close>

record redundancy =
  rd_permille :: nat
  rd_loss_permille :: nat

definition FALL_SHIFT :: nat where "FALL_SHIFT = 3"
definition HEADROOM :: nat where "HEADROOM = 2"
definition REDUNDANCY_MAX :: nat where "REDUNDANCY_MAX = 500"
definition RISE_SHIFT :: nat where "RISE_SHIFT = 1"
definition STEP :: nat where "STEP = 20"

lemmas redundancy_consts [layout_simps] =
  FALL_SHIFT_def HEADROOM_def REDUNDANCY_MAX_def RISE_SHIFT_def STEP_def

definition redundancy_new :: redundancy where
  "redundancy_new = \<lparr>rd_permille = DEFAULT_PARITY_PERMILLE, rd_loss_permille = 0\<rparr>"

definition smooth :: "nat \<Rightarrow> nat \<Rightarrow> nat" where
  "smooth current sample =
    (let shift = (if sample > current then RISE_SHIFT else FALL_SHIFT);
         weight = 2 ^ shift;
         keep = weight - 1
     in opt_or (checked_div (sat_add 32 (sat_mul 32 current keep) sample) weight) sample)"

text \<open>The loss of one report, in thousandths of the datagrams sent.\<close>

definition report_loss :: "receiver_report \<Rightarrow> nat \<Rightarrow> nat" where
  "report_loss report datagrams_sent =
    (let sent = max (max datagrams_sent (rr_datagrams_lost report)) 1;
         loss = opt_or (checked_div (sat_mul 64 (rr_datagrams_lost report) 1000) sent) 0
     in if loss \<le> umax 32 then loss else 1000)"

text \<open>The ratio a report asks for.\<close>

definition redundancy_target :: "receiver_report \<Rightarrow> nat \<Rightarrow> nat \<Rightarrow> nat" where
  "redundancy_target report loss_permille permille =
    (let target = sat_add 32 (sat_mul 32 loss_permille HEADROOM) REDUNDANCY_MIN;
         target = (if rr_frames_lost report > 0
                   then max target (sat_mul 32 permille 3 div 2) else target);
         target = clamp REDUNDANCY_MIN REDUNDANCY_MAX target
     in if target \<le> umax 16 then target else REDUNDANCY_MAX)"

definition redundancy_on_report :: "receiver_report \<Rightarrow> nat \<Rightarrow> redundancy \<Rightarrow> redundancy \<times> nat" where
  "redundancy_on_report report datagrams_sent r =
    (let r = (if rr_stalled_ms report = 0 \<and> rr_stalls report = 0
              then r\<lparr>rd_loss_permille := smooth (rd_loss_permille r) (report_loss report datagrams_sent)\<rparr>
              else r);
         target = redundancy_target report (rd_loss_permille r) (rd_permille r);
         far_enough = abs_diff target (rd_permille r) \<ge> STEP;
         r = (if far_enough \<or> target = REDUNDANCY_MIN \<or> target = REDUNDANCY_MAX
              then r\<lparr>rd_permille := target\<rparr> else r)
     in (r, rd_permille r))"

section \<open>Bounds\<close>

definition redundancy_ok :: "redundancy \<Rightarrow> bool" where
  "redundancy_ok r \<longleftrightarrow> REDUNDANCY_MIN \<le> rd_permille r \<and> rd_permille r \<le> REDUNDANCY_MAX \<and>
     rd_loss_permille r \<le> 1000"

lemma redundancy_ok_new: "redundancy_ok redundancy_new"
  by (simp add: redundancy_ok_def redundancy_new_def layout_simps)

lemma report_loss_le: "rr_datagrams_lost report \<le> umax 32 \<Longrightarrow> report_loss report sent \<le> 1000"
proof -
  let ?l = "rr_datagrams_lost report" and ?s = "max (max sent (rr_datagrams_lost report)) 1"
  assume "?l \<le> umax 32"
  then have "sat_mul 64 ?l 1000 = ?l * 1000" by (simp add: sat_mul_def umax_def)
  moreover have "?l * 1000 div ?s \<le> 1000"
  proof -
    have "?l * 1000 div ?s \<le> ?s * 1000 div ?s" by (intro div_le_mono) simp
    then show ?thesis by simp
  qed
  ultimately show ?thesis by (simp add: report_loss_def Let_def checked_div_def opt_or_def)
qed

text \<open>On the values that occur the arithmetic is exact: one half, or one eighth, of the way.\<close>

lemma smooth_eq:
  assumes "current \<le> 1000" and "sample \<le> 1000"
  shows "smooth current sample =
    (if sample > current then (current + sample) div 2 else (7 * current + sample) div 8)"
  using assms by (simp add: smooth_def Let_def layout_simps sat_add_def sat_mul_def umax_def
      checked_div_def opt_or_def mult.commute)

lemma smooth_between:
  assumes "current \<le> 1000" and "sample \<le> 1000"
  shows "min current sample \<le> smooth current sample \<and> smooth current sample \<le> max current sample"
  unfolding smooth_eq [OF assms] by (auto simp: min_def max_def)

lemma smooth_le: "current \<le> 1000 \<Longrightarrow> sample \<le> 1000 \<Longrightarrow> smooth current sample \<le> 1000"
  using smooth_between [of current sample] by linarith

lemma on_report_loss:
  "rd_loss_permille (fst (redundancy_on_report report sent r)) =
    (if rr_stalled_ms report = 0 \<and> rr_stalls report = 0
     then smooth (rd_loss_permille r) (report_loss report sent) else rd_loss_permille r)"
  by (simp add: redundancy_on_report_def Let_def)

text \<open>Within the bounds nothing saturates.\<close>

lemma clamp_50_500 [simp]: "50 \<le> clamp 50 500 (x :: nat)" "clamp 50 500 (x :: nat) \<le> 500"
  by (simp_all add: clamp_def)

lemma target_eq:
  assumes "loss \<le> 1000" and "permille \<le> 500"
  shows "redundancy_target report loss permille = clamp REDUNDANCY_MIN REDUNDANCY_MAX
     (if rr_frames_lost report > 0 then max (2 * loss + REDUNDANCY_MIN) (3 * permille div 2)
      else 2 * loss + REDUNDANCY_MIN)"
proof -
  have exact: "sat_add 32 (sat_mul 32 loss HEADROOM) REDUNDANCY_MIN = 2 * loss + REDUNDANCY_MIN"
    "sat_mul 32 permille 3 = 3 * permille"
    using assms by (simp_all add: layout_simps sat_add_def sat_mul_def umax_def)
  have "clamp 50 500 x \<le> umax 16" for x :: nat
    by (rule le_trans [of _ 500]) (simp_all add: umax_def)
  then show ?thesis by (simp add: redundancy_target_def Let_def exact) (simp add: layout_simps)
qed

lemma on_report_permille:
  "rd_permille (fst (redundancy_on_report report sent r)) =
    (let target = redundancy_target report
           (rd_loss_permille (fst (redundancy_on_report report sent r))) (rd_permille r)
     in if abs_diff target (rd_permille r) \<ge> STEP \<or> target = REDUNDANCY_MIN \<or> target = REDUNDANCY_MAX
        then target else rd_permille r)"
  by (simp add: redundancy_on_report_def Let_def)

lemma on_report_loss_le:
  assumes "redundancy_ok r" and "rr_datagrams_lost report \<le> umax 32"
  shows "rd_loss_permille (fst (redundancy_on_report report sent r)) \<le> 1000"
  using assms smooth_le report_loss_le by (simp add: on_report_loss redundancy_ok_def)

lemma target_bounds:
  assumes "loss \<le> 1000" and "permille \<le> 500"
  shows "50 \<le> redundancy_target report loss permille \<and> redundancy_target report loss permille \<le> 500"
  using target_eq [OF assms] by (simp add: layout_simps)

lemma redundancy_ok_report:
  assumes ok: "redundancy_ok r" and lost: "rr_datagrams_lost report \<le> umax 32"
  shows "redundancy_ok (fst (redundancy_on_report report sent r))"
proof -
  note loss = on_report_loss_le [OF ok lost, of sent]
  have "rd_permille r \<le> 500" using ok by (simp add: redundancy_ok_def layout_simps)
  from target_bounds [OF loss this, of report] ok loss show ?thesis
    by (simp add: redundancy_ok_def on_report_permille Let_def layout_simps)
qed

section \<open>How it moves\<close>

text \<open>A clean report: nothing lost, no stall.\<close>

definition clean_report :: "receiver_report \<Rightarrow> bool" where
  "clean_report report \<longleftrightarrow> rr_datagrams_lost report = 0 \<and> rr_frames_lost report = 0 \<and>
     rr_stalled_ms report = 0 \<and> rr_stalls report = 0"

lemma clean_step:
  fixes sent :: nat
  assumes ok: "redundancy_ok r" and clean: "clean_report report"
  defines "r' \<equiv> fst (redundancy_on_report report sent r)"
  shows "redundancy_ok r' \<and> rd_loss_permille r' \<le> rd_loss_permille r - 1 \<and>
    (rd_loss_permille r \<le> 1 \<longrightarrow> rd_permille r' = REDUNDANCY_MIN)"
proof -
  have lost: "rr_datagrams_lost report \<le> umax 32" using clean by (simp add: clean_report_def)
  have zero: "report_loss report sent = 0"
    using clean by (simp add: report_loss_def clean_report_def checked_div_def opt_or_def sat_mul_def)
  have "rd_loss_permille r' = 7 * rd_loss_permille r div 8"
    using ok clean smooth_eq [of "rd_loss_permille r" 0] zero
    by (simp add: r'_def on_report_loss clean_report_def redundancy_ok_def)
  then have dec: "rd_loss_permille r' \<le> rd_loss_permille r - 1"
      "rd_loss_permille r \<le> 1 \<Longrightarrow> rd_loss_permille r' = 0" by auto
  have "redundancy_target report 0 (rd_permille r) = REDUNDANCY_MIN"
    using clean ok target_eq [of 0 "rd_permille r" report]
    by (simp add: redundancy_ok_def clean_report_def layout_simps clamp_def)
  then have "rd_loss_permille r \<le> 1 \<Longrightarrow> rd_permille r' = REDUNDANCY_MIN"
    using dec(2) by (simp add: r'_def on_report_permille)
  then show ?thesis using dec(1) redundancy_ok_report [OF ok lost, of sent] by (simp add: r'_def)
qed

text \<open>Reports folded in one after the other, each with the datagrams sent since the last.\<close>

definition redundancy_run :: "(receiver_report \<times> nat) list \<Rightarrow> redundancy \<Rightarrow> redundancy" where
  "redundancy_run reports r = fold (\<lambda>(report, sent) r. fst (redundancy_on_report report sent r)) reports r"

lemma redundancy_run_ok:
  "redundancy_ok r \<Longrightarrow> \<forall>(report, sent) \<in> set reports. rr_datagrams_lost report \<le> umax 32 \<Longrightarrow>
   redundancy_ok (redundancy_run reports r)"
  by (induction reports arbitrary: r) (auto simp: redundancy_run_def redundancy_ok_report)

lemma clean_run:
  "redundancy_ok r \<Longrightarrow> \<forall>(report, sent) \<in> set reports. clean_report report \<Longrightarrow>
   rd_loss_permille r \<le> length reports \<Longrightarrow> reports \<noteq> [] \<Longrightarrow>
   rd_permille (redundancy_run reports r) = REDUNDANCY_MIN"
proof (induction reports arbitrary: r)
  case Nil
  then show ?case by simp
next
  case (Cons a reports)
  obtain report sent where a: "a = (report, sent)" by (cases a)
  let ?r = "fst (redundancy_on_report report sent r)"
  have step: "redundancy_ok ?r" "rd_loss_permille ?r \<le> rd_loss_permille r - 1"
      "rd_loss_permille r \<le> 1 \<longrightarrow> rd_permille ?r = REDUNDANCY_MIN"
    using clean_step [OF Cons.prems(1), of report sent] Cons.prems(2) a by auto
  show ?case
  proof (cases "reports = []")
    case True
    then show ?thesis using step(3) Cons.prems(3) by (simp add: redundancy_run_def a)
  next
    case False
    have "rd_permille (redundancy_run reports ?r) = REDUNDANCY_MIN"
      using step(1,2) Cons.prems(2,3) False by (intro Cons.IH) auto
    then show ?thesis by (simp add: redundancy_run_def a)
  qed
qed

text \<open>
  The parity ratio stays between 5 and 50 per cent: whatever reports come in, in whatever
  order, and whatever was sent between them.
\<close>

lemma parity_stays_in_bounds:
  assumes "\<forall>(report, sent) \<in> set reports. rr_datagrams_lost report \<le> umax 32"
  shows "REDUNDANCY_MIN \<le> rd_permille (redundancy_run reports redundancy_new) \<and>
    rd_permille (redundancy_run reports redundancy_new) \<le> REDUNDANCY_MAX"
  using redundancy_run_ok [OF redundancy_ok_new assms] by (simp add: redundancy_ok_def)

text \<open>
  The parity ratio comes back down: after as many clean reports in a row as the loss estimate
  has thousandths (one at least), the ratio is the minimum again.
\<close>

lemma parity_settles:
  assumes "redundancy_ok r" and "\<forall>(report, sent) \<in> set reports. clean_report report"
    and "rd_loss_permille r \<le> length reports" and "reports \<noteq> []"
  shows "rd_permille (redundancy_run reports r) = REDUNDANCY_MIN"
  by (rule clean_run [OF assms])

text \<open>
  A frame that parity could not save buys protection at once: the ratio after a report with a
  lost frame is at least half again the ratio before it, up to the maximum, whatever the estimate.
\<close>

lemma lost_frame_buys_parity:
  assumes "redundancy_ok r" and "rr_datagrams_lost report \<le> umax 32" and "rr_frames_lost report > 0"
  shows "min REDUNDANCY_MAX (3 * rd_permille r div 2) \<le> snd (redundancy_on_report report sent r)"
proof -
  let ?r = "fst (redundancy_on_report report sent r)"
  let ?t = "redundancy_target report (rd_loss_permille ?r) (rd_permille r)"
  have snd: "snd (redundancy_on_report report sent r) = rd_permille ?r"
    by (simp add: redundancy_on_report_def Let_def)
  have p: "50 \<le> rd_permille r" "rd_permille r \<le> 500"
    using assms(1) by (simp_all add: redundancy_ok_def layout_simps)
  have clamp: "min 500 x \<le> clamp 50 500 y" if "x \<le> y" for x y :: nat
    using that by (simp add: clamp_def)
  have t: "min 500 (3 * rd_permille r div 2) \<le> ?t"
    using assms(3) clamp [of "3 * rd_permille r div 2"]
      target_eq [OF on_report_loss_le [OF assms(1,2)] p(2), of report] by (simp add: layout_simps)
  have "?t \<le> 500" using target_bounds [OF on_report_loss_le [OF assms(1,2)] p(2)] by blast
  then have "?t = 500 \<or> 20 \<le> ?t - rd_permille r"
    using t p by linarith
  then have "STEP \<le> abs_diff ?t (rd_permille r) \<or> ?t = REDUNDANCY_MAX"
    by (auto simp: abs_diff_def layout_simps)
  then have "rd_permille ?r = ?t"
    using on_report_permille [of report sent r] by (auto simp: Let_def)
  then show ?thesis unfolding snd using t by (simp add: layout_simps)
qed

definition quiet_report :: receiver_report where
  "quiet_report = \<lparr>rr_frames_ok = 3, rr_frames_fec = 0, rr_frames_lost = 0, rr_datagrams_lost = 0,
     rr_last_worker_send_ts_us = 0, rr_hold_p50 = 0, rr_hold_p95 = 0, rr_owd_jitter = 0,
     rr_queue_depth = 0, rr_late_frames = 0, rr_acked_ltr = [0, 0, 0, 0], rr_acked_ltr_len = 0,
     rr_stalled_ms = 0, rr_stalls = 0\<rparr>"

lemma parity_stays_in_bounds_witness:
  "REDUNDANCY_MIN \<le> rd_permille (redundancy_run [(quiet_report\<lparr>rr_datagrams_lost := 40\<rparr>, 100)] redundancy_new)
   \<and> rd_permille (redundancy_run [(quiet_report\<lparr>rr_datagrams_lost := 40\<rparr>, 100)] redundancy_new) \<le> REDUNDANCY_MAX"
  by (rule parity_stays_in_bounds) (simp add: umax_def)

lemma parity_settles_witness:
  "rd_permille (redundancy_run (replicate 300 (quiet_report, 50))
     \<lparr>rd_permille = 500, rd_loss_permille = 300\<rparr>) = REDUNDANCY_MIN"
  by (rule parity_settles)
     (simp_all add: redundancy_ok_def layout_simps clean_report_def quiet_report_def)

lemma lost_frame_buys_parity_witness:
  "300 \<le> snd (redundancy_on_report (quiet_report\<lparr>rr_frames_lost := 1\<rparr>) 50 redundancy_new)"
proof -
  have "min REDUNDANCY_MAX (3 * rd_permille redundancy_new div 2)
      \<le> snd (redundancy_on_report (quiet_report\<lparr>rr_frames_lost := 1\<rparr>) 50 redundancy_new)"
    by (rule lost_frame_buys_parity [OF redundancy_ok_new]) (simp_all add: quiet_report_def umax_def)
  then show ?thesis by (simp add: redundancy_new_def layout_simps)
qed

end
