(* ===== verification/Gates.thy ===== *)
theory Gates
  imports Prelude
begin

text \<open>
  The worker's gates follow a link and switch the encoder: temporal layers here
  (\<open>slopty-media/src/layers.rs\<close>), the frame rate and the chroma in \<open>Rate\<close>. Each keeps a setting
  and returns it only when it changes, and a setting given up is held off for a while. Both
  contracts are locales; the worker that applies what a gate returns is their client.
\<close>

section \<open>The contracts\<close>

text \<open>
  \<open>shown\<close> is the setting in force, \<open>step\<close> one update: the new state, and the new setting when
  it changed.
\<close>

locale reporting_gate =
  fixes shown :: "'s \<Rightarrow> 'o"
    and step :: "'i \<Rightarrow> 's \<Rightarrow> 's \<times> 'o option"
  assumes reports: "snd (step i s) =
    (if shown (fst (step i s)) = shown s then None else Some (shown (fst (step i s))))"
begin

text \<open>An encoder that applies what it is told is always at the gate's setting.\<close>

definition follow :: "'i \<Rightarrow> 's \<times> 'o \<Rightarrow> 's \<times> 'o" where
  "follow i c = (case c of (s, cur) \<Rightarrow> (fst (step i s), opt_or (snd (step i s)) cur))"

lemma follower_in_step: "snd (fold follow is (s, shown s)) = shown (fst (fold follow is (s, shown s)))"
proof -
  have "snd (fold follow is c) = shown (fst (fold follow is c))" if "snd c = shown (fst c)" for c
    using that
  proof (induction "is" arbitrary: c)
    case Nil
    then show ?case by simp
  next
    case (Cons i "is")
    have "snd (follow i c) = shown (fst (follow i c))"
      using Cons.prems by (auto simp: follow_def reports opt_or_def split: prod.split)
    then show ?case using Cons.IH by simp
  qed
  then show ?thesis by simp
qed

end

text \<open>
  \<open>on\<close> is the setting that costs, \<open>held\<close> the updates it stays off for. It counts down by at
  most one a step, and the setting does not come back before the count has run out.
\<close>

locale held_gate =
  fixes on :: "'s \<Rightarrow> bool"
    and held :: "'s \<Rightarrow> nat"
    and step :: "'i \<Rightarrow> 's \<Rightarrow> 's"
  assumes counts_down: "\<not> on s \<Longrightarrow> held s - 1 \<le> held (step i s)"
    and holds: "\<not> on s \<Longrightarrow> 1 < held s \<Longrightarrow> \<not> on (step i s)"
begin

lemma stays_off:
  assumes "\<not> on s" and "length is < held s"
  shows "\<not> on (fold step is s)"
  using assms
proof (induction "is" arbitrary: s)
  case Nil
  then show ?case by simp
next
  case (Cons i "is")
  have "\<not> on (step i s)" using Cons.prems by (intro holds) auto
  moreover have "length is < held (step i s)"
    using counts_down [OF Cons.prems(1), of i] Cons.prems(2) by simp
  ultimately show ?case using Cons.IH by simp
qed

end

section \<open>Temporal layers\<close>

record layer_gate =
  lg_on :: bool
  lg_lossy_run :: nat
  lg_clean_run :: nat
  lg_held_off :: nat

definition HOLD_WINDOWS :: nat where "HOLD_WINDOWS = 200"
definition OFF_WINDOWS :: nat where "OFF_WINDOWS = 40"
definition ON_WINDOWS :: nat where "ON_WINDOWS = 2"

lemmas layer_consts [layout_simps] = HOLD_WINDOWS_def OFF_WINDOWS_def ON_WINDOWS_def

definition layer_gate_default :: layer_gate where
  "layer_gate_default = \<lparr>lg_on = False, lg_lossy_run = 0, lg_clean_run = 0, lg_held_off = 0\<rparr>"

definition layer_update :: "bool \<Rightarrow> nat \<Rightarrow> layer_gate \<Rightarrow> layer_gate \<times> bool option" where
  "layer_update lossy dropped g =
    (let g = (if lossy then g\<lparr>lg_lossy_run := sat_add 32 (lg_lossy_run g) 1, lg_clean_run := 0\<rparr>
              else g\<lparr>lg_clean_run := sat_add 32 (lg_clean_run g) 1, lg_lossy_run := 0\<rparr>);
         g = g\<lparr>lg_held_off := lg_held_off g - 1\<rparr>;
         (on, g) = (if lg_on g then
                      (if dropped > 0 then (False, g\<lparr>lg_held_off := HOLD_WINDOWS\<rparr>)
                       else (lg_clean_run g < OFF_WINDOWS, g))
                    else (lg_held_off g = 0 \<and> lg_lossy_run g \<ge> ON_WINDOWS, g))
     in if on = lg_on g then (g, None) else (g\<lparr>lg_on := on\<rparr>, Some on))"

interpretation layers: reporting_gate lg_on "\<lambda>(lossy, dropped). layer_update lossy dropped"
  by unfold_locales (auto simp: layer_update_def Let_def split: prod.splits if_splits)

interpretation layers_held: held_gate lg_on lg_held_off "\<lambda>(lossy, dropped) g. fst (layer_update lossy dropped g)"
  by unfold_locales (auto simp: layer_update_def Let_def split: prod.splits if_splits)

text \<open>Updates in a row: the windows' verdicts on the link and the frames dropped in them.\<close>

definition layer_run :: "(bool \<times> nat) list \<Rightarrow> layer_gate \<Rightarrow> layer_gate" where
  "layer_run ws g = fold (\<lambda>(lossy, dropped) g. fst (layer_update lossy dropped g)) ws g"

text \<open>
  A layered session that drops frames loses its layers at once and for ten seconds: after the
  update that saw the drop the gate is off, and it stays off through any further windows short of
  \<open>HOLD_WINDOWS\<close>, however lossy the link.
\<close>

lemma dropped_frames_hold_layers_off:
  assumes "lg_on g" and "dropped > 0" and "length ws < HOLD_WINDOWS"
  shows "\<not> lg_on (layer_run ws (fst (layer_update lossy dropped g)))"
proof -
  let ?g = "fst (layer_update lossy dropped g)"
  have "\<not> lg_on ?g" "lg_held_off ?g = HOLD_WINDOWS"
    using assms(1,2) by (auto simp: layer_update_def Let_def)
  then show ?thesis unfolding layer_run_def using assms(3) by (intro layers_held.stays_off) auto
qed

lemma dropped_frames_hold_layers_off_witness:
  "\<not> lg_on (layer_run (replicate 199 (True, 0))
     (fst (layer_update True 1 (layer_gate_default\<lparr>lg_on := True\<rparr>))))"
  by (rule dropped_frames_hold_layers_off) (simp_all add: layer_gate_default_def layout_simps)

text \<open>The two runs count the windows at the end of the past that agree.\<close>

definition streak :: "bool \<Rightarrow> (bool \<times> nat) list \<Rightarrow> nat" where
  "streak lossy past = length (takeWhile (\<lambda>w. fst w = lossy) (rev past))"

lemma layer_update_runs:
  "lg_lossy_run (fst (layer_update lossy dropped g)) = (if lossy then sat_add 32 (lg_lossy_run g) 1 else 0)"
  "lg_clean_run (fst (layer_update lossy dropped g)) = (if lossy then 0 else sat_add 32 (lg_clean_run g) 1)"
  by (auto simp: layer_update_def Let_def)

lemma runs_are_streaks:
  "lg_lossy_run (layer_run past layer_gate_default) = min (streak True past) (umax 32)"
  "lg_clean_run (layer_run past layer_gate_default) = min (streak False past) (umax 32)"
proof (induction past rule: rev_induct)
  case Nil
  {
    case 1
    show ?case by (simp add: layer_run_def layer_gate_default_def streak_def)
  next
    case 2
    show ?case by (simp add: layer_run_def layer_gate_default_def streak_def)
  }
next
  case (snoc w past)
  have step: "layer_run (past @ [w]) layer_gate_default
      = fst (layer_update (fst w) (snd w) (layer_run past layer_gate_default))"
    by (simp add: layer_run_def split_def)
  {
    case 1
    show ?case using snoc.IH(1) by (auto simp: step layer_update_runs streak_def sat_add_def umax_def)
  next
    case 2
    show ?case using snoc.IH(2) by (auto simp: step layer_update_runs streak_def sat_add_def umax_def)
  }
qed

text \<open>
  Hysteresis of temporal layers: the gate goes on only when the last two windows were lossy,
  and, unless the encoder dropped a frame, goes off only when the last forty were clean.
\<close>

lemma layers_need_a_streak:
  fixes past :: "(bool \<times> nat) list"
  defines "g \<equiv> layer_run past layer_gate_default"
  shows "snd (layer_update lossy dropped g) = Some on \<Longrightarrow>
    (if on then ON_WINDOWS \<le> streak True (past @ [(lossy, dropped)])
     else dropped > 0 \<or> OFF_WINDOWS \<le> streak False (past @ [(lossy, dropped)]))"
proof -
  assume change: "snd (layer_update lossy dropped g) = Some on"
  let ?g = "fst (layer_update lossy dropped g)"
  have step: "layer_run (past @ [(lossy, dropped)]) layer_gate_default = ?g"
    by (simp add: layer_run_def g_def)
  have runs: "lg_lossy_run ?g \<le> streak True (past @ [(lossy, dropped)])"
    "lg_clean_run ?g \<le> streak False (past @ [(lossy, dropped)])"
    using runs_are_streaks [of "past @ [(lossy, dropped)]"] unfolding step by simp_all
  have "if on then ON_WINDOWS \<le> lg_lossy_run ?g else dropped > 0 \<or> OFF_WINDOWS \<le> lg_clean_run ?g"
    using change by (auto simp: layer_update_def Let_def split: if_splits)
  then show ?thesis using runs by (auto split: if_splits)
qed

lemma layers_need_a_streak_witness:
  "ON_WINDOWS \<le> streak True ([(False, 0), (True, 0)] @ [(True, 0)])"
proof -
  have "snd (layer_update True 0 (layer_run [(False, 0), (True, 0)] layer_gate_default)) = Some True"
    by (simp add: layer_run_def layer_update_def layer_gate_default_def layout_simps sat_add_def umax_def)
  from layers_need_a_streak [OF this] show ?thesis by simp
qed

end
