(* ===== verification/Rate.thy ===== *)
theory Rate
  imports Reassemble_State Gates
begin

text \<open>
  The worker's rate control (\<open>slopty-media/src/rate.rs\<close>): the policy that judges a window of
  receiver reports, the bitrate controller with its congestion cap, the frame-rate ladder, the
  watch on the encoder, the capture gate and the chroma gate.

  The chroma gate's band is an argument: \<open>full_chroma_band\<close> computes it with \<open>f64::powf\<close>, which is
  not modelled.
\<close>

section \<open>Constants\<close>

definition DECIDE_EVERY :: nat where "DECIDE_EVERY = 10"
definition COOLDOWN :: nat where "COOLDOWN = 4"
definition SETTLE_REPORTS :: nat where "SETTLE_REPORTS = 2"
definition MIN_BPS :: nat where "MIN_BPS = 1000000"
definition START_BPS :: nat where "START_BPS = 12000000"
definition STEP_MIN_BPS :: nat where "STEP_MIN_BPS = 500000"
definition HEAVY_LOSS_PERMILLE :: nat where "HEAVY_LOSS_PERMILLE = 100"
definition UNREPAIRED_LOSS_PERMILLE :: nat where "UNREPAIRED_LOSS_PERMILLE = 20"
definition CLEAN_LOSS_PERMILLE :: nat where "CLEAN_LOSS_PERMILLE = 5"
definition OVERUSE_QUEUE :: nat where "OVERUSE_QUEUE = 3"
definition CLEAN_QUEUE :: nat where "CLEAN_QUEUE = 1"
definition OVERUSE_HOLD_MS :: nat where "OVERUSE_HOLD_MS = 60"
definition CLEAN_HOLD_MS :: nat where "CLEAN_HOLD_MS = 25"
definition CADENCE_DROP_BYTES :: nat where "CADENCE_DROP_BYTES = 8 * 1024"
definition CADENCE_RAISE_BYTES :: nat where "CADENCE_RAISE_BYTES = 12 * 1024"
definition ENCODER_LATE_PERIODS :: nat where "ENCODER_LATE_PERIODS = 3"
definition ENCODER_LATE_RUN :: nat where "ENCODER_LATE_RUN = 12"
definition ENCODER_WINDOW :: nat where "ENCODER_WINDOW = 30"
definition ENCODER_SHORT_EIGHTHS :: nat where "ENCODER_SHORT_EIGHTHS = 7"
definition ENCODER_ROOM_SEVENTHS :: nat where "ENCODER_ROOM_SEVENTHS = 8"
definition FULL_CHROMA_HOLD :: nat where "FULL_CHROMA_HOLD = 10"

lemmas rate_consts [layout_simps] = DECIDE_EVERY_def COOLDOWN_def SETTLE_REPORTS_def MIN_BPS_def
  START_BPS_def STEP_MIN_BPS_def HEAVY_LOSS_PERMILLE_def UNREPAIRED_LOSS_PERMILLE_def
  CLEAN_LOSS_PERMILLE_def OVERUSE_QUEUE_def CLEAN_QUEUE_def OVERUSE_HOLD_MS_def CLEAN_HOLD_MS_def
  CADENCE_DROP_BYTES_def CADENCE_RAISE_BYTES_def ENCODER_LATE_PERIODS_def ENCODER_LATE_RUN_def
  ENCODER_WINDOW_def ENCODER_SHORT_EIGHTHS_def ENCODER_ROOM_SEVENTHS_def FULL_CHROMA_HOLD_def

section \<open>The path\<close>

record path_sample =
  ps_rtt :: duration
  ps_cwnd :: nat

definition window_bps :: "path_sample \<Rightarrow> nat option" where
  "window_bps p =
    (let rtt_us = as_micros (ps_rtt p)
     in if rtt_us = 0 \<or> ps_cwnd p = 0 then None
        else checked_div (sat_mul 64 (sat_mul 64 (ps_cwnd p) 8) 1000000) rtt_us)"

section \<open>The frame-rate ladder\<close>

definition under :: "nat \<Rightarrow> nat \<Rightarrow> nat" where
  "under ceiling rung = (if rung < ceiling then rung else ceiling)"

definition rungs :: "nat \<Rightarrow> nat list" where
  "rungs ceiling = [ceiling, under ceiling 60, under ceiling 30, under ceiling 15]"

definition affords :: "nat \<Rightarrow> nat \<Rightarrow> nat \<Rightarrow> bool" where
  "affords fps target_bps bytes = (case checked_div (target_bps div 8) fps of
     Some per_frame \<Rightarrow> per_frame \<ge> bytes | None \<Rightarrow> False)"

definition fastest_rung :: "nat \<Rightarrow> nat \<Rightarrow> nat \<Rightarrow> nat" where
  "fastest_rung ceiling target_bps bytes =
    (let top = ceiling; high = under ceiling 60; mid = under ceiling 30; low = under ceiling 15;
         best = low;
         best = (if mid > best \<and> affords mid target_bps bytes then mid else best);
         best = (if high > best \<and> affords high target_bps bytes then high else best);
         best = (if top > best \<and> affords top target_bps bytes then top else best)
     in best)"

record cadence =
  cd_ceiling :: nat
  cd_current :: nat

definition cadence_new :: "nat \<Rightarrow> cadence" where
  "cadence_new ceiling_fps = \<lparr>cd_ceiling = ceiling_fps, cd_current = ceiling_fps\<rparr>"

definition cadence_resume :: "nat \<Rightarrow> nat \<Rightarrow> cadence" where
  "cadence_resume ceiling_fps current_fps = \<lparr>cd_ceiling = ceiling_fps, cd_current = current_fps\<rparr>"

definition cadence_update :: "nat \<Rightarrow> cadence \<Rightarrow> cadence \<times> nat option" where
  "cadence_update target_bps c =
    (let keep = fastest_rung (cd_ceiling c) target_bps CADENCE_DROP_BYTES;
         raise = fastest_rung (cd_ceiling c) target_bps CADENCE_RAISE_BYTES
     in if keep < cd_current c then (c\<lparr>cd_current := keep\<rparr>, Some keep)
        else if raise > cd_current c then (c\<lparr>cd_current := raise\<rparr>, Some raise)
        else (c, None))"

section \<open>The watch on the encoder\<close>

definition slower_rung :: "nat \<Rightarrow> nat" where
  "slower_rung fps = (if fps > 60 then 60 else if fps > 30 then 30 else if fps > 15 then 15 else fps)"

definition period_us :: "nat \<Rightarrow> nat" where
  "period_us fps = opt_or (checked_div 1000000 fps) 1000000"

record encoder_watch =
  ew_late :: nat
  ew_rung :: nat
  ew_taken :: nat
  ew_lost :: nat
  ew_encode_us :: nat
  ew_encoded :: nat
  ew_excused :: nat

record fed =
  fed_fps :: nat
  fed_ceiling :: "nat option"

definition watch_start :: "nat \<Rightarrow> nat \<Rightarrow> encoder_watch" where
  "watch_start late rung = \<lparr>ew_late = late, ew_rung = rung, ew_taken = 0, ew_lost = 0,
     ew_encode_us = 0, ew_encoded = 0, ew_excused = 0\<rparr>"

definition weigh :: "nat \<Rightarrow> encoder_watch \<Rightarrow> encoder_watch" where
  "weigh fps w = (if fps \<noteq> ew_rung w then watch_start (ew_late w) fps else w)"

definition returned :: "nat \<Rightarrow> nat \<Rightarrow> bool \<Rightarrow> encoder_watch \<Rightarrow> encoder_watch \<times> nat option" where
  "returned encode_us fps keyframe w =
    (let w = (if keyframe then
                let slots = (case checked_div encode_us (period_us fps) of
                      Some slots \<Rightarrow> if slots < umax 32 then slots else umax 32 | None \<Rightarrow> umax 32)
                in w\<lparr>ew_excused := sat_add 32 (ew_excused w) slots\<rparr>
              else w\<lparr>ew_encode_us := sat_add 64 (ew_encode_us w) encode_us,
                     ew_encoded := sat_add 32 (ew_encoded w) 1\<rparr>)
     in if encode_us \<le> sat_mul 64 (period_us fps) ENCODER_LATE_PERIODS then (w\<lparr>ew_late := 0\<rparr>, None)
        else
          let w = w\<lparr>ew_late := sat_add 32 (ew_late w) 1\<rparr>
          in if ew_late w < ENCODER_LATE_RUN then (w, None)
             else let w = w\<lparr>ew_late := 0\<rparr>; slower = slower_rung fps
                  in (w, if slower < fps then Some slower else None))"

definition superseded :: "nat \<Rightarrow> encoder_watch \<Rightarrow> encoder_watch" where
  "superseded fps w = (let w = weigh fps w in w\<lparr>ew_lost := sat_add 32 (ew_lost w) 1\<rparr>)"

text \<open>The verdict on a full window.\<close>

definition weigh_window :: "nat \<Rightarrow> nat \<Rightarrow> encoder_watch \<Rightarrow> fed" where
  "weigh_window fps due w =
    (let rung = fps;
         delivered = opt_or (checked_div (sat_mul 64 rung (ew_taken w)) due) rung;
         capacity = opt_or (checked_div (sat_mul 64 1000000 (ew_encoded w)) (ew_encode_us w)) rung;
         fed = (if delivered < capacity then delivered else capacity);
         fed = (if fed < rung then fed else rung);
         short = sat_mul 64 fed 8 < sat_mul 64 rung ENCODER_SHORT_EIGHTHS;
         room = ew_encoded w > 0 \<and> sat_mul 64 capacity 7 > sat_mul 64 rung ENCODER_ROOM_SEVENTHS;
         fed = (if fed = 0 then 1 else fed)
     in \<lparr>fed_fps = fed,
         fed_ceiling = (if short then Some fed
                        else if room then Some (if capacity < umax 16 then capacity else umax 16)
                        else None)\<rparr>)"

definition fed_capture :: "nat \<Rightarrow> encoder_watch \<Rightarrow> encoder_watch \<times> fed option" where
  "fed_capture fps w =
    (let w = weigh fps w;
         w = w\<lparr>ew_taken := sat_add 32 (ew_taken w) 1\<rparr>;
         due = sat_add 32 (ew_taken w) (ew_lost w - ew_excused w)
     in if due < ENCODER_WINDOW then (w, None)
        else (watch_start (ew_late w) fps, Some (weigh_window fps due w)))"

section \<open>The capture gate\<close>

text \<open>A \<open>Pace\<close> is its one field, the next slot in microseconds.\<close>

definition due_at :: "nat \<Rightarrow> nat \<Rightarrow> nat" where
  "due_at fps next_us = next_us - period_us fps div 8"

definition due :: "nat \<Rightarrow> nat \<Rightarrow> nat \<Rightarrow> bool" where
  "due at_us fps next_us \<longleftrightarrow> at_us \<ge> due_at fps next_us"

definition pace_sent :: "nat \<Rightarrow> nat \<Rightarrow> nat \<Rightarrow> nat" where
  "pace_sent at_us fps next_us =
    (let period = period_us fps;
         slot = sat_add 64 next_us period
     in if at_us > slot then sat_add 64 at_us period else slot)"

section \<open>The decision window\<close>

record rate_window =
  rw_lost :: nat
  rw_sent :: nat
  rw_frames_ok :: nat
  rw_frames_lost :: nat
  rw_queue_max :: nat
  rw_hold_max :: duration
  rw_stalled_ms :: nat
  rw_stalls :: nat
  rw_path :: "path_sample option"

definition rate_window_default :: rate_window where
  "rate_window_default = \<lparr>rw_lost = 0, rw_sent = 0, rw_frames_ok = 0, rw_frames_lost = 0,
     rw_queue_max = 0, rw_hold_max = 0, rw_stalled_ms = 0, rw_stalls = 0, rw_path = None\<rparr>"

definition window_add :: "receiver_report \<Rightarrow> nat \<Rightarrow> bool \<Rightarrow> rate_window \<Rightarrow> rate_window" where
  "window_add report datagrams_sent settling w =
    (let w = w\<lparr>rw_lost := sat_add 32 (rw_lost w) (rr_datagrams_lost report),
               rw_sent := sat_add 32 (rw_sent w) datagrams_sent,
               rw_frames_ok := sat_add 32 (rw_frames_ok w) (rr_frames_ok report),
               rw_frames_lost := sat_add 32 (rw_frames_lost w) (rr_frames_lost report),
               rw_stalled_ms := sat_add 32 (rw_stalled_ms w) (rr_stalled_ms report),
               rw_stalls := sat_add 32 (rw_stalls w) (rr_stalls report)\<rparr>
     in if settling then w
        else w\<lparr>rw_queue_max := max (rw_queue_max w) (rr_queue_depth report),
               rw_hold_max := (if rr_hold_p95 report > rw_hold_max w then rr_hold_p95 report
                               else rw_hold_max w)\<rparr>)"

definition add_path :: "path_sample option \<Rightarrow> rate_window \<Rightarrow> rate_window" where
  "add_path sample w =
    (case sample of None \<Rightarrow> w
     | Some sample \<Rightarrow>
       let wider = (case (Option.bind (rw_path w) window_bps, window_bps sample) of
             (_, None) \<Rightarrow> False | (None, Some _) \<Rightarrow> True | (Some have', Some new) \<Rightarrow> new > have')
       in if wider then w\<lparr>rw_path := Some sample\<rparr> else w)"

definition window_stalled :: "rate_window \<Rightarrow> bool" where
  "window_stalled w \<longleftrightarrow> rw_stalled_ms w > 0 \<or> rw_stalls w > 0"

definition loss_permille :: "rate_window \<Rightarrow> nat" where
  "loss_permille w =
    (let sent = (if rw_sent w > rw_lost w then rw_sent w else rw_lost w)
     in opt_or (checked_div (sat_mul 32 (rw_lost w) 1000) sent) 0)"

definition unrepaired_permille :: "rate_window \<Rightarrow> nat" where
  "unrepaired_permille w =
     opt_or (checked_div (sat_mul 32 (rw_frames_lost w) 1000)
               (sat_add 32 (rw_frames_ok w) (rw_frames_lost w))) 0"

datatype rate_verdict = Cut | Stall | Steady | Grow

definition judge :: "rate_window \<Rightarrow> bool \<Rightarrow> rate_verdict" where
  "judge w cooling =
    (if window_stalled w then Stall else
     let loss = loss_permille w;
         hold_ms = as_millis (rw_hold_max w);
         overuse = (loss > HEAVY_LOSS_PERMILLE \<or> unrepaired_permille w > UNREPAIRED_LOSS_PERMILLE
                    \<or> rw_queue_max w \<ge> OVERUSE_QUEUE \<or> hold_ms > OVERUSE_HOLD_MS);
         clean = (loss \<le> CLEAN_LOSS_PERMILLE \<and> rw_frames_lost w = 0
                  \<and> rw_queue_max w \<le> CLEAN_QUEUE \<and> hold_ms \<le> CLEAN_HOLD_MS)
     in if overuse then Cut else if clean \<and> \<not> cooling then Grow else Steady)"

section \<open>The bitrate controller\<close>

record decision =
  dc_verdict :: rate_verdict
  dc_target_bps :: nat
  dc_changed :: bool
  dc_capped :: bool
  dc_window :: rate_window

record rate_controller =
  rc_max_bps :: nat
  rc_wanted_bps :: nat
  rc_target_bps :: nat
  rc_reports :: nat
  rc_cooldown :: nat
  rc_settle :: nat
  rc_window :: rate_window

definition controller_new :: "nat \<Rightarrow> rate_controller" where
  "controller_new max_bps =
    (let max_bps = max max_bps MIN_BPS
     in \<lparr>rc_max_bps = max_bps, rc_wanted_bps = min max_bps START_BPS,
         rc_target_bps = min max_bps START_BPS, rc_reports = 0, rc_cooldown = 0, rc_settle = 0,
         rc_window = rate_window_default\<rparr>)"

definition set_max :: "nat \<Rightarrow> rate_controller \<Rightarrow> rate_controller" where
  "set_max max_bps c =
    (let m = max max_bps MIN_BPS
     in c\<lparr>rc_max_bps := m, rc_wanted_bps := min (rc_wanted_bps c) m,
          rc_target_bps := min (rc_target_bps c) m\<rparr>)"

text \<open>What the verdict does to the policy's value and the cooldown.\<close>

definition follow_verdict :: "rate_verdict \<Rightarrow> rate_controller \<Rightarrow> rate_controller" where
  "follow_verdict verdict c =
    (let before = rc_target_bps c; under_cap = (rc_target_bps c < rc_wanted_bps c)
     in case verdict of
          Cut \<Rightarrow> c\<lparr>rc_wanted_bps := sat_mul 32 before 3 div 4, rc_cooldown := COOLDOWN\<rparr>
        | Grow \<Rightarrow> (if \<not> under_cap
                   then c\<lparr>rc_wanted_bps := sat_add 32 before (max (before div 8) STEP_MIN_BPS)\<rparr> else c)
        | Stall \<Rightarrow> c
        | Steady \<Rightarrow> c\<lparr>rc_cooldown := rc_cooldown c - 1\<rparr>)"

definition path_cap :: "path_sample option \<Rightarrow> nat option" where
  "path_cap path = map_option (\<lambda>window. to_width 32 (sat_mul 64 window 9 div 10))
     (Option.bind path window_bps)"

definition decide :: "rate_controller \<Rightarrow> rate_controller \<times> decision" where
  "decide c =
    (let path = rw_path (rc_window c);
         verdict = judge (rc_window c) (rc_cooldown c > 0);
         before = rc_target_bps c;
         c = follow_verdict verdict c;
         c = c\<lparr>rc_wanted_bps := clamp MIN_BPS (rc_max_bps c) (rc_wanted_bps c)\<rparr>;
         c = c\<lparr>rc_target_bps := max (case path_cap path of None \<Rightarrow> rc_wanted_bps c
                                     | Some cap \<Rightarrow> min cap (rc_wanted_bps c)) MIN_BPS\<rparr>
     in (c, \<lparr>dc_verdict = verdict, dc_target_bps = rc_target_bps c,
             dc_changed = (rc_target_bps c \<noteq> before),
             dc_capped = (rc_target_bps c < rc_wanted_bps c), dc_window = rc_window c\<rparr>))"

definition controller_on_report ::
  "receiver_report \<Rightarrow> nat \<Rightarrow> path_sample option \<Rightarrow> rate_controller
     \<Rightarrow> rate_controller \<times> decision option" where
  "controller_on_report report datagrams_sent path c =
    (let settling = rc_settle c > 0;
         c = c\<lparr>rc_settle := rc_settle c - 1\<rparr>;
         c = (if rr_stalled_ms report > 0 \<or> rr_stalls report > 0
              then c\<lparr>rc_settle := SETTLE_REPORTS\<rparr> else c);
         c = c\<lparr>rc_window := add_path path (window_add report datagrams_sent settling (rc_window c)),
               rc_reports := sat_add 32 (rc_reports c) 1\<rparr>
     in if rc_reports c < DECIDE_EVERY then (c, None)
        else case decide c of
               (c, decision) \<Rightarrow> (c\<lparr>rc_reports := 0, rc_window := rate_window_default\<rparr>, Some decision))"

section \<open>The chroma gate\<close>

datatype chroma = Subsampled | Full

record chroma_gate =
  cg_asked :: chroma
  cg_current :: chroma
  cg_enter_bps :: nat
  cg_leave_bps :: nat
  cg_hold :: nat

definition chroma_ask :: "nat \<times> nat \<Rightarrow> chroma \<Rightarrow> nat \<Rightarrow> chroma_gate \<Rightarrow> chroma_gate" where
  "chroma_ask band asked target_bps g =
    (let g = (if asked \<noteq> cg_asked g \<or> band \<noteq> (cg_enter_bps g, cg_leave_bps g)
              then g\<lparr>cg_hold := 0\<rparr> else g);
         g = g\<lparr>cg_enter_bps := fst band, cg_leave_bps := snd band, cg_asked := asked\<rparr>
     in case (asked, cg_current g) of
          (Full, Full) \<Rightarrow> if target_bps \<ge> cg_leave_bps g then g\<lparr>cg_current := Full\<rparr>
                          else g\<lparr>cg_hold := FULL_CHROMA_HOLD, cg_current := Subsampled\<rparr>
        | (Full, Subsampled) \<Rightarrow> if cg_hold g = 0 \<and> target_bps \<ge> cg_enter_bps g
                                then g\<lparr>cg_current := Full\<rparr> else g\<lparr>cg_current := Subsampled\<rparr>
        | (Subsampled, _) \<Rightarrow> g\<lparr>cg_current := Subsampled\<rparr>)"

definition chroma_new :: "nat \<times> nat \<Rightarrow> chroma \<Rightarrow> nat \<Rightarrow> chroma_gate" where
  "chroma_new band asked target_bps = chroma_ask band asked target_bps
     \<lparr>cg_asked = asked, cg_current = Subsampled, cg_enter_bps = 0, cg_leave_bps = 0, cg_hold = 0\<rparr>"

definition chroma_update :: "nat \<Rightarrow> chroma_gate \<Rightarrow> chroma_gate \<times> chroma option" where
  "chroma_update target_bps g =
    (let g = g\<lparr>cg_hold := cg_hold g - 1\<rparr>
     in if cg_current g = Full \<and> target_bps < cg_leave_bps g
        then (g\<lparr>cg_hold := FULL_CHROMA_HOLD, cg_current := Subsampled\<rparr>, Some Subsampled)
        else if cg_current g = Subsampled \<and> cg_asked g = Full \<and> cg_hold g = 0
                \<and> target_bps \<ge> cg_enter_bps g
        then (g\<lparr>cg_current := Full\<rparr>, Some Full)
        else (g, None))"

definition chroma_refuse :: "chroma_gate \<Rightarrow> chroma_gate" where
  "chroma_refuse g = g\<lparr>cg_asked := Subsampled, cg_current := Subsampled\<rparr>"

section \<open>The ladder\<close>

lemma under_mono: "r \<le> r' \<Longrightarrow> under c r \<le> under c r'" "under c r \<le> c"
  by (auto simp: under_def)

lemma affords_mono:
  "affords fps t b' \<Longrightarrow> b \<le> b' \<Longrightarrow> affords fps t b"
  "affords fps' t b \<Longrightarrow> 0 < fps \<Longrightarrow> fps \<le> fps' \<Longrightarrow> affords fps t b"
proof -
  show "affords fps t b' \<Longrightarrow> b \<le> b' \<Longrightarrow> affords fps t b"
    by (auto simp: affords_def checked_div_def split: if_splits)
  show "affords fps' t b \<Longrightarrow> 0 < fps \<Longrightarrow> fps \<le> fps' \<Longrightarrow> affords fps t b"
    using div_le_mono2 [of fps fps' "t div 8"]
    by (auto simp: affords_def checked_div_def split: if_splits)
qed

text \<open>The fastest rung is the greatest of the ladder that is the slowest one or is afforded.\<close>

lemma fastest_rung_Max:
  "fastest_rung c t b = Max (insert (under c 15) {r \<in> {under c 30, under c 60, c}. affords r t b})"
proof -
  have le: "under c 15 \<le> under c 30" "under c 30 \<le> under c 60" "under c 60 \<le> c"
    by (simp_all add: under_mono)
  have fin: "finite {r \<in> {under c 30, under c 60, c}. affords r t b}" by simp
  show ?thesis
    by (rule Max_eqI [symmetric]) (use le in \<open>auto simp: fastest_rung_def Let_def\<close>)
qed

lemma fastest_rung_bounds:
  "fastest_rung c t b \<le> c" "fastest_rung c t b = under c 15 \<or> affords (fastest_rung c t b) t b"
  using under_mono(2) [of c] by (auto simp: fastest_rung_def Let_def)

lemma fastest_rung_antimono:
  assumes "b \<le> b'"
  shows "fastest_rung c t b' \<le> fastest_rung c t b"
  unfolding fastest_rung_Max by (rule Max_mono) (auto intro: affords_mono(1) [OF _ assms])

lemma cadence_le_keep:
  "cd_current (fst (cadence_update t c)) \<le> fastest_rung (cd_ceiling c) t CADENCE_DROP_BYTES"
  using fastest_rung_antimono [of CADENCE_DROP_BYTES CADENCE_RAISE_BYTES "cd_ceiling c" t]
  by (auto simp: cadence_update_def Let_def layout_simps)

interpretation cadence_gate: reporting_gate cd_current cadence_update
  by unfold_locales (auto simp: cadence_update_def Let_def)

text \<open>
  The frame-rate ladder does not flap: after it followed a target, the same target moves it no
  further, whatever rung it was resumed at.
\<close>

lemma cadence_settles: "snd (cadence_update t (fst (cadence_update t c))) = None"
  using fastest_rung_antimono [of CADENCE_DROP_BYTES CADENCE_RAISE_BYTES "cd_ceiling c" t]
  by (auto simp: cadence_update_def Let_def layout_simps)

text \<open>
  Frames are worth sending: once the ladder has followed a target, each frame of the second
  gets at least \<open>CADENCE_DROP_BYTES\<close> of it, unless the ladder is at its slowest rung.
\<close>

lemma cadence_feeds_frames:
  fixes t :: nat and c :: cadence
  defines "fps \<equiv> cd_current (fst (cadence_update t c))"
  shows "fps \<le> under (cd_ceiling c) 15 \<or> CADENCE_DROP_BYTES \<le> t div 8 div fps"
proof -
  let ?keep = "fastest_rung (cd_ceiling c) t CADENCE_DROP_BYTES"
  have le: "fps \<le> ?keep" unfolding fps_def by (rule cadence_le_keep)
  show ?thesis
  proof (cases "fps \<le> under (cd_ceiling c) 15")
    case False
    then have "affords ?keep t CADENCE_DROP_BYTES" using le fastest_rung_bounds(2) by (metis le_trans)
    then have "affords fps t CADENCE_DROP_BYTES" using affords_mono(2) le False by simp
    then show ?thesis by (auto simp: affords_def checked_div_def split: if_splits)
  qed simp
qed

section \<open>The watch\<close>

text \<open>A frame that came back late.\<close>

definition came_late :: "nat \<Rightarrow> nat \<Rightarrow> bool" where
  "came_late encode_us fps \<longleftrightarrow> encode_us > sat_mul 64 (period_us fps) ENCODER_LATE_PERIODS"

lemma returned_late:
  "ew_late (fst (returned us fps k w)) = (if \<not> came_late us fps then 0
     else if sat_add 32 (ew_late w) 1 < ENCODER_LATE_RUN then sat_add 32 (ew_late w) 1 else 0)"
  "snd (returned us fps k w) = (if came_late us fps \<and> ENCODER_LATE_RUN \<le> sat_add 32 (ew_late w) 1
     \<and> slower_rung fps < fps then Some (slower_rung fps) else None)"
  by (auto simp: returned_def came_late_def Let_def)

definition returned_run :: "nat \<Rightarrow> (nat \<times> bool) list \<Rightarrow> encoder_watch \<Rightarrow> encoder_watch" where
  "returned_run fps frames w = fold (\<lambda>(us, keyframe) w. fst (returned us fps keyframe w)) frames w"

lemma late_run_counts:
  "\<forall>(us, keyframe) \<in> set frames. came_late us fps \<Longrightarrow> ew_late w + length frames < ENCODER_LATE_RUN \<Longrightarrow>
   ew_late (returned_run fps frames w) = ew_late w + length frames"
  by (induction frames arbitrary: w)
     (auto simp: returned_run_def returned_late sat_add_def umax_def layout_simps)

text \<open>
  Twelve late frames in a row, and no fewer, lower the frame-rate ceiling to the next rung: after
  a frame in time, eleven late ones change nothing and the twelfth asks for the slower rung.
\<close>

lemma late_run_lowers_ceiling:
  assumes "\<not> came_late us0 fps" and "\<forall>(us, keyframe) \<in> set frames. came_late us fps"
    and "came_late us fps" and "length frames < ENCODER_LATE_RUN" and "15 < fps"
  shows "snd (returned us fps k (returned_run fps frames (fst (returned us0 fps k0 w)))) =
    (if Suc (length frames) = ENCODER_LATE_RUN then Some (slower_rung fps) else None)"
proof -
  let ?w = "fst (returned us0 fps k0 w)"
  have "ew_late (returned_run fps frames ?w) = length frames"
    using late_run_counts [OF assms(2), of ?w] assms(1,4) by (simp add: returned_late)
  moreover have "slower_rung fps < fps" using assms(5) by (simp add: slower_rung_def)
  ultimately show ?thesis using assms(3,4)
    by (auto simp: returned_late sat_add_def umax_def layout_simps)
qed

lemma late_run_lowers_ceiling_witness:
  "snd (returned 90000 60 False (returned_run 60 (replicate 11 (60000, False))
     (fst (returned 8000 60 True (watch_start 5 60))))) = Some 30"
proof -
  have "snd (returned 90000 60 False (returned_run 60 (replicate 11 (60000, False))
     (fst (returned 8000 60 True (watch_start 5 60))))) =
     (if Suc (length (replicate 11 (60000 :: nat, False))) = ENCODER_LATE_RUN then Some (slower_rung 60) else None)"
    by (rule late_run_lowers_ceiling)
       (simp_all add: came_late_def period_us_def checked_div_def opt_or_def sat_mul_def umax_def layout_simps)
  then show ?thesis by (simp add: layout_simps slower_rung_def)
qed

lemma weigh_window_bounds:
  assumes "0 < fps" and "fps < umax 16"
  shows "1 \<le> fed_fps (weigh_window fps d w) \<and> fed_fps (weigh_window fps d w) \<le> fps \<and>
    (\<forall>c. fed_ceiling (weigh_window fps d w) = Some c \<longrightarrow>
       c = fed_fps (weigh_window fps d w) \<and> (c = 1 \<or> 8 * c < 7 * fps) \<or> fps < c)"
proof -
  define cap where "cap = opt_or (checked_div (sat_mul 64 1000000 (ew_encoded w)) (ew_encode_us w)) fps"
  define del where "del = opt_or (checked_div (sat_mul 64 fps (ew_taken w)) d) fps"
  define x where "x = (let f = (if del < cap then del else cap) in if f < fps then f else fps)"
  let ?x = "if x = 0 then 1 else x"
  have x: "x \<le> fps" by (simp add: x_def Let_def)
  have eq: "weigh_window fps d w = \<lparr>fed_fps = ?x, fed_ceiling =
      (if sat_mul 64 x 8 < sat_mul 64 fps 7 then Some ?x
       else if ew_encoded w > 0 \<and> sat_mul 64 cap 7 > sat_mul 64 fps 8
       then Some (if cap < umax 16 then cap else umax 16) else None)\<rparr>"
    by (simp only: weigh_window_def Let_def cap_def del_def x_def ENCODER_SHORT_EIGHTHS_def
        ENCODER_ROOM_SEVENTHS_def)
  have short: "8 * x < 7 * fps" if "sat_mul 64 x 8 < sat_mul 64 fps 7"
    using that x assms(2) by (simp add: sat_mul_def umax_def)
  have room: "fps < cap" if "sat_mul 64 cap 7 > sat_mul 64 fps 8"
  proof -
    have "fps * 8 < cap * 7" using that assms(2) by (simp add: sat_mul_def umax_def)
    then show ?thesis by simp
  qed
  show ?thesis unfolding eq using x assms short room by auto
qed

text \<open>
  A window's verdict is sane: the rate the encoder was fed is at least one frame and at most the
  rung, and the ceiling moves down to that rate when it is under seven eighths of the rung, or up past
  the rung.
\<close>

lemma window_verdict_bounds:
  assumes "snd (fed_capture fps w) = Some f" and "0 < fps" and "fps < umax 16"
  shows "1 \<le> fed_fps f \<and> fed_fps f \<le> fps \<and>
    (\<forall>c. fed_ceiling f = Some c \<longrightarrow> c = fed_fps f \<and> (c = 1 \<or> 8 * c < 7 * fps) \<or> fps < c)"
proof -
  obtain d u where "f = weigh_window fps d u"
    using assms(1) by (auto simp: fed_capture_def Let_def split: if_splits)
  then show ?thesis using weigh_window_bounds [OF assms(2,3)] by simp
qed

lemma window_verdict_bounds_witness:
  "1 \<le> fed_fps \<lparr>fed_fps = 66, fed_ceiling = Some 66\<rparr> \<and> 8 * 66 < 7 * (120 :: nat)"
proof -
  have "snd (fed_capture 120 \<lparr>ew_late = 0, ew_rung = 120, ew_taken = 16, ew_lost = 13, ew_encode_us = 240000,
      ew_encoded = 16, ew_excused = 0\<rparr>) = Some \<lparr>fed_fps = 66, fed_ceiling = Some 66\<rparr>"
    by (simp add: fed_capture_def weigh_def weigh_window_def Let_def sat_add_def sat_mul_def umax_def
        checked_div_def opt_or_def layout_simps)
  from window_verdict_bounds [OF this] show ?thesis by (simp add: umax_def)
qed

section \<open>The capture gate\<close>

lemma pace_sent_ge: "min (next_us + period_us fps) (umax 64) \<le> pace_sent at_us fps next_us"
  by (auto simp: pace_sent_def Let_def sat_add_def)

text \<open>Captures that each passed the gate when they were sent.\<close>

fun paced :: "nat \<Rightarrow> nat \<Rightarrow> nat list \<Rightarrow> bool" where
  "paced fps next_us [] = True"
| "paced fps next_us (at_us # later) = (due at_us fps next_us \<and> paced fps (pace_sent at_us fps next_us) later)"

text \<open>
  The gate never lets more through than the rung: of captures that all passed it, the \<open>n\<close>-th after
  the first slot was taken no earlier than \<open>n\<close> periods after that slot, less an eighth of a period.
\<close>

lemma pace_bounds_rate:
  assumes "paced fps next_us ats" and "n < length ats"
  shows "min (next_us + n * period_us fps) (umax 64) \<le> ats ! n + period_us fps div 8"
  using assms
proof (induction ats arbitrary: next_us n)
  case Nil
  then show ?case by simp
next
  case (Cons a ats)
  show ?case
  proof (cases n)
    case 0
    then show ?thesis using Cons.prems by (auto simp: due_def due_at_def)
  next
    case (Suc m)
    have "min (pace_sent a fps next_us + m * period_us fps) (umax 64) \<le> ats ! m + period_us fps div 8"
      using Cons.prems Suc by (intro Cons.IH) simp_all
    then show ?thesis using pace_sent_ge [of next_us fps a] Suc by (auto simp: min_def split: if_splits)
  qed
qed

lemma pace_bounds_rate_witness:
  "min (1000 + 2 * period_us 60) (umax 64) \<le> [1000, 17000, 33000] ! 2 + period_us 60 div 8"
  by (rule pace_bounds_rate)
     (simp_all add: due_def due_at_def pace_sent_def period_us_def checked_div_def opt_or_def
       sat_add_def umax_def Let_def)

text \<open>
  And it never falls behind: after a capture that passed the gate, the next slot is at most a
  period and an eighth later than that capture, so a display that keeps delivering is never held back
  longer than that.
\<close>

lemma pace_keeps_up:
  assumes "due at_us fps next_us"
  shows "pace_sent at_us fps next_us \<le> at_us + period_us fps + period_us fps div 8"
  using assms by (auto simp: due_def due_at_def pace_sent_def Let_def sat_add_def)

theorem pace_keeps_up_witness:
  "pace_sent 30000 60 17000 \<le> 30000 + period_us 60 + period_us 60 div 8"
  by (rule pace_keeps_up) (simp add: due_def due_at_def)

section \<open>The bitrate controller\<close>

definition rc_ok :: "rate_controller \<Rightarrow> bool" where
  "rc_ok c \<longleftrightarrow> MIN_BPS \<le> rc_target_bps c \<and> rc_target_bps c \<le> rc_wanted_bps c \<and>
     rc_wanted_bps c \<le> rc_max_bps c \<and> rc_max_bps c \<le> umax 32 \<and>
     rc_cooldown c \<le> COOLDOWN \<and> rc_reports c < DECIDE_EVERY"

text \<open>What a decision does to the two rates.\<close>

lemma follow_verdict_keeps [simp]:
  "rc_target_bps (follow_verdict v c) = rc_target_bps c" "rc_max_bps (follow_verdict v c) = rc_max_bps c"
  "rc_window (follow_verdict v c) = rc_window c" "rc_reports (follow_verdict v c) = rc_reports c"
  by (auto simp: follow_verdict_def Let_def split: rate_verdict.splits)

lemma follow_verdict_cooldown [simp]:
  "rc_cooldown (follow_verdict v c) =
    (case v of Cut \<Rightarrow> COOLDOWN | Steady \<Rightarrow> rc_cooldown c - 1 | _ \<Rightarrow> rc_cooldown c)"
  by (auto simp: follow_verdict_def Let_def split: rate_verdict.splits)

lemma decide_eqs:
  fixes c :: rate_controller
  defines "v \<equiv> judge (rc_window c) (rc_cooldown c > 0)"
  shows "dc_verdict (snd (decide c)) = v" "rc_max_bps (fst (decide c)) = rc_max_bps c"
    "rc_cooldown (fst (decide c)) = (case v of Cut \<Rightarrow> COOLDOWN | Steady \<Rightarrow> rc_cooldown c - 1 | _ \<Rightarrow> rc_cooldown c)"
    "rc_wanted_bps (fst (decide c)) = clamp MIN_BPS (rc_max_bps c) (rc_wanted_bps (follow_verdict v c))"
    "rc_target_bps (fst (decide c)) = max (case path_cap (rw_path (rc_window c)) of
       None \<Rightarrow> rc_wanted_bps (fst (decide c)) | Some cap \<Rightarrow> min cap (rc_wanted_bps (fst (decide c)))) MIN_BPS"
    "dc_target_bps (snd (decide c)) = rc_target_bps (fst (decide c))"
    "rc_reports (fst (decide c)) = rc_reports c"
  unfolding v_def
  by (simp_all add: decide_def Let_def split: option.splits)

lemma decide_bounds:
  assumes "MIN_BPS \<le> rc_max_bps c"
  shows "MIN_BPS \<le> rc_target_bps (fst (decide c)) \<and>
    rc_target_bps (fst (decide c)) \<le> rc_wanted_bps (fst (decide c)) \<and>
    rc_wanted_bps (fst (decide c)) \<le> rc_max_bps c"
proof -
  have "MIN_BPS \<le> rc_wanted_bps (fst (decide c)) \<and> rc_wanted_bps (fst (decide c)) \<le> rc_max_bps c"
    unfolding decide_eqs(4) by (rule clamp_bounds [OF assms])
  then show ?thesis using decide_eqs(5) [of c] by (auto split: option.splits)
qed

lemma rc_ok_new: "max_bps \<le> umax 32 \<Longrightarrow> rc_ok (controller_new max_bps)"
  by (auto simp: rc_ok_def controller_new_def Let_def layout_simps umax_def)

lemma rc_ok_set_max: "rc_ok c \<Longrightarrow> m \<le> umax 32 \<Longrightarrow> rc_ok (set_max m c)"
  by (auto simp: rc_ok_def set_max_def Let_def layout_simps umax_def)

lemma rc_ok_decide: "rc_ok c \<Longrightarrow> rc_ok (fst (decide c))"
  using decide_bounds [of c] by (auto simp: rc_ok_def decide_eqs(2,3,7) split: rate_verdict.splits)

lemma on_report_cases:
  "controller_on_report rep sent path c =
    (let c' = c\<lparr>rc_settle := (if rr_stalled_ms rep > 0 \<or> rr_stalls rep > 0 then SETTLE_REPORTS
                              else rc_settle c - 1),
               rc_window := add_path path (window_add rep sent (rc_settle c > 0) (rc_window c)),
               rc_reports := sat_add 32 (rc_reports c) 1\<rparr>
     in if rc_reports c' < DECIDE_EVERY then (c', None)
        else ((fst (decide c'))\<lparr>rc_reports := 0, rc_window := rate_window_default\<rparr>, Some (snd (decide c'))))"
  by (simp add: controller_on_report_def Let_def split: prod.splits)

lemma rc_ok_report:
  assumes "rc_ok c"
  shows "rc_ok (fst (controller_on_report rep sent path c))"
proof -
  let ?c = "c\<lparr>rc_settle := (if rr_stalled_ms rep > 0 \<or> rr_stalls rep > 0 then SETTLE_REPORTS
                              else rc_settle c - 1),
               rc_window := add_path path (window_add rep sent (rc_settle c > 0) (rc_window c)),
               rc_reports := sat_add 32 (rc_reports c) 1\<rparr>"
  have "rc_ok (fst (decide ?c)\<lparr>rc_reports := 0, rc_window := rate_window_default\<rparr>)"
    using assms decide_bounds [of ?c]
    by (auto simp: rc_ok_def decide_eqs(2,3,7) layout_simps split: rate_verdict.splits)
  then show ?thesis using assms
    by (simp add: on_report_cases Let_def rc_ok_def)
qed

text \<open>Any sequence of reports and new ceilings from a new controller on.\<close>

inductive rate_reach :: "rate_controller \<Rightarrow> bool" where
  start: "max_bps \<le> umax 32 \<Longrightarrow> rate_reach (controller_new max_bps)"
| report: "rate_reach c \<Longrightarrow> rate_reach (fst (controller_on_report rep sent path c))"
| ceiling: "rate_reach c \<Longrightarrow> max_bps \<le> umax 32 \<Longrightarrow> rate_reach (set_max max_bps c)"

lemma rate_reach_ok: "rate_reach c \<Longrightarrow> rc_ok c"
  by (induction rule: rate_reach.induct) (simp_all add: rc_ok_new rc_ok_report rc_ok_set_max)

text \<open>
  C37. The target is always between the floor and the client's ceiling: through any reports, path
  samples and new ceilings, the encoder is never asked for less than a megabit or more than the client
  allowed, nor for more than the policy wants.
\<close>

theorem target_in_bounds:
  assumes "rate_reach c"
  shows "MIN_BPS \<le> rc_target_bps c \<and> rc_target_bps c \<le> rc_wanted_bps c \<and> rc_wanted_bps c \<le> rc_max_bps c"
  using rate_reach_ok [OF assms] by (simp add: rc_ok_def)

theorem target_in_bounds_witness:
  "MIN_BPS \<le> rc_target_bps (set_max 5000000 (controller_new 80000000)) \<and>
   rc_target_bps (set_max 5000000 (controller_new 80000000)) \<le> 5000000"
proof -
  have "rate_reach (set_max 5000000 (controller_new 80000000))"
    by (intro rate_reach.intros) (simp_all add: umax_def)
  from target_in_bounds [OF this] show ?thesis
    by (simp add: set_max_def controller_new_def Let_def layout_simps)
qed

text \<open>
  What a decision does, by verdict: a cut leaves three quarters of the target sent (or the floor),
  growth adds an eighth of it (at least the smallest step, up to the ceiling) and nothing while the path
  caps the target, a stall and a steady window leave the policy's value alone; and the target never
  exceeds nine tenths of what the path's widest sample allows, except for the floor. Only above
  1.4 Gbit/s, where tripling the target saturates, a cut leaves less.
\<close>

lemma decision_effect:
  assumes "rc_ok c"
  shows "(case dc_verdict (snd (decide c)) of
      Cut \<Rightarrow> rc_wanted_bps (fst (decide c)) = max MIN_BPS (min (rc_target_bps c * 3) (umax 32) div 4)
    | Grow \<Rightarrow> rc_wanted_bps (fst (decide c)) =
        (if rc_target_bps c < rc_wanted_bps c then rc_wanted_bps c
         else min (rc_max_bps c) (rc_target_bps c + max (rc_target_bps c div 8) STEP_MIN_BPS))
    | _ \<Rightarrow> rc_wanted_bps (fst (decide c)) = rc_wanted_bps c) \<and>
    (\<forall>cap. path_cap (rw_path (rc_window c)) = Some cap \<longrightarrow>
       dc_target_bps (snd (decide c)) \<le> max cap MIN_BPS)"
proof
  have inv: "MIN_BPS \<le> rc_target_bps c" "rc_target_bps c \<le> rc_wanted_bps c" "rc_wanted_bps c \<le> rc_max_bps c"
    "rc_max_bps c \<le> umax 32" using assms by (simp_all add: rc_ok_def)
  have cut: "clamp MIN_BPS (rc_max_bps c) (min (rc_target_bps c * 3) (umax 32) div 4)
      = max MIN_BPS (min (rc_target_bps c * 3) (umax 32) div 4)"
  proof -
    have "min (rc_target_bps c * 3) (umax 32) div 4 \<le> rc_target_bps c * 3 div 4" by (intro div_le_mono) simp
    also have "\<dots> \<le> rc_max_bps c" using inv by linarith
    finally show ?thesis by (auto simp: clamp_def max_def)
  qed
  have id: "clamp MIN_BPS (rc_max_bps c) (rc_wanted_bps c) = rc_wanted_bps c"
    using inv by (simp add: clamp_def)
  have grow: "clamp MIN_BPS (rc_max_bps c) (sat_add 32 (rc_target_bps c) x) = min (rc_max_bps c) (rc_target_bps c + x)" for x
    using inv by (auto simp: clamp_def sat_add_def min_def)
  show "case dc_verdict (snd (decide c)) of
      Cut \<Rightarrow> rc_wanted_bps (fst (decide c)) = max MIN_BPS (min (rc_target_bps c * 3) (umax 32) div 4)
    | Grow \<Rightarrow> rc_wanted_bps (fst (decide c)) =
        (if rc_target_bps c < rc_wanted_bps c then rc_wanted_bps c
         else min (rc_max_bps c) (rc_target_bps c + max (rc_target_bps c div 8) STEP_MIN_BPS))
    | _ \<Rightarrow> rc_wanted_bps (fst (decide c)) = rc_wanted_bps c"
    by (simp add: decide_eqs(1,4) follow_verdict_def Let_def sat_mul_def cut id grow split: rate_verdict.splits)
  show "\<forall>cap. path_cap (rw_path (rc_window c)) = Some cap \<longrightarrow> dc_target_bps (snd (decide c)) \<le> max cap MIN_BPS"
    by (auto simp: decide_eqs(5,6))
qed

lemma decision_effect_witness:
  "rc_wanted_bps (fst (decide (controller_new 80000000))) = 13500000"
proof -
  have ok: "rc_ok (controller_new 80000000)" by (rule rc_ok_new) (simp add: umax_def)
  have "dc_verdict (snd (decide (controller_new 80000000))) = Grow"
    by (simp add: decide_eqs(1) judge_def controller_new_def rate_window_default_def window_stalled_def
        loss_permille_def unrepaired_permille_def sat_mul_def sat_add_def checked_div_def opt_or_def
        Let_def layout_simps as_millis_def)
  then show ?thesis using decision_effect [OF ok]
    by (simp add: controller_new_def Let_def layout_simps)
qed

text \<open>Decisions one after the other, each on its own window.\<close>

definition decide_on :: "rate_window \<Rightarrow> rate_controller \<Rightarrow> rate_controller \<times> decision" where
  "decide_on w c = decide (c\<lparr>rc_window := w\<rparr>)"

definition decide_run :: "rate_window list \<Rightarrow> rate_controller \<Rightarrow> rate_controller" where
  "decide_run ws c = fold (\<lambda>w c. fst (decide_on w c)) ws c"

lemma cooldown_step: "rc_cooldown c - 1 \<le> rc_cooldown (fst (decide_on w c)) \<or>
    COOLDOWN \<le> rc_cooldown (fst (decide_on w c))"
  by (simp add: decide_on_def decide_eqs(3) split: rate_verdict.splits)

lemma cooldown_run:
  "rc_cooldown c \<le> COOLDOWN \<Longrightarrow> rc_cooldown c - length ws \<le> rc_cooldown (decide_run ws c) \<and>
   rc_cooldown (decide_run ws c) \<le> COOLDOWN"
proof (induction ws arbitrary: c)
  case Nil
  then show ?case by (simp add: decide_run_def)
next
  case (Cons w ws)
  let ?c = "fst (decide_on w c)"
  have le: "rc_cooldown ?c \<le> COOLDOWN"
    using Cons.prems by (auto simp: decide_on_def decide_eqs(3) split: rate_verdict.splits)
  have "decide_run (w # ws) c = decide_run ws ?c" by (simp add: decide_run_def)
  then show ?case using Cons.IH [OF le] cooldown_step [of c w] Cons.prems by auto
qed

text \<open>
  After a cut the rate does not grow for \<open>COOLDOWN\<close> decisions: whatever the windows after the one
  that cut, none of the next four decisions grows the target.
\<close>

lemma no_growth_after_cut:
  assumes "dc_verdict (snd (decide_on w0 c)) = Cut" and "length ws < COOLDOWN"
  shows "dc_verdict (snd (decide_on w (decide_run ws (fst (decide_on w0 c))))) \<noteq> Grow"
proof -
  have "rc_cooldown (fst (decide_on w0 c)) = COOLDOWN"
    using assms(1) by (simp add: decide_on_def decide_eqs(1,3))
  then have "0 < rc_cooldown (decide_run ws (fst (decide_on w0 c)))"
    using cooldown_run [of "fst (decide_on w0 c)" ws] assms(2) by linarith
  then show ?thesis by (simp add: decide_on_def decide_eqs(1) judge_def Let_def)
qed

lemma no_growth_after_cut_witness:
  "dc_verdict (snd (decide_on rate_window_default (decide_run (replicate 3 rate_window_default)
     (fst (decide_on (rate_window_default\<lparr>rw_queue_max := 5\<rparr>) (controller_new 80000000)))))) \<noteq> Grow"
proof (rule no_growth_after_cut)
  show "dc_verdict (snd (decide_on (rate_window_default\<lparr>rw_queue_max := 5\<rparr>) (controller_new 80000000))) = Cut"
    by (simp add: decide_on_def decide_eqs(1) judge_def window_stalled_def rate_window_default_def Let_def layout_simps)
qed (simp add: layout_simps)

text \<open>
  The policy on heavy loss: in a window with no stall in which more than a tenth of the datagrams
  was lost, the verdict is a cut, as long as fewer than 4294968 datagrams were lost.
\<close>

lemma heavy_loss_cuts:
  assumes "\<not> window_stalled w" and "rw_lost w * 1000 \<le> umax 32"
    and "101 * max (rw_sent w) (rw_lost w) \<le> 1000 * rw_lost w" and "rw_lost w > 0"
  shows "judge w cooling = Cut"
proof -
  let ?n = "max (rw_sent w) (rw_lost w)"
  have "101 * ?n div ?n \<le> rw_lost w * 1000 div ?n"
    using assms(3) by (intro div_le_mono) (simp add: mult.commute)
  then have "101 \<le> loss_permille w"
    using assms(2,4) by (auto simp: loss_permille_def sat_mul_def checked_div_def opt_or_def max_def)
  then show ?thesis using assms(1) by (simp add: judge_def Let_def layout_simps)
qed

theorem heavy_loss_cuts_witness:
  "judge (rate_window_default\<lparr>rw_lost := 20, rw_sent := 100\<rparr>) False = Cut"
  by (rule heavy_loss_cuts) (simp_all add: rate_window_default_def window_stalled_def umax_def)

lemma less_div_iff: "0 < n \<Longrightarrow> k < m div n \<longleftrightarrow> Suc k * n \<le> m" for n :: nat
  by (metis Suc_le_eq less_eq_div_iff_mult_less_eq)

text \<open>
  C38. From 4294968 lost datagrams in a window on, the loss reads smaller the more datagrams there were, because its numerator has
  saturated at 32 bits: of a window with no other symptom the verdict is a cut only below 42524429 datagrams, and from
  715827883 on the bitrate may even grow, although every one of them may have been lost. (The parity controller computes
  the same ratio in 64 bits.)
\<close>

theorem saturated_loss_reads_small:
  assumes "umax 32 < 1000 * rw_lost w" and "\<not> window_stalled w" and "rw_frames_lost w = 0"
    and "rw_queue_max w \<le> CLEAN_QUEUE" and "as_millis (rw_hold_max w) \<le> CLEAN_HOLD_MS"
  shows "loss_permille w = umax 32 div max (rw_sent w) (rw_lost w) \<and>
    judge w cooling = (if max (rw_sent w) (rw_lost w) < 42524429 then Cut
      else if 715827883 \<le> max (rw_sent w) (rw_lost w) \<and> \<not> cooling then Grow else Steady)"
proof -
  define n where "n = max (rw_sent w) (rw_lost w)"
  have n: "0 < n" using assms(1) by (auto simp: n_def)
  have loss: "loss_permille w = umax 32 div n"
    using assms(1) n by (auto simp: loss_permille_def sat_mul_def checked_div_def opt_or_def n_def max_def umax_def)
  have heavy: "HEAVY_LOSS_PERMILLE < umax 32 div n \<longleftrightarrow> n < 42524429"
    using n by (simp add: less_div_iff layout_simps umax_def) arith
  have clean: "umax 32 div n \<le> CLEAN_LOSS_PERMILLE \<longleftrightarrow> 715827883 \<le> n"
    using n by (simp add: less_div_iff [THEN arg_cong [of _ _ Not], unfolded not_less] layout_simps umax_def) arith
  have "unrepaired_permille w = 0" using assms(3) by (simp add: unrepaired_permille_def sat_mul_def checked_div_def opt_or_def)
  then show ?thesis using assms(2-5) heavy clean unfolding n_def [symmetric]
    by (auto simp: judge_def Let_def loss layout_simps)
qed

theorem saturated_loss_reads_small_witness:
  "judge (rate_window_default\<lparr>rw_lost := 1000000000, rw_sent := 1000000000\<rparr>) False = Grow"
  using saturated_loss_reads_small [of "rate_window_default\<lparr>rw_lost := 1000000000, rw_sent := 1000000000\<rparr>" False]
  by (simp add: rate_window_default_def window_stalled_def umax_def as_millis_def layout_simps)

section \<open>The chroma gate\<close>

interpretation chroma: reporting_gate cg_current chroma_update
  by unfold_locales (auto simp: chroma_update_def Let_def)

interpretation chroma_held: held_gate "\<lambda>g. cg_current g = Full" cg_hold "\<lambda>t g. fst (chroma_update t g)"
  by unfold_locales (auto simp: chroma_update_def Let_def split: chroma.splits)

text \<open>
  A stream that fell back from 4:4:4 stays at 4:2:0 for the next nine rate decisions, at whatever
  targets: a rate that hovers at the line costs one new encoder session, not one a decision.
\<close>

lemma chroma_falls_back_for_good:
  assumes "snd (chroma_update t g) = Some Subsampled" and "length ts < FULL_CHROMA_HOLD"
  shows "cg_current (fold (\<lambda>t g. fst (chroma_update t g)) ts (fst (chroma_update t g))) = Subsampled"
proof -
  have "cg_current (fst (chroma_update t g)) \<noteq> Full" "cg_hold (fst (chroma_update t g)) = FULL_CHROMA_HOLD"
    using assms(1) by (auto simp: chroma_update_def Let_def split: if_splits)
  from chroma_held.stays_off [OF this(1), of ts] this(2) assms(2) show ?thesis
    by (metis chroma.exhaust)
qed

lemma chroma_falls_back_for_good_witness:
  "cg_current (fold (\<lambda>t g. fst (chroma_update t g)) (replicate 9 20000000)
     (fst (chroma_update 7000000 (chroma_new (10000000, 8000000) Full 12000000)))) = Subsampled"
  by (rule chroma_falls_back_for_good)
     (simp_all add: chroma_update_def chroma_new_def chroma_ask_def Let_def layout_simps)

inductive chroma_reach :: "chroma_gate \<Rightarrow> bool" where
  opened: "chroma_reach (chroma_new band asked target)"
| asked: "chroma_reach g \<Longrightarrow> chroma_reach (chroma_ask band asked target g)"
| updated: "chroma_reach g \<Longrightarrow> chroma_reach (fst (chroma_update target g))"
| refused: "chroma_reach g \<Longrightarrow> chroma_reach (chroma_refuse g)"

text \<open>
  4:4:4 is only ever what the client asked for: along any asks, rate decisions and refusals, a
  gate at 4:4:4 was asked for it.
\<close>

lemma full_chroma_was_asked:
  assumes "chroma_reach g" and "cg_current g = Full"
  shows "cg_asked g = Full"
  using assms
  by (induction rule: chroma_reach.induct)
     (auto simp: chroma_new_def chroma_ask_def chroma_update_def chroma_refuse_def Let_def
       split: chroma.splits if_splits)

lemma full_chroma_was_asked_witness: "cg_asked (chroma_new (10000000, 8000000) Full 12000000) = Full"
  by (rule full_chroma_was_asked [OF chroma_reach.opened])
     (simp add: chroma_new_def chroma_ask_def Let_def)

end
