(* ===== verification/Input_Order.thy ===== *)
theory Input_Order
  imports Prelude
begin

text \<open>
  Input and frames travel twice: on an ordered stream, which brings every one, and as datagram
  copies that may come sooner, later, twice or never. Three receivers put the two together:
  \<open>InputOrder\<close> and \<open>ScreenOrder\<close> on the worker (\<open>apps/slopty-worker/src/conn.rs\<close>) for terminal and
  window input, \<open>FrameOrder\<close> on the client (\<open>slopty-client/src/link.rs\<close>) for terminal frames. Each
  promises that what has to go on goes on once and in order; only a pointer's stale moves are let go, and only a
  whole terminal frame may come again at its number.
\<close>

section \<open>The contract\<close>

text \<open>
  \<open>upto s\<close> is the number of the last item applied; a step applies at most the item after it. The
  counters are 64 bits wide: the contract is for steps below their \<open>limit\<close>.
\<close>

locale exactly_once =
  fixes ok :: "'s \<Rightarrow> bool"
    and upto :: "'s \<Rightarrow> nat"
    and limit :: nat
    and step :: "'e \<Rightarrow> 's \<Rightarrow> 's \<times> nat option"
  assumes applies: "ok s \<Longrightarrow> upto s < limit \<Longrightarrow> step e s = (s', Some n) \<Longrightarrow> n = Suc (upto s) \<and> upto s' = n"
    and drops: "ok s \<Longrightarrow> upto s < limit \<Longrightarrow> step e s = (s', None) \<Longrightarrow> upto s' = upto s"
    and keeps: "ok s \<Longrightarrow> upto s < limit \<Longrightarrow> ok (fst (step e s))"
begin

primrec run :: "'e list \<Rightarrow> 's \<Rightarrow> 's \<times> nat list" where
  "run [] s = (s, [])"
| "run (e # es) s = (let (s', n) = step e s; (t, ns) = run es s' in (t, (case n of None \<Rightarrow> ns | Some k \<Rightarrow> k # ns)))"

lemma run_in_order:
  assumes "ok s" and "upto s + length es \<le> limit"
  shows "ok (fst (run es s)) \<and> snd (run es s) = [Suc (upto s)..<Suc (upto (fst (run es s)))] \<and>
    upto s \<le> upto (fst (run es s))"
  using assms
proof (induction es arbitrary: s)
  case Nil
  then show ?case by simp
next
  case (Cons e es)
  obtain s' n where st: "step e s = (s', n)" by (cases "step e s")
  have lt: "upto s < limit" and ok: "ok s'" using Cons.prems keeps [of s e] st by simp_all
  show ?case
  proof (cases n)
    case None
    then have "upto s' = upto s" using drops Cons.prems(1) lt st by blast
    then show ?thesis using Cons.IH [OF ok] Cons.prems(2) st None by (simp add: split_def Let_def)
  next
    case (Some k)
    then have k: "k = Suc (upto s)" "upto s' = k" using applies Cons.prems(1) lt st by blast+
    then have "ok (fst (run es s')) \<and> snd (run es s') = [Suc k..<Suc (upto (fst (run es s')))] \<and>
        k \<le> upto (fst (run es s'))" using Cons.IH [OF ok] Cons.prems(2) by simp
    then show ?thesis using st Some k by (simp add: split_def Let_def upt_conv_Cons)
  qed
qed

end

section \<open>Terminal input\<close>

record applied =
  ap_heard :: nat
  ap_applied :: nat

record 'k input_order =
  io_sessions :: "'k \<Rightarrow> applied option"
  io_taken :: nat
  io_late :: nat

definition applied_default :: applied where
  "applied_default = \<lparr>ap_heard = 0, ap_applied = 0\<rparr>"

definition input_order_default :: "'k input_order" where
  "input_order_default = \<lparr>io_sessions = (\<lambda>_. None), io_taken = 0, io_late = 0\<rparr>"

definition input_stream :: "'k \<Rightarrow> 'k input_order \<Rightarrow> 'k input_order \<times> bool" where
  "input_stream session o1 =
    (let at = opt_or (io_sessions o1 session) applied_default;
         at = at\<lparr>ap_heard := sat_add 64 (ap_heard at) 1\<rparr>;
         fresh = ap_heard at > ap_applied at;
         at = at\<lparr>ap_applied := max (ap_applied at) (ap_heard at)\<rparr>
     in (o1\<lparr>io_sessions := (io_sessions o1)(session \<mapsto> at)\<rparr>, fresh))"

definition input_copy :: "'k \<Rightarrow> nat \<Rightarrow> 'k input_order \<Rightarrow> 'k input_order \<times> bool" where
  "input_copy session seq o1 =
    (let at = opt_or (io_sessions o1 session) applied_default;
         next = (seq = sat_add 64 (ap_applied at) 1)
     in (if next
         then o1\<lparr>io_sessions := (io_sessions o1)(session \<mapsto> at\<lparr>ap_applied := seq\<rparr>),
                 io_taken := sat_add 64 (io_taken o1) 1\<rparr>
         else o1\<lparr>io_sessions := (io_sessions o1)(session \<mapsto> at),
                 io_late := sat_add 64 (io_late o1) 1\<rparr>, next))"

definition input_forget :: "'k \<Rightarrow> 'k input_order \<Rightarrow> 'k input_order" where
  "input_forget session o1 = o1\<lparr>io_sessions := (io_sessions o1)(session := None)\<rparr>"

text \<open>What arrives, and which of session \<open>k\<close>'s inputs it applies.\<close>

datatype 'k input_event = Brought 'k | Copied 'k nat

definition applied_of :: "'k \<Rightarrow> 'k input_order \<Rightarrow> applied" where
  "applied_of k o1 = opt_or (io_sessions o1 k) applied_default"

fun input_step :: "'k \<Rightarrow> 'k input_event \<Rightarrow> 'k input_order \<Rightarrow> 'k input_order \<times> nat option" where
  "input_step k (Brought j) o1 = (case input_stream j o1 of (o2, goes) \<Rightarrow>
     (o2, if goes \<and> j = k then Some (ap_heard (applied_of k o2)) else None))"
| "input_step k (Copied j seq) o1 = (case input_copy j seq o1 of (o2, goes) \<Rightarrow>
     (o2, if goes \<and> j = k then Some seq else None))"

definition input_ok :: "'k \<Rightarrow> 'k input_order \<Rightarrow> bool" where
  "input_ok k o1 \<longleftrightarrow> ap_heard (applied_of k o1) \<le> ap_applied (applied_of k o1)"

lemma input_stream_at:
  "applied_of k (fst (input_stream j o1)) =
    (if j = k then \<lparr>ap_heard = sat_add 64 (ap_heard (applied_of k o1)) 1,
        ap_applied = max (ap_applied (applied_of k o1)) (sat_add 64 (ap_heard (applied_of k o1)) 1)\<rparr>
     else applied_of k o1)"
  "snd (input_stream j o1) \<longleftrightarrow> sat_add 64 (ap_heard (applied_of j o1)) 1 > ap_applied (applied_of j o1)"
  by (simp_all add: input_stream_def applied_of_def Let_def opt_or_def)

lemma input_copy_at:
  "applied_of k (fst (input_copy j seq o1)) =
    (if j = k \<and> seq = sat_add 64 (ap_applied (applied_of k o1)) 1
     then (applied_of k o1)\<lparr>ap_applied := seq\<rparr> else applied_of k o1)"
  "snd (input_copy j seq o1) \<longleftrightarrow> seq = sat_add 64 (ap_applied (applied_of j o1)) 1"
  by (auto simp: input_copy_def applied_of_def Let_def opt_or_def)

interpretation terminal_input: exactly_once "input_ok k" "\<lambda>o1. ap_applied (applied_of k o1)"
  "umax 64" "input_step k" for k
proof
  fix o1 o2 :: "'a input_order" and e n
  assume ok: "input_ok k o1" and lt: "ap_applied (applied_of k o1) < umax 64"
  have inc: "sat_add 64 x 1 = Suc x" if "x < umax 64" for x using that by (simp add: sat_add_def)
  have h: "ap_heard (applied_of k o1) < umax 64" using ok lt by (simp add: input_ok_def)
  note sucs = inc [OF lt] inc [OF h]
  show "input_step k e o1 = (o2, Some n) \<Longrightarrow>
      n = Suc (ap_applied (applied_of k o1)) \<and> ap_applied (applied_of k o2) = n"
    using ok sucs
    by (cases e) (auto simp: input_ok_def split_def input_stream_at input_copy_at split: if_splits)
  show "input_step k e o1 = (o2, None) \<Longrightarrow> ap_applied (applied_of k o2) = ap_applied (applied_of k o1)"
    using ok sucs
    by (cases e) (auto simp: input_ok_def split_def input_stream_at input_copy_at split: if_splits)
  show "input_ok k (fst (input_step k e o1))"
    using ok sucs
    by (cases e) (auto simp: input_ok_def split_def input_stream_at input_copy_at split: if_splits)
qed

text \<open>The stream has brought \<open>n\<close> of session \<open>k\<close>'s inputs.\<close>

definition brought :: "'k \<Rightarrow> 'k input_event list \<Rightarrow> nat" where
  "brought k es = length (filter (\<lambda>e. e = Brought k) es)"

primrec input_run :: "'k \<Rightarrow> 'k input_event list \<Rightarrow> 'k input_order \<Rightarrow> 'k input_order \<times> nat list" where
  "input_run k [] o1 = (o1, [])"
| "input_run k (e # es) o1 = (let (o2, n) = input_step k e o1; (o3, ns) = input_run k es o2
     in (o3, (case n of None \<Rightarrow> ns | Some i \<Rightarrow> i # ns)))"

lemma input_run_eq: "input_run k es o1 = terminal_input.run k es o1"
  by (induction es arbitrary: o1) simp_all

lemma input_heard:
  "input_ok k o1 \<Longrightarrow> ap_applied (applied_of k o1) + length es \<le> umax 64 \<Longrightarrow>
   ap_heard (applied_of k (fst (input_run k es o1))) = ap_heard (applied_of k o1) + brought k es"
proof (induction es arbitrary: o1)
  case Nil
  then show ?case by (simp add: brought_def)
next
  case (Cons e es)
  let ?o = "fst (input_step k e o1)"
  have lt: "ap_applied (applied_of k o1) < umax 64" using Cons.prems(2) by simp
  have ok: "input_ok k ?o" by (rule terminal_input.keeps [OF Cons.prems(1) lt])
  have le: "ap_applied (applied_of k ?o) \<le> Suc (ap_applied (applied_of k o1))"
    using terminal_input.applies [OF Cons.prems(1) lt, of e ?o] terminal_input.drops [OF Cons.prems(1) lt, of e ?o]
    by (cases "snd (input_step k e o1)") (auto simp: prod_eq_iff)
  have "sat_add 64 (ap_heard (applied_of k o1)) 1 = Suc (ap_heard (applied_of k o1))"
    using Cons.prems(1) lt by (simp add: input_ok_def sat_add_def)
  then have "ap_heard (applied_of k ?o) = ap_heard (applied_of k o1) + (if e = Brought k then 1 else 0)"
    by (cases e) (auto simp: split_def input_stream_at input_copy_at)
  then show ?case using Cons.IH [OF ok] le Cons.prems(2)
    by (simp add: split_def Let_def brought_def)
qed

text \<open>
  C4. Every keystroke reaches the program once and in order: whatever the stream brings and whatever
  copies arrive for a session, early, late, repeated or never, the inputs applied are numbers
  1, 2, 3, ... with none missing and none twice, and they include everything the stream has brought.
\<close>

theorem inputs_applied_once_in_order:
  assumes "length es \<le> umax 64"
  shows "\<exists>n. snd (input_run k es input_order_default) = [1..<Suc n] \<and> brought k es \<le> n"
proof -
  have init: "input_ok k input_order_default" "ap_applied (applied_of k input_order_default) = 0"
      "ap_heard (applied_of k input_order_default) = 0"
    by (simp_all add: input_ok_def applied_of_def input_order_default_def applied_default_def opt_or_def)
  let ?o = "fst (input_run k es input_order_default)"
  note run = terminal_input.run_in_order [OF init(1), of es, folded input_run_eq]
  have "snd (input_run k es input_order_default) = [1..<Suc (ap_applied (applied_of k ?o))]"
    and "input_ok k ?o" using run init(2) assms by simp_all
  moreover have "brought k es = ap_heard (applied_of k ?o)"
    using input_heard [OF init(1), of es] init assms by simp
  ultimately show ?thesis by (auto simp: input_ok_def)
qed

theorem inputs_applied_once_in_order_witness:
  "\<exists>n. snd (input_run 7 [Copied 7 2, Copied 7 1, Brought 7, Copied 7 2, Brought (8::nat), Brought 7, Copied 7 1]
     input_order_default) = [1..<Suc n] \<and>
   brought 7 [Copied 7 2, Copied 7 1, Brought 7, Copied 7 2, Brought (8::nat), Brought 7, Copied 7 1] \<le> n"
  by (rule inputs_applied_once_in_order) (simp add: umax_def)

section \<open>Window input\<close>

record placed =
  pl_heard :: nat
  pl_heard_in_order :: nat
  pl_in_order :: nat
  pl_latest :: nat

record 'k screen_order =
  so_streams :: "'k \<Rightarrow> placed option"
  so_taken :: nat
  so_late :: nat

definition placed_default :: placed where
  "placed_default = \<lparr>pl_heard = 0, pl_heard_in_order = 0, pl_in_order = 0, pl_latest = 0\<rparr>"

definition screen_order_default :: "'k screen_order" where
  "screen_order_default = \<lparr>so_streams = (\<lambda>_. None), so_taken = 0, so_late = 0\<rparr>"

text \<open>The bodies of \<open>stream\<close> and \<open>copy\<close> on the stream's entry: the new entry, and whether it goes.\<close>

definition placed_stream :: "bool \<Rightarrow> placed \<Rightarrow> placed \<times> bool" where
  "placed_stream in_order at =
    (let at = at\<lparr>pl_heard := sat_add 64 (pl_heard at) 1\<rparr>;
         (fresh, at) =
           (if in_order then
              let at = at\<lparr>pl_heard_in_order := sat_add 64 (pl_heard_in_order at) 1\<rparr>;
                  fresh = pl_heard_in_order at > pl_in_order at
              in (fresh, at\<lparr>pl_in_order := max (pl_in_order at) (pl_heard_in_order at)\<rparr>)
            else (pl_heard at > pl_latest at, at))
     in (at\<lparr>pl_latest := max (pl_latest at) (pl_heard at)\<rparr>, fresh))"

definition placed_copy :: "nat \<Rightarrow> nat \<Rightarrow> bool \<Rightarrow> placed \<Rightarrow> placed \<times> bool" where
  "placed_copy seq ordered in_order at =
    (let goes = (if in_order then ordered = sat_add 64 (pl_in_order at) 1
                 else ordered = pl_in_order at \<and> seq > pl_latest at)
     in (if goes then
           let at = (if in_order then at\<lparr>pl_in_order := ordered\<rparr> else at)
           in at\<lparr>pl_latest := max (pl_latest at) seq\<rparr>
         else at, goes))"

definition screen_stream :: "'k \<Rightarrow> bool \<Rightarrow> 'k screen_order \<Rightarrow> 'k screen_order \<times> bool" where
  "screen_stream stream in_order o1 =
    (let (at, fresh) = placed_stream in_order (opt_or (so_streams o1 stream) placed_default)
     in (o1\<lparr>so_streams := (so_streams o1)(stream \<mapsto> at)\<rparr>, fresh))"

definition screen_copy :: "'k \<Rightarrow> nat \<Rightarrow> nat \<Rightarrow> bool \<Rightarrow> 'k screen_order \<Rightarrow> 'k screen_order \<times> bool" where
  "screen_copy stream seq ordered in_order o1 =
    (let (at, goes) = placed_copy seq ordered in_order (opt_or (so_streams o1 stream) placed_default);
         o1 = o1\<lparr>so_streams := (so_streams o1)(stream \<mapsto> at)\<rparr>
     in (if goes then o1\<lparr>so_taken := sat_add 64 (so_taken o1) 1\<rparr>
         else o1\<lparr>so_late := sat_add 64 (so_late o1) 1\<rparr>, goes))"

definition screen_forget :: "'k \<Rightarrow> 'k screen_order \<Rightarrow> 'k screen_order" where
  "screen_forget stream o1 = o1\<lparr>so_streams := (so_streams o1)(stream := None)\<rparr>"

text \<open>
  A stream's requests are a script: for each, whether it applies only in its turn. Both ends number
  them from one, and apart from that those in order; \<open>turn script i\<close> is how many of the first \<open>i\<close> are.
\<close>

definition in_turn :: "bool list \<Rightarrow> nat \<Rightarrow> bool" where
  "in_turn script i = script ! (i - 1)"

definition turn :: "bool list \<Rightarrow> nat \<Rightarrow> nat" where
  "turn script i = length (filter (in_turn script) [1..<Suc i])"

datatype 'k screen_event = SBrought 'k bool | SCopied 'k nat nat bool

definition placed_of :: "'k \<Rightarrow> 'k screen_order \<Rightarrow> placed" where
  "placed_of k o1 = opt_or (so_streams o1 k) placed_default"

fun screen_step :: "'k \<Rightarrow> 'k screen_event \<Rightarrow> 'k screen_order \<Rightarrow> 'k screen_order \<times> nat option" where
  "screen_step k (SBrought j in_order) o1 = (case screen_stream j in_order o1 of (o2, goes) \<Rightarrow>
     (o2, if goes \<and> j = k then Some (pl_heard (placed_of k o2)) else None))"
| "screen_step k (SCopied j seq ordered in_order) o1 = (case screen_copy j seq ordered in_order o1 of (o2, goes) \<Rightarrow>
     (o2, if goes \<and> j = k then Some seq else None))"

text \<open>The events of stream \<open>k\<close> are those of its script, of which the stream has brought \<open>h\<close>.\<close>

fun follows_script :: "bool list \<Rightarrow> 'k \<Rightarrow> nat \<Rightarrow> 'k screen_event \<Rightarrow> bool" where
  "follows_script script k h (SBrought j in_order) =
     (j = k \<longrightarrow> h < length script \<and> in_order = in_turn script (Suc h))"
| "follows_script script k h (SCopied j seq ordered in_order) =
     (j = k \<longrightarrow> 0 < seq \<and> seq \<le> length script \<and> ordered = turn script seq \<and> in_order = in_turn script seq)"

definition placed_ok :: "bool list \<Rightarrow> placed \<Rightarrow> bool" where
  "placed_ok script at \<longleftrightarrow> pl_heard at \<le> pl_latest at \<and> pl_latest at \<le> length script \<and>
     pl_heard_in_order at = turn script (pl_heard at) \<and> pl_in_order at = turn script (pl_latest at)"

lemma turn_mono: "a \<le> b \<Longrightarrow> turn script b = turn script a + length (filter (in_turn script) [Suc a..<Suc b])"
proof -
  assume "a \<le> b"
  then have "[1..<Suc b] = [1..<Suc a] @ [Suc a..<Suc b]"
    using upt_add_eq_append [of 1 "Suc a" "b - a"] by simp
  then show ?thesis by (simp add: turn_def del: upt_Suc)
qed

lemma turn_le: "turn script i \<le> i"
  using length_filter_le [of "in_turn script" "[1..<Suc i]"] by (simp add: turn_def del: upt_Suc)

lemma turn_Suc: "turn script (Suc i) = turn script i + (if in_turn script (Suc i) then 1 else 0)"
  by (simp add: turn_def)

lemma turn_less: "turn script a < turn script b \<Longrightarrow> a < b"
  using turn_mono [of b a script] by (cases "b \<le> a") auto

lemma turn_in_turn: "in_turn script b \<Longrightarrow> a < b \<Longrightarrow> turn script a < turn script b"
proof -
  assume "in_turn script b" "a < b"
  then obtain c where "b = Suc c" "a \<le> c" by (cases b) auto
  then show ?thesis using \<open>in_turn script b\<close> turn_Suc [of script c] turn_mono [of a c script] by simp
qed

text \<open>An entry that applies request \<open>i\<close> moves from its last number to \<open>i\<close>, past no request in order.\<close>

definition moves_to :: "bool list \<Rightarrow> nat \<Rightarrow> placed \<Rightarrow> placed \<Rightarrow> bool" where
  "moves_to script i at at' \<longleftrightarrow> pl_latest at < i \<and> pl_latest at' = i \<and>
     turn script (i - 1) = turn script (pl_latest at)"

lemma placed_stream_ok:
  assumes ok: "placed_ok script at" and h: "pl_heard at < length script" and len: "length script < umax 64"
    and fresh: "placed_stream (in_turn script (Suc (pl_heard at))) at = (at', goes)"
  shows "placed_ok script at' \<and> pl_heard at' = Suc (pl_heard at) \<and>
    (if goes then moves_to script (Suc (pl_heard at)) at at' else pl_latest at' = pl_latest at)"
proof -
  let ?h = "pl_heard at" and ?l = "pl_latest at"
  have inc: "sat_add 64 x 1 = Suc x" if "x < umax 64" for x using that by (simp add: sat_add_def)
  have "turn script ?h \<le> ?h" "turn script ?l \<le> ?l" by (rule turn_le)+
  then have sucs: "sat_add 64 ?h 1 = Suc ?h" "sat_add 64 (pl_heard_in_order at) 1 = Suc (turn script ?h)"
    using ok h len inc by (simp_all add: placed_ok_def)
  have hl: "turn script ?h \<le> turn script ?l" using ok turn_mono [of ?h ?l script] by (simp add: placed_ok_def)
  note suc = turn_Suc [of script ?h]
  show ?thesis
  proof (cases "in_turn script (Suc ?h)")
    case True
    show ?thesis
    proof (cases "turn script ?h < turn script ?l")
      case before: True
      have "Suc ?h \<le> ?l"
        using turn_in_turn [OF True, of ?l] suc True before by (cases "?l < Suc ?h") auto
      then show ?thesis using ok h fresh True suc before sucs
        by (auto simp: placed_stream_def placed_ok_def Let_def)
    next
      case False
      then have eq: "turn script ?l = turn script ?h" using hl by simp
      then have "?l < Suc ?h" using turn_less [of script ?l "Suc ?h"] suc True by simp
      then show ?thesis using ok h fresh True suc eq sucs
        by (auto simp: placed_stream_def placed_ok_def Let_def moves_to_def)
    qed
  next
    case False
    show ?thesis
    proof (cases "?l < Suc ?h")
      case True
      then have "?l = ?h" using ok by (simp add: placed_ok_def)
      then show ?thesis using ok h fresh False suc sucs
        by (auto simp: placed_stream_def placed_ok_def Let_def moves_to_def)
    next
      case later: False
      then show ?thesis using ok h fresh False suc sucs
        by (auto simp: placed_stream_def placed_ok_def Let_def)
    qed
  qed
qed

lemma placed_copy_ok:
  assumes ok: "placed_ok script at" and seq: "0 < seq" "seq \<le> length script" and len: "length script < umax 64"
    and copy: "placed_copy seq (turn script seq) (in_turn script seq) at = (at', goes)"
  shows "placed_ok script at' \<and> pl_heard at' = pl_heard at \<and>
    (if goes then moves_to script seq at at' else pl_latest at' = pl_latest at)"
proof -
  let ?l = "pl_latest at"
  have "turn script ?l \<le> ?l" by (rule turn_le)
  then have inc: "sat_add 64 (pl_in_order at) 1 = Suc (turn script ?l)"
    using ok len by (simp add: placed_ok_def sat_add_def)
  obtain c where c: "seq = Suc c" using seq(1) by (cases seq) auto
  note suc = turn_Suc [of script c]
  show ?thesis
  proof (cases goes)
    case True
    have l: "?l < seq"
      using True copy inc turn_less [of script ?l seq] by (auto simp: placed_copy_def Let_def split: if_splits)
    have "turn script c = turn script ?l"
      using True copy inc suc ok by (auto simp: placed_copy_def placed_ok_def Let_def c split: if_splits)
    then show ?thesis using ok seq copy True l inc
      by (auto simp: placed_copy_def placed_ok_def moves_to_def Let_def c split: if_splits)
  next
    case False
    then show ?thesis using ok copy by (auto simp: placed_copy_def Let_def split: if_splits)
  qed
qed

lemma screen_step_placed:
  "placed_of k (fst (screen_stream j io o1)) =
     (if j = k then fst (placed_stream io (placed_of k o1)) else placed_of k o1)"
  "snd (screen_stream j io o1) = snd (placed_stream io (placed_of j o1))"
  "placed_of k (fst (screen_copy j seq ordered io o1)) =
     (if j = k then fst (placed_copy seq ordered io (placed_of k o1)) else placed_of k o1)"
  "snd (screen_copy j seq ordered io o1) = snd (placed_copy seq ordered io (placed_of j o1))"
  by (auto simp: screen_stream_def screen_copy_def placed_of_def Let_def opt_or_def split_def)

fun is_brought :: "'k \<Rightarrow> 'k screen_event \<Rightarrow> bool" where
  "is_brought k (SBrought j _) = (j = k)"
| "is_brought k _ = False"

primrec fits_script :: "bool list \<Rightarrow> 'k \<Rightarrow> nat \<Rightarrow> 'k screen_event list \<Rightarrow> bool" where
  "fits_script script k h [] = True"
| "fits_script script k h (e # es) =
     (follows_script script k h e \<and> fits_script script k (if is_brought k e then Suc h else h) es)"

primrec screen_run :: "'k \<Rightarrow> 'k screen_event list \<Rightarrow> 'k screen_order \<Rightarrow> 'k screen_order \<times> nat list" where
  "screen_run k [] o1 = (o1, [])"
| "screen_run k (e # es) o1 = (let (o2, n) = screen_step k e o1; (o3, ns) = screen_run k es o2
     in (o3, (case n of None \<Rightarrow> ns | Some i \<Rightarrow> i # ns)))"

lemma screen_step_ok:
  assumes ok: "placed_ok script (placed_of k o1)" and fit: "follows_script script k (pl_heard (placed_of k o1)) e"
    and len: "length script < umax 64" and st: "screen_step k e o1 = (o2, n)"
  shows "placed_ok script (placed_of k o2) \<and>
    pl_heard (placed_of k o2) = pl_heard (placed_of k o1) + (if is_brought k e then 1 else 0) \<and>
    (case n of None \<Rightarrow> pl_latest (placed_of k o2) = pl_latest (placed_of k o1)
     | Some i \<Rightarrow> moves_to script i (placed_of k o1) (placed_of k o2))"
proof (cases e)
  case (SBrought j io)
  show ?thesis
  proof (cases "j = k")
    case True
    then have io: "pl_heard (placed_of k o1) < length script" "io = in_turn script (Suc (pl_heard (placed_of k o1)))"
      using fit SBrought by auto
    obtain at' goes where ps: "placed_stream io (placed_of k o1) = (at', goes)" by (cases "placed_stream io (placed_of k o1)")
    from placed_stream_ok [OF ok io(1) len ps [unfolded io(2)]] show ?thesis
      using st SBrought True ps screen_step_placed(1) [of k k io o1] screen_step_placed(2) [of k io o1]
      by (auto simp: split_def split: if_splits)
  next
    case False
    then show ?thesis using st SBrought ok screen_step_placed(1) [of k j io o1] by (auto simp: split_def)
  qed
next
  case (SCopied j seq ordered io)
  show ?thesis
  proof (cases "j = k")
    case True
    then have io: "0 < seq" "seq \<le> length script" "ordered = turn script seq" "io = in_turn script seq"
      using fit SCopied by auto
    obtain at' goes where ps: "placed_copy seq ordered io (placed_of k o1) = (at', goes)"
      by (cases "placed_copy seq ordered io (placed_of k o1)")
    from placed_copy_ok [OF ok io(1,2) len ps [unfolded io(3,4)]] show ?thesis
      using st SCopied True ps screen_step_placed(3) [of k k seq ordered io o1] screen_step_placed(4) [of k seq ordered io o1]
      by (auto simp: split_def split: if_splits)
  next
    case False
    then show ?thesis using st SCopied ok screen_step_placed(3) [of k j seq ordered io o1] by (auto simp: split_def)
  qed
qed

text \<open>Between the numbers of two entries: the requests in order that a run applies.\<close>

lemma moves_to_filter:
  assumes "moves_to script i at at'"
  shows "filter (in_turn script) [Suc (pl_latest at)..<Suc i] = (if in_turn script i then [i] else [])"
proof -
  obtain c where c: "i = Suc c" "pl_latest at \<le> c" using assms by (cases i) (auto simp: moves_to_def)
  then have "filter (in_turn script) [Suc (pl_latest at)..<Suc c] = []"
    using assms turn_mono [OF c(2), of script] by (simp add: moves_to_def)
  then show ?thesis using c by simp
qed

lemma screen_run_ok:
  assumes "placed_ok script (placed_of k o1)" and "fits_script script k (pl_heard (placed_of k o1)) es"
    and "length script < umax 64"
  defines "at \<equiv> placed_of k o1" and "at' \<equiv> placed_of k (fst (screen_run k es o1))"
  shows "placed_ok script at' \<and> pl_latest at \<le> pl_latest at' \<and>
    pl_heard at' = pl_heard at + length (filter (is_brought k) es) \<and>
    sorted_wrt (<) (snd (screen_run k es o1)) \<and> (\<forall>i \<in> set (snd (screen_run k es o1)). pl_latest at < i) \<and>
    filter (in_turn script) (snd (screen_run k es o1)) =
      filter (in_turn script) [Suc (pl_latest at)..<Suc (pl_latest at')]"
  unfolding at_def at'_def using assms(1,2)
proof (induction es arbitrary: o1)
  case Nil
  then show ?case by simp
next
  case (Cons e es)
  obtain o2 n where st: "screen_step k e o1 = (o2, n)" by (cases "screen_step k e o1")
  let ?at = "placed_of k o1" and ?at2 = "placed_of k o2"
  have fit: "follows_script script k (pl_heard ?at) e"
    "fits_script script k (if is_brought k e then Suc (pl_heard ?at) else pl_heard ?at) es"
    using Cons.prems(2) by simp_all
  note step = screen_step_ok [OF Cons.prems(1) fit(1) assms(3) st]
  have "fits_script script k (pl_heard ?at2) es" using fit(2) step by (auto split: if_splits)
  note IH = Cons.IH [OF conjunct1 [OF step] this]
  let ?at3 = "placed_of k (fst (screen_run k es o2))"
  show ?case
  proof (cases n)
    case None
    then show ?thesis using IH step st by (simp add: split_def Let_def)
  next
    case (Some i)
    then have mv: "moves_to script i ?at ?at2" using step by simp
    then have lat: "pl_latest ?at < i" "pl_latest ?at2 = i" by (simp_all add: moves_to_def)
    have "[Suc (pl_latest ?at)..<Suc (pl_latest ?at3)] = [Suc (pl_latest ?at)..<Suc i] @ [Suc i..<Suc (pl_latest ?at3)]"
      using lat IH upt_add_eq_append [of "Suc (pl_latest ?at)" "Suc i" "pl_latest ?at3 - i"] by simp
    then have "filter (in_turn script) [Suc (pl_latest ?at)..<Suc (pl_latest ?at3)]
        = (if in_turn script i then [i] else []) @ filter (in_turn script) [Suc i..<Suc (pl_latest ?at3)]"
      using moves_to_filter [OF mv] by (simp del: upt_Suc)
    then show ?thesis using IH step st Some lat
      by (auto simp: split_def Let_def simp del: upt_Suc)
  qed
qed

text \<open>
  C5. Each click and key reaches a window once and in order, and the pointer never goes back: whatever
  arrives of a stream's script, in whatever mix of stream and copies, the requests applied have climbing
  numbers, those that apply in their turn are exactly the first ones of the script with none missing and
  none twice, and everything the stream has brought is behind.
\<close>

theorem window_input_in_order:
  assumes "fits_script script k 0 es" and "length script < umax 64"
  shows "sorted_wrt (<) (snd (screen_run k es screen_order_default)) \<and>
    (\<exists>n. filter (in_turn script) (snd (screen_run k es screen_order_default)) = filter (in_turn script) [1..<Suc n]
       \<and> length (filter (is_brought k) es) \<le> n)"
proof -
  have init: "placed_of k screen_order_default = placed_default"
    by (simp add: placed_of_def screen_order_default_def opt_or_def)
  have "placed_ok script placed_default" by (simp add: placed_ok_def placed_default_def turn_def)
  then have "placed_ok script (placed_of k screen_order_default)" by (simp add: init)
  note run = screen_run_ok [OF this _ assms(2), of es]
  show ?thesis using run assms(1)
    by (auto simp: init placed_default_def placed_ok_def simp del: upt_Suc)
qed

theorem window_input_in_order_witness:
  "sorted_wrt (<) (snd (screen_run (3::nat) [SCopied 3 2 1 False, SCopied 3 1 1 True, SCopied 3 2 1 False,
     SBrought 3 True, SBrought 3 False, SBrought 3 True] screen_order_default))"
proof -
  have "fits_script [True, False, True] (3::nat) 0 [SCopied 3 2 1 False, SCopied 3 1 1 True, SCopied 3 2 1 False,
     SBrought 3 True, SBrought 3 False, SBrought 3 True]"
    by (simp add: turn_def in_turn_def upt_rec)
  from window_input_in_order [OF this] show ?thesis by (simp add: umax_def)
qed

section \<open>Terminal frames\<close>

record frame_order =
  fr_last :: "nat option"
  fr_passed :: nat

definition NONE_PASSED :: nat where "NONE_PASSED = umax 64"

definition frame_order_open :: frame_order where
  "frame_order_open = \<lparr>fr_last = None, fr_passed = NONE_PASSED\<rparr>"

definition frame_pass :: "nat \<Rightarrow> frame_order \<Rightarrow> frame_order" where
  "frame_pass seq r = r\<lparr>fr_last := Some seq, fr_passed := seq\<rparr>"

definition stream_has :: "nat \<Rightarrow> bool \<Rightarrow> frame_order \<Rightarrow> bool" where
  "stream_has seq full r \<longleftrightarrow> \<not> full \<and> (case fr_last r of None \<Rightarrow> False | Some l \<Rightarrow> seq \<le> l)"

definition frame_stream :: "nat \<Rightarrow> bool \<Rightarrow> frame_order \<Rightarrow> frame_order \<times> bool" where
  "frame_stream seq full r = (if stream_has seq full r then (r, False) else (frame_pass seq r, True))"

definition frame_copy :: "nat \<Rightarrow> bool \<Rightarrow> frame_order \<Rightarrow> frame_order \<times> bool" where
  "frame_copy seq full r =
    (let next = \<not> full \<and> (case fr_last r of None \<Rightarrow> False
                           | Some l \<Rightarrow> (if l + 1 \<le> umax 64 then Some (l + 1) else None) = Some seq)
     in (if next then frame_pass seq r else r, next))"

text \<open>The reader of datagrams asks whether a copy is still wanted (\<open>Echoes::route\<close>).\<close>

definition route_wants :: "nat \<Rightarrow> frame_order \<Rightarrow> bool" where
  "route_wants seq r \<longleftrightarrow> fr_passed r = NONE_PASSED \<or> seq > fr_passed r"

text \<open>
  A copy the reader still wants waits for the pump in a channel of \<open>COPY_DEPTH\<close>, and is let go when the
  channel is full (\<open>Echoes::deliver\<close>). The pump takes what the stream brings and the copies waiting in
  any order (\<open>pump_session\<close>); what goes on to the app is the result of a step.
\<close>

definition COPY_DEPTH :: nat where "COPY_DEPTH = 16"

definition deliver_copy :: "nat \<Rightarrow> bool \<Rightarrow> frame_order \<Rightarrow> (nat \<times> bool) list \<Rightarrow> (nat \<times> bool) list" where
  "deliver_copy seq full r cs = (if route_wants seq r \<and> length cs < COPY_DEPTH then cs @ [(seq, full)] else cs)"

datatype frame_event = StreamBrings nat bool | CopyArrives nat bool | CopyTaken

type_synonym frame_pump = "frame_order \<times> (nat \<times> bool) list"

fun frame_step :: "frame_event \<Rightarrow> frame_pump \<Rightarrow> frame_pump \<times> (nat \<times> bool) list" where
  "frame_step (StreamBrings seq full) (r, cs) =
    (case frame_stream seq full r of (r', goes) \<Rightarrow> ((r', cs), if goes then [(seq, full)] else []))"
| "frame_step (CopyArrives seq full) (r, cs) = ((r, deliver_copy seq full r cs), [])"
| "frame_step CopyTaken (r, []) = ((r, []), [])"
| "frame_step CopyTaken (r, (seq, full) # cs) =
    (case frame_copy seq full r of (r', goes) \<Rightarrow> ((r', cs), if goes then [(seq, full)] else []))"

primrec frame_run :: "frame_event list \<Rightarrow> frame_pump \<Rightarrow> frame_pump \<times> (nat \<times> bool) list" where
  "frame_run [] s = (s, [])"
| "frame_run (e # es) s = (case frame_step e s of (s', out) \<Rightarrow> case frame_run es s' of (t, outs) \<Rightarrow> (t, out @ outs))"

lemma frame_run_append:
  "frame_run (es @ [e]) s = (case frame_run es s of (s', out) \<Rightarrow> case frame_step e s' of (t, o2) \<Rightarrow> (t, out @ o2))"
  by (induction es arbitrary: s) (simp_all add: split_def)

text \<open>
  The frames of the stream, its number and whether it is whole; what came after the last whole frame of
  a list; and the order of frames: a diff is after the frame before it, with no number left out if none is.
\<close>

definition stream_brought :: "frame_event list \<Rightarrow> (nat \<times> bool) list" where
  "stream_brought es = concat (map (\<lambda>e. case e of StreamBrings seq full \<Rightarrow> [(seq, full)] | _ \<Rightarrow> []) es)"

definition since_whole :: "(nat \<times> bool) list \<Rightarrow> nat list" where
  "since_whole fs = map fst (takeWhile (\<lambda>f. \<not> snd f) (rev fs))"

definition frames_climb :: "(nat \<times> bool) list \<Rightarrow> bool" where
  "frames_climb fs \<longleftrightarrow> (case fs of [] \<Rightarrow> True | f # _ \<Rightarrow> snd f) \<and> successively (\<lambda>f g. snd g \<or> fst f < fst g) fs"

definition no_gap :: "(nat \<times> bool) list \<Rightarrow> bool" where
  "no_gap fs \<longleftrightarrow> successively (\<lambda>f g. snd g \<or> fst g = Suc (fst f)) fs"

lemma since_whole_snoc: "since_whole (fs @ [(seq, full)]) = (if full then [] else seq # since_whole fs)"
  by (simp add: since_whole_def)

lemma frames_climb_snoc:
  "frames_climb (fs @ [(seq, full)]) \<longleftrightarrow> frames_climb fs \<and> (full \<or> fs \<noteq> [] \<and> fst (last fs) < seq)"
proof -
  have "(case fs @ [(seq, full)] of [] \<Rightarrow> True | f # _ \<Rightarrow> snd f) =
      (if fs = [] then full else case fs of [] \<Rightarrow> True | f # _ \<Rightarrow> snd f)" by (cases fs) simp_all
  then show ?thesis unfolding frames_climb_def successively_append_iff by auto
qed

lemma no_gap_snoc: "no_gap (fs @ [(seq, full)]) \<longleftrightarrow> no_gap fs \<and> (full \<or> fs = [] \<or> seq = Suc (fst (last fs)))"
  by (auto simp: no_gap_def successively_append_iff)

text \<open>
  The pump after it was brought \<open>b\<close> and passed \<open>out\<close> on: it is at least as far as the stream, and every
  number it is ahead by went on since the last whole frame.
\<close>

definition pumped :: "(nat \<times> bool) list \<Rightarrow> (nat \<times> bool) list \<Rightarrow> frame_order \<Rightarrow> bool" where
  "pumped b out r \<longleftrightarrow>
     fr_last r = (if out = [] then None else Some (fst (last out))) \<and> (out = [] \<longleftrightarrow> b = []) \<and>
     frames_climb out \<and> filter snd out = filter snd b \<and> set (since_whole b) \<subseteq> set (since_whole out) \<and>
     (b \<noteq> [] \<longrightarrow> fst (last b) \<le> fst (last out) \<and> {fst (last b)<..fst (last out)} \<subseteq> set (since_whole out)) \<and>
     (no_gap b \<longrightarrow> no_gap out)"

lemma pumped_stream:
  assumes p: "pumped b out r" and climb: "frames_climb (b @ [(seq, full)])" and st: "frame_stream seq full r = (r', goes)"
  shows "pumped (b @ [(seq, full)]) (out @ (if goes then [(seq, full)] else [])) r'"
proof (cases goes)
  case True
  then have goes: "full \<or> (\<forall>l. fr_last r = Some l \<longrightarrow> l < seq)" "r' = frame_pass seq r"
    using st by (auto simp: frame_stream_def stream_has_def split: if_splits option.splits)
  show ?thesis using p climb goes True
    by (auto simp: pumped_def frame_pass_def since_whole_snoc frames_climb_snoc no_gap_snoc split: if_splits)
next
  case False
  then have drop: "\<not> full" "r' = r" "\<exists>l. fr_last r = Some l \<and> seq \<le> l"
    using st by (auto simp: frame_stream_def stream_has_def split: if_splits option.splits)
  then have seq: "seq \<le> fst (last out)" "out \<noteq> []" "b \<noteq> []" "fst (last b) < seq"
    using p climb by (auto simp: pumped_def frames_climb_snoc split: if_splits)
  then have "seq \<in> set (since_whole out)" using p by (auto simp: pumped_def)
  then show ?thesis using p drop seq False
    by (auto simp: pumped_def since_whole_snoc no_gap_snoc)
qed

lemma pumped_copy:
  assumes p: "pumped b out r" and st: "frame_copy seq full r = (r', goes)"
  shows "pumped b (out @ (if goes then [(seq, full)] else [])) r'"
proof (cases goes)
  case True
  then have goes: "\<not> full" "r' = frame_pass seq r" "fr_last r = Some (seq - 1)" "0 < seq"
    using st by (auto simp: frame_copy_def Let_def split: if_splits option.splits)
  have "{fst (last b)<..seq} \<subseteq> insert seq {fst (last b)<..seq - 1}" by auto
  then show ?thesis using p goes True
    by (auto simp: pumped_def frame_pass_def since_whole_snoc frames_climb_snoc no_gap_snoc split: if_splits)
next
  case False
  then show ?thesis using p st by (auto simp: frame_copy_def Let_def split: if_splits)
qed

lemma stream_brought_snoc: "stream_brought (es @ [e]) = stream_brought es @ (case e of StreamBrings seq full \<Rightarrow> [(seq, full)] | _ \<Rightarrow> [])"
  by (simp add: stream_brought_def)

lemma frame_run_pumped:
  "frames_climb (stream_brought es) \<Longrightarrow> frame_run es (frame_order_open, []) = ((r, cs), out) \<Longrightarrow> pumped (stream_brought es) out r"
proof (induction es arbitrary: r cs out rule: rev_induct)
  case Nil
  then show ?case by (auto simp: pumped_def stream_brought_def frame_order_open_def frames_climb_def no_gap_def)
next
  case (snoc e es)
  obtain r1 cs1 o1 where run: "frame_run es (frame_order_open, []) = ((r1, cs1), o1)" by (metis prod.collapse)
  obtain o2 where st: "frame_step e (r1, cs1) = ((r, cs), o2)" "out = o1 @ o2"
    using snoc.prems(2) run by (auto simp: frame_run_append split: prod.splits)
  have "frames_climb (stream_brought es)"
    using snoc.prems(1) by (auto simp: stream_brought_snoc frames_climb_snoc split: frame_event.splits)
  then have p: "pumped (stream_brought es) o1 r1" using snoc.IH run by blast
  show ?case
  proof (cases e)
    case (StreamBrings seq full)
    then show ?thesis using pumped_stream [OF p, of seq full] snoc.prems(1) st
      by (auto simp: stream_brought_snoc split: prod.splits)
  next
    case (CopyArrives seq full)
    then show ?thesis using p st by (auto simp: stream_brought_snoc)
  next
    case CopyTaken
    then show ?thesis using p st pumped_copy [OF p]
      by (cases cs1) (auto simp: stream_brought_snoc split: prod.splits)
  qed
qed

text \<open>
  C6. A terminal's frames go on in order, whole frames as the stream brings them and each diff once: whatever copies
  arrive and whenever they are taken, if the stream begins with a whole frame and its diffs climb, then every diff passed
  on has a number above the frame passed on just before it, the whole frames passed on are exactly the stream's, in its
  order, and every diff the stream brought since its last whole frame has gone on since that frame. No copy opens a gap:
  if the stream's diffs are numbered one after the other, so is every diff passed on after the frame before it.
\<close>

theorem frames_passed_once_in_order:
  assumes "frames_climb (stream_brought es)" and "out = snd (frame_run es (frame_order_open, []))"
  shows "frames_climb out \<and> filter snd out = filter snd (stream_brought es) \<and>
    set (since_whole (stream_brought es)) \<subseteq> set (since_whole out) \<and> (no_gap (stream_brought es) \<longrightarrow> no_gap out)"
proof -
  obtain r cs where "frame_run es (frame_order_open, []) = ((r, cs), out)" using assms(2) by (metis prod.collapse)
  from frame_run_pumped [OF assms(1) this] show ?thesis by (simp add: pumped_def)
qed

theorem frames_passed_once_in_order_witness:
  "no_gap (snd (frame_run [StreamBrings 5 True, CopyArrives 7 False, CopyArrives 6 False, CopyTaken, StreamBrings 6 False,
      CopyTaken, StreamBrings 7 False, StreamBrings 7 True] (frame_order_open, [])))"
  using frames_passed_once_in_order [of "[StreamBrings 5 True, CopyArrives 7 False, CopyArrives 6 False, CopyTaken,
      StreamBrings 6 False, CopyTaken, StreamBrings 7 False, StreamBrings 7 True]", OF _ refl]
  by (simp add: stream_brought_def frames_climb_def no_gap_def)

end
