(* ===== verification/Links.thy ===== *)
theory Links
  imports Prelude
begin

text \<open>
  What keeps a link up: the liveness clock of a control stream (\<open>slopty-net/src/liveness.rs\<close>), the
  schedule on which a dropped link is dialled again (\<open>slopty-net/src/redial.rs\<close>), and the bounded
  ring that keeps a detached terminal's output (\<open>slopty-pty/src/ring.rs\<close>).
\<close>

section \<open>Liveness\<close>

definition PING_EVERY :: duration where "PING_EVERY = from_secs 2"
definition SILENT_AFTER :: duration where "SILENT_AFTER = dur_mul PING_EVERY 2"
definition PONG_WITHIN :: duration where "PONG_WITHIN = dur_mul PING_EVERY 3"
definition LOOK_EVERY :: duration where "LOOK_EVERY = opt_or (checked_div PING_EVERY 4) 0"
definition AWAY_AFTER :: duration where "AWAY_AFTER = PING_EVERY"

lemma beat_consts [layout_simps]:
  "PING_EVERY = 2000000000" "SILENT_AFTER = 4000000000" "PONG_WITHIN = 6000000000"
  "LOOK_EVERY = 500000000" "AWAY_AFTER = 2000000000"
  by (simp_all add: PING_EVERY_def SILENT_AFTER_def PONG_WITHIN_def LOOK_EVERY_def AWAY_AFTER_def
      from_secs_def dur_mul_def duration_max_def checked_div_def opt_or_def)

datatype pulse = Live | Silent duration | Dead duration

record beat =
  bt_heard :: instant
  bt_pinged :: "instant option"
  bt_looked :: "instant option"

definition beat_new :: "instant \<Rightarrow> beat" where
  "beat_new now = \<lparr>bt_heard = now, bt_pinged = None, bt_looked = None\<rparr>"

definition beat_heard :: "instant \<Rightarrow> beat \<Rightarrow> beat" where
  "beat_heard now b = b\<lparr>bt_heard := max (bt_heard b) now\<rparr>"

definition ping_due :: "instant \<Rightarrow> beat \<Rightarrow> beat \<times> bool" where
  "ping_due now b =
    (let due = (case bt_pinged b of None \<Rightarrow> True | Some at \<Rightarrow> since now at \<ge> PING_EVERY)
     in (if due then b\<lparr>bt_pinged := Some now\<rparr> else b, due))"

definition pulse_of :: "duration \<Rightarrow> pulse" where
  "pulse_of gap = (if gap \<ge> PONG_WITHIN then Dead gap else if gap \<ge> SILENT_AFTER then Silent gap else Live)"

definition beat_pulse :: "instant \<Rightarrow> beat \<Rightarrow> beat \<times> pulse" where
  "beat_pulse now b =
    (let b = (case bt_looked b of None \<Rightarrow> b
              | Some looked \<Rightarrow>
                if since now looked \<ge> AWAY_AFTER then
                  let before = since looked (bt_heard b)
                  in b\<lparr>bt_heard := max (opt_or (inst_sub now before) now) (bt_heard b), bt_pinged := None\<rparr>
                else b);
         b = b\<lparr>bt_looked := Some (case bt_looked b of None \<Rightarrow> now | Some looked \<Rightarrow> max looked now)\<rparr>
     in (b, pulse_of (since now (bt_heard b))))"

text \<open>Looks at the clock, each less than \<open>AWAY_AFTER\<close> after the one before, with no answer between.\<close>

definition looks :: "instant list \<Rightarrow> beat \<Rightarrow> beat" where
  "looks ts b = fold (\<lambda>t b. fst (beat_pulse t b)) ts b"

lemma steady_look:
  assumes "case bt_looked b of None \<Rightarrow> True | Some l \<Rightarrow> l \<le> t \<and> t < l + int AWAY_AFTER"
  shows "fst (beat_pulse t b) = b\<lparr>bt_looked := Some t\<rparr> \<and>
    snd (beat_pulse t b) = pulse_of (since t (bt_heard b))"
proof -
  have "\<not> since t l \<ge> AWAY_AFTER" if "l \<le> t" "t < l + int AWAY_AFTER" for l
    using that by (simp add: since_def layout_simps)
  then show ?thesis using assms by (auto simp: beat_pulse_def Let_def split: option.splits)
qed

fun steady :: "instant \<Rightarrow> instant list \<Rightarrow> bool" where
  "steady l [] = True"
| "steady l (t # ts) = (l \<le> t \<and> t < l + int AWAY_AFTER \<and> steady t ts)"

lemma steady_looks:
  "bt_looked b = Some l \<Longrightarrow> steady l ts \<Longrightarrow> looks ts b = b\<lparr>bt_looked := Some (last (l # ts))\<rparr>"
proof (induction ts arbitrary: b l)
  case Nil
  then show ?case by (simp add: looks_def)
next
  case (Cons t ts)
  have "fst (beat_pulse t b) = b\<lparr>bt_looked := Some t\<rparr>" using Cons.prems steady_look [where b = b and t = t] by simp
  then show ?case using Cons.IH [of "b\<lparr>bt_looked := Some t\<rparr>" t] Cons.prems by (simp add: looks_def)
qed

text \<open>
  A link whose control stream stopped answering is found out: a side that keeps looking, at least
  every two seconds, sees exactly how long it has heard nothing, and calls the link dead once that
  is six seconds, however the looks fall.
\<close>

lemma stalled_link_is_dead:
  assumes "steady t0 (ts @ [t])" and "bt_heard b \<le> t0" and "bt_looked b = Some t0"
  shows "snd (beat_pulse t (looks ts b)) = pulse_of (nat (t - bt_heard b))"
proof -
  have st: "steady t0 ts" "last (t0 # ts) \<le> t" "t < last (t0 # ts) + int AWAY_AFTER"
    using assms(1) by (induction ts arbitrary: t0) (auto split: if_splits)
  have "looks ts b = b\<lparr>bt_looked := Some (last (t0 # ts))\<rparr>" by (rule steady_looks [OF assms(3) st(1)])
  then show ?thesis using steady_look [where b = "looks ts b" and t = t] st(2,3) by (simp add: since_def)
qed

text \<open>
  A side that was away does not blame the peer: after a pause of two seconds or more, the link is
  judged by the silence there was at the look before the pause, and a ping is due at once.
\<close>

lemma away_is_not_silence:
  assumes "bt_looked b = Some l" and "bt_heard b \<le> l" and "l + int AWAY_AFTER \<le> now"
    and "instant_min \<le> bt_heard b"
  shows "snd (beat_pulse now b) = pulse_of (nat (l - bt_heard b)) \<and>
    snd (ping_due now (fst (beat_pulse now b)))"
proof -
  have away: "since now l \<ge> AWAY_AFTER" using assms(3) by (simp add: since_def layout_simps)
  have sub: "inst_sub now (since l (bt_heard b)) = Some (now - (l - bt_heard b))"
    using assms by (simp add: inst_sub_def since_def layout_simps)
  have "\<not> now \<le> l" using assms(3) by (simp add: layout_simps)
  then show ?thesis using assms away sub
    by (simp add: beat_pulse_def Let_def since_def ping_due_def opt_or_def max_def)
qed

lemma stalled_link_is_dead_witness:
  "snd (beat_pulse 6100000000 (looks [1000000000, 2500000000, 4400000000]
     (fst (beat_pulse 0 (beat_new 0))))) = Dead 6100000000"
proof -
  let ?b = "fst (beat_pulse 0 (beat_new 0))"
  have b: "bt_looked ?b = Some 0" "bt_heard ?b = 0" by (simp_all add: beat_pulse_def beat_new_def)
  have "steady 0 ([1000000000, 2500000000, 4400000000] @ [6100000000])" by (simp add: layout_simps)
  from stalled_link_is_dead [OF this, of ?b] b show ?thesis by (simp add: pulse_of_def layout_simps)
qed

lemma away_is_not_silence_witness:
  "snd (beat_pulse 900000000000 \<lparr>bt_heard = 1000000000, bt_pinged = None, bt_looked = Some 2000000000\<rparr>) = Live"
proof -
  have "snd (beat_pulse 900000000000 \<lparr>bt_heard = 1000000000, bt_pinged = None, bt_looked = Some 2000000000\<rparr>)
      = pulse_of (nat (2000000000 - 1000000000))"
    using away_is_not_silence [of "\<lparr>bt_heard = 1000000000, bt_pinged = None, bt_looked = Some 2000000000\<rparr>"
        2000000000 900000000000] by (simp add: layout_simps instant_min_def)
  then show ?thesis by (simp add: pulse_of_def layout_simps)
qed

section \<open>Redialling\<close>

definition FIRST :: duration where "FIRST = from_millis 250"
definition REDIAL_MAX :: duration where "REDIAL_MAX = from_secs 2"
definition PATIENCE :: duration where "PATIENCE = from_secs 60"
definition CEILING :: duration where "CEILING = from_secs 30"
definition SPREAD_PERMILLE :: nat where "SPREAD_PERMILLE = 200"
definition STEADY :: duration where "STEADY = from_secs 10"

lemmas redial_consts [layout_simps] = FIRST_def REDIAL_MAX_def PATIENCE_def CEILING_def SPREAD_PERMILLE_def
  STEADY_def from_secs_def from_millis_def

definition delay :: "nat \<Rightarrow> duration" where
  "delay failures = min (dur_mul FIRST (2 ^ min failures 8)) REDIAL_MAX"

definition patient_delay :: "nat \<Rightarrow> duration" where
  "patient_delay past = min (dur_mul REDIAL_MAX (2 * 2 ^ min past 8)) CEILING"

definition spread :: "duration \<Rightarrow> nat \<Rightarrow> bool \<Rightarrow> duration" where
  "spread wait unit patient =
    (let unit = min unit 1000;
         share = (\<lambda>part. opt_or (checked_div (sat_mul 32 part unit) 1000) 0);
         permille = (if patient
                     then sat_add 32 (1000 - SPREAD_PERMILLE) (share (sat_mul 32 SPREAD_PERMILLE 2))
                     else 1000 - share SPREAD_PERMILLE)
     in opt_or (checked_div (dur_mul wait permille) 1000) wait)"

record redial =
  rl_failures :: nat
  rl_past :: nat
  rl_since :: "instant option"
  rl_linked :: "instant option"

definition redial_default :: redial where
  "redial_default = \<lparr>rl_failures = 0, rl_past = 0, rl_since = None, rl_linked = None\<rparr>"

definition redial_linked :: "instant \<Rightarrow> redial \<Rightarrow> redial" where
  "redial_linked now r = r\<lparr>rl_linked := Some now\<rparr>"

definition redial_reset :: "redial \<Rightarrow> redial" where
  "redial_reset r = r\<lparr>rl_failures := 0, rl_past := 0, rl_since := None\<rparr>"

definition next_spread :: "instant \<Rightarrow> nat \<Rightarrow> redial \<Rightarrow> redial \<times> duration" where
  "next_spread now unit r =
    (let held = (case rl_linked r of None \<Rightarrow> False | Some up \<Rightarrow> since now up \<ge> STEADY);
         r = r\<lparr>rl_linked := None\<rparr>;
         r = (if held then redial_reset r else r);
         started = opt_or (rl_since r) now;
         r = r\<lparr>rl_since := Some started\<rparr>;
         patient = since now started \<ge> PATIENCE
     in if patient
        then (r\<lparr>rl_past := sat_add 32 (rl_past r) 1\<rparr>, spread (patient_delay (rl_past r)) unit patient)
        else (r\<lparr>rl_failures := sat_add 32 (rl_failures r) 1\<rparr>, spread (delay (rl_failures r)) unit patient))"

lemma delay_bounds: "FIRST \<le> delay n \<and> delay n \<le> REDIAL_MAX"
proof -
  have "(1::nat) \<le> 2 ^ min n 8" by simp
  then have "250000000 * 1 \<le> 250000000 * (2 ^ min n 8 :: nat)" by (intro mult_le_mono2)
  then show ?thesis by (simp add: delay_def dur_mul_def duration_max_def layout_simps)
qed

lemma patient_delay_bounds: "REDIAL_MAX \<le> patient_delay n \<and> patient_delay n \<le> CEILING"
proof -
  have "(1::nat) \<le> 2 * 2 ^ min n 8" by simp
  then have "2000000000 * 1 \<le> 2000000000 * (2 * 2 ^ min n 8 :: nat)" by (intro mult_le_mono2)
  then show ?thesis by (simp add: patient_delay_def dur_mul_def duration_max_def layout_simps)
qed

text \<open>The spread moves a wait by at most a fifth: only earlier at first, either way once patient.\<close>

lemma spread_bounds:
  assumes "wait \<le> CEILING"
  shows "4 * wait div 5 \<le> spread wait unit patient \<and>
    spread wait unit patient \<le> (if patient then 6 * wait div 5 else wait)"
proof -
  define u where "u = min unit 1000"
  have u: "u \<le> 1000" by (simp add: u_def)
  have exact: "sat_mul 32 200 u = 200 * u" "sat_mul 32 400 u = 400 * u"
    using u by (simp_all add: sat_mul_def umax_def)
  define p where "p = (if patient then 800 + 400 * u div 1000 else 1000 - 200 * u div 1000)"
  have p: "800 \<le> p" "p \<le> (if patient then 1200 else 1000)" using u by (auto simp: p_def)
  have eq: "spread wait unit patient = wait * p div 1000"
  proof -
    have "wait * p \<le> 30000000000 * 1200" using assms p u by (intro mult_mono) (auto simp: layout_simps split: if_splits)
    then have "dur_mul wait p = wait * p" by (simp add: dur_mul_def duration_max_def)
    moreover have "sat_add 32 800 (400 * u div 1000) = 800 + 400 * u div 1000"
      using u by (simp add: sat_add_def umax_def)
    moreover have "sat_mul 32 200 2 = 400" by (simp add: sat_mul_def umax_def)
    ultimately show ?thesis
      by (cases patient)
         (simp_all add: spread_def Let_def layout_simps u_def [symmetric] exact checked_div_def opt_or_def p_def)
  qed
  define x where "x = wait * p"
  have "wait * 800 \<le> x" "x \<le> wait * (if patient then 1200 else 1000)"
    using p unfolding x_def by (auto intro: mult_le_mono2)
  then have "4 * wait div 5 \<le> x div 1000 \<and> x div 1000 \<le> (if patient then 6 * wait div 5 else wait)"
    using div_le_mono [of "wait * 800" x 1000] div_le_mono [of x "wait * (if patient then 1200 else 1000)" 1000]
    by (auto split: if_splits)
  then show ?thesis unfolding eq x_def .
qed

text \<open>
  A dropped link is dialled again soon but never hammered: every wait is at least a fifth of a
  second; while the run of failures is younger than a minute it is at most two seconds, so a peer that
  comes back is found within that, and after that at most 36.
\<close>

lemma redial_wait_bounds:
  shows "200000000 \<le> snd (next_spread now unit r) \<and>
    snd (next_spread now unit r) \<le>
      (if since now (opt_or (rl_since (fst (next_spread now unit r))) now) < PATIENCE
       then 2000000000 else 36000000000)"
proof -
  have "delay n \<le> CEILING" for n using delay_bounds [of n] by (simp add: layout_simps)
  then have d: "200000000 \<le> spread (delay n) unit False \<and> spread (delay n) unit False \<le> 2000000000" for n
    using spread_bounds [of "delay n" unit False] delay_bounds [of n] div_le_mono [of "1000000000" "4 * delay n" 5]
    by (auto simp: layout_simps)
  have p: "200000000 \<le> spread (patient_delay n) unit True \<and> spread (patient_delay n) unit True \<le> 36000000000" for n
    using spread_bounds [of "patient_delay n" unit True] patient_delay_bounds [of n]
      div_le_mono [of "8000000000" "4 * patient_delay n" 5] div_le_mono [of "6 * patient_delay n" "180000000000" 5]
    by (auto simp: layout_simps)
  show ?thesis using d p
    by (auto simp: next_spread_def Let_def opt_or_def not_le split: if_splits option.splits)
qed

text \<open>
  A link that held for ten seconds was healthy: its drop starts the schedule over, with a first
  wait of at most a quarter second, whatever came before.
\<close>

lemma steady_link_starts_over:
  assumes "rl_linked r = Some up" and "up + int STEADY \<le> now"
  shows "snd (next_spread now unit r) \<le> FIRST \<and> rl_failures (fst (next_spread now unit r)) = 1 \<and>
    rl_since (fst (next_spread now unit r)) = Some now"
proof -
  have held: "since now up \<ge> STEADY" using assms(2) by (simp add: since_def layout_simps)
  have "delay 0 = FIRST" by (simp add: delay_def dur_mul_def duration_max_def layout_simps)
  then have "spread (delay 0) unit False \<le> FIRST"
    using spread_bounds [of "delay 0" unit False] delay_bounds [of 0] by (simp add: layout_simps)
  moreover have "\<not> PATIENCE \<le> since now now" by (simp add: since_def layout_simps)
  ultimately show ?thesis using assms(1) held
    by (simp add: next_spread_def Let_def redial_reset_def opt_or_def sat_add_def umax_def)
qed

lemma steady_link_starts_over_witness:
  "snd (next_spread 20000000000 500 \<lparr>rl_failures = 7, rl_past = 3, rl_since = Some 0, rl_linked = Some 9000000000\<rparr>)
     \<le> FIRST"
  using steady_link_starts_over [of "\<lparr>rl_failures = 7, rl_past = 3, rl_since = Some 0, rl_linked = Some 9000000000\<rparr>"
      9000000000 20000000000 500] by (simp add: layout_simps)

section \<open>The output ring\<close>

record ring =
  rn_buf :: "byte list"
  rn_capacity :: nat
  rn_dropped :: nat

definition ring_new :: "nat \<Rightarrow> ring" where
  "ring_new capacity = \<lparr>rn_buf = [], rn_capacity = capacity, rn_dropped = 0\<rparr>"

definition ring_push :: "byte list \<Rightarrow> ring \<Rightarrow> ring" where
  "ring_push bytes r =
    (if length bytes \<ge> rn_capacity r then
       let skip = length bytes - rn_capacity r
       in r\<lparr>rn_dropped := sat_add 64 (sat_add 64 (rn_dropped r) (length (rn_buf r))) skip,
            rn_buf := drop skip bytes\<rparr>
     else
       let overflow = sat_add 64 (length (rn_buf r)) (length bytes) - rn_capacity r;
           r = (if overflow > 0
                then r\<lparr>rn_buf := drop overflow (rn_buf r), rn_dropped := sat_add 64 (rn_dropped r) overflow\<rparr>
                else r)
       in r\<lparr>rn_buf := rn_buf r @ bytes\<rparr>)"

definition ring_holding :: "nat \<Rightarrow> byte list \<Rightarrow> nat \<Rightarrow> ring" where
  "ring_holding capacity bytes dropped =
    (let ring = ring_push bytes (ring_new capacity)
     in ring\<lparr>rn_dropped := sat_add 64 (rn_dropped ring) dropped\<rparr>)"

definition ring_contents :: "ring \<Rightarrow> byte list" where
  "ring_contents r = rn_buf r"

definition ring_drain :: "ring \<Rightarrow> ring \<times> byte list" where
  "ring_drain r = (r\<lparr>rn_buf := []\<rparr>, rn_buf r)"

definition ring_clear :: "ring \<Rightarrow> ring" where
  "ring_clear r = r\<lparr>rn_buf := [], rn_dropped := 0\<rparr>"

text \<open>The specification: all the output there ever was; the ring is a view of its end.\<close>

definition ring_shows :: "byte list \<Rightarrow> ring \<Rightarrow> bool" where
  "ring_shows out r \<longleftrightarrow> rn_buf r = drop (length out - rn_capacity r) out \<and>
     rn_dropped r = length out - length (rn_buf r)"

lemma ring_shows_push:
  assumes sh: "ring_shows out r" and len: "length (out @ bytes) \<le> umax 64"
  shows "ring_shows (out @ bytes) (ring_push bytes r) \<and> rn_capacity (ring_push bytes r) = rn_capacity r"
proof -
  let ?n = "length out" and ?m = "length bytes" and ?c = "rn_capacity r"
  have buf: "rn_buf r = drop (?n - ?c) out" "rn_dropped r + length (rn_buf r) = ?n"
    using sh by (auto simp: ring_shows_def)
  have sat: "sat_add 64 a b = a + b" if "a + b \<le> ?n + ?m" for a b
    using that len by (simp add: sat_add_def)
  show ?thesis
  proof (cases "?c \<le> ?m")
    case True
    then show ?thesis using buf sat by (auto simp: ring_shows_def ring_push_def Let_def)
  next
    case False
    let ?o = "length (rn_buf r) + ?m - ?c"
    have over: "?o + (?n - ?c) = ?n + ?m - ?c" using False buf(1) by auto
    have "drop ?o (rn_buf r) @ bytes = drop (?n + ?m - ?c) (out @ bytes)"
      using over False by (simp add: buf(1) add.commute)
    moreover have "length (rn_buf r) + ?m \<le> ?n + ?m" using buf(2) by simp
    ultimately show ?thesis using buf(2) sat False over
      by (auto simp: ring_shows_def ring_push_def Let_def)
  qed
qed

definition ring_run :: "byte list list \<Rightarrow> ring \<Rightarrow> ring" where
  "ring_run writes r = fold ring_push writes r"

lemma ring_run_shows:
  "ring_shows out r \<Longrightarrow> length (out @ concat writes) \<le> umax 64 \<Longrightarrow>
   ring_shows (out @ concat writes) (ring_run writes r) \<and> rn_capacity (ring_run writes r) = rn_capacity r"
proof (induction writes arbitrary: out r)
  case Nil
  then show ?case by (simp add: ring_run_def)
next
  case (Cons w writes)
  then have "ring_shows (out @ w) (ring_push w r) \<and> rn_capacity (ring_push w r) = rn_capacity r"
    by (intro ring_shows_push) simp_all
  then show ?case using Cons.IH [of "out @ w" "ring_push w r"] Cons.prems by (simp add: ring_run_def)
qed

text \<open>
  C40. The ring holds exactly the newest output: after any writes, of any sizes, its contents are the last
  \<open>capacity\<close> bytes of everything written (all of it, while that is less), and its count of dropped bytes
  is the rest, so a consumer knows where in the stream its replay starts.
\<close>

theorem ring_keeps_newest:
  assumes "length (concat writes) \<le> umax 64"
  shows "ring_contents (ring_run writes (ring_new capacity)) = drop (length (concat writes) - capacity) (concat writes)
    \<and> rn_dropped (ring_run writes (ring_new capacity)) = length (concat writes) - capacity"
proof -
  have "ring_shows [] (ring_new capacity)" by (simp add: ring_shows_def ring_new_def)
  from ring_run_shows [OF this, of writes] assms show ?thesis
    by (auto simp: ring_shows_def ring_contents_def ring_new_def)
qed

theorem ring_keeps_newest_witness:
  "ring_contents (ring_run [[1, 2], [3, 4, 5], [6]] (ring_new 4)) = [3, 4, 5, 6]"
  using ring_keeps_newest [of "[[1, 2], [3, 4, 5], [6]]" 4] by (simp add: umax_def)

end
