(* ===== verification/Grid.thy ===== *)
theory Grid
  imports Prelude
begin

text \<open>
  The terminal grid (\<open>slopty-grid/src/style.rs\<close>, \<open>cell.rs\<close>, \<open>modes.rs\<close>, \<open>line.rs\<close>, \<open>screen.rs\<close>): cells,
  lines with their wire form and the decoder's cell budget, and the visible screen with the updates
  applied to it.

  A string is the list of its Unicode scalar values. A cell's text is such a list: the code keeps it
  inline or on the heap, canonically by its length, so that equality is equality of the text. A line is
  generic in its cells, for the scrollback cache reads none of them.
\<close>

section \<open>Style\<close>

type_synonym uchar = nat
type_synonym ustring = "uchar list"

datatype color = ColorDefault | Palette nat | Rgb nat nat nat

datatype underline = UnderlineNone | Single | Double | Curly | Dotted | Dashed

record style =
  st_fg :: color
  st_bg :: color
  st_underline_color :: color
  st_underline :: underline
  st_flags :: "16 word"

text \<open>The bit sets of \<open>bitflags!\<close>: \<open>contains\<close> and \<open>intersects\<close>.\<close>

definition flags_contain :: "16 word \<Rightarrow> 16 word \<Rightarrow> bool" where
  "flags_contain fs gs \<longleftrightarrow> fs AND gs = gs"

definition flags_intersect :: "16 word \<Rightarrow> 16 word \<Rightarrow> bool" where
  "flags_intersect fs gs \<longleftrightarrow> fs AND gs \<noteq> 0"

definition FAINT :: "16 word" where "FAINT = push_bit 1 1"

definition STYLE_DEFAULT :: style where
  "STYLE_DEFAULT = \<lparr>st_fg = ColorDefault, st_bg = ColorDefault, st_underline_color = ColorDefault,
     st_underline = UnderlineNone, st_flags = 0\<rparr>"

section \<open>Modes\<close>

definition ALT_SCREEN :: "16 word" where "ALT_SCREEN = push_bit 0 1"
definition MOUSE_TRACKING :: "16 word" where "MOUSE_TRACKING = push_bit 1 1"
definition CURSOR_HIDDEN :: "16 word" where "CURSOR_HIDDEN = push_bit 7 1"
definition ECHO_OFF :: "16 word" where "ECHO_OFF = push_bit 9 1"
definition CANONICAL :: "16 word" where "CANONICAL = push_bit 10 1"

definition prediction_allowed :: "16 word \<Rightarrow> bool" where
  "prediction_allowed modes \<longleftrightarrow> \<not> flags_contain modes (ECHO_OFF OR CANONICAL) \<and>
     \<not> flags_intersect modes (ALT_SCREEN OR CURSOR_HIDDEN OR MOUSE_TRACKING)"

section \<open>Cells\<close>

datatype cell_width = Narrow | Wide | SpacerTail | SpacerHead

fun width_columns :: "cell_width \<Rightarrow> nat" where
  "width_columns Wide = 2"
| "width_columns _ = 1"

fun draws_text :: "cell_width \<Rightarrow> bool" where
  "draws_text Narrow = True"
| "draws_text Wide = True"
| "draws_text _ = False"

record cell =
  cl_text :: ustring
  cl_style :: style
  cl_width :: cell_width

definition BLANK :: cell where
  "BLANK = \<lparr>cl_text = [], cl_style = STYLE_DEFAULT, cl_width = Narrow\<rparr>"

definition cell_narrow :: "uchar \<Rightarrow> style \<Rightarrow> cell" where
  "cell_narrow c st = \<lparr>cl_text = [c], cl_style = st, cl_width = Narrow\<rparr>"

definition cell_is_blank :: "cell \<Rightarrow> bool" where
  "cell_is_blank c \<longleftrightarrow> cl_text c = [] \<and> cl_style c = STYLE_DEFAULT \<and> cl_width c = Narrow"

section \<open>Lines\<close>

definition MAX_COLS :: nat where "MAX_COLS = 2048"

datatype semantic_mark = MUnknown | Prompt "nat option" "nat option" | MInput | Output | PromptContinuation "nat option"

fun is_prompt :: "semantic_mark \<Rightarrow> bool" where
  "is_prompt (Prompt _ _) = True"
| "is_prompt (PromptContinuation _) = True"
| "is_prompt _ = False"

fun starts_prompt :: "semantic_mark \<Rightarrow> bool" where
  "starts_prompt (Prompt _ _) = True"
| "starts_prompt _ = False"

fun mark_exit :: "semantic_mark \<Rightarrow> nat option" where
  "mark_exit (Prompt st _) = st"
| "mark_exit _ = None"

fun input_col :: "semantic_mark \<Rightarrow> nat option" where
  "input_col (Prompt _ inp) = inp"
| "input_col (PromptContinuation inp) = inp"
| "input_col _ = None"

definition WRAPPED :: byte where "WRAPPED = push_bit 0 1"

record hyperlink =
  hl_col :: nat
  hl_len :: nat
  hl_uri :: string

definition hl_covers :: "hyperlink \<Rightarrow> nat \<Rightarrow> bool" where
  "hl_covers l col \<longleftrightarrow> col \<ge> hl_col l \<and> col < sat_add 16 (hl_col l) (hl_len l)"

record 'c line =
  ln_cells :: "'c list"
  ln_flags :: byte
  ln_mark :: semantic_mark
  ln_links :: "hyperlink list"

type_synonym grid_line = "cell line"

text \<open>\<open>Vec::resize\<close>, and \<open>rposition\<close>: the index of the last element that satisfies a predicate.\<close>

definition vec_resize :: "nat \<Rightarrow> 'a \<Rightarrow> 'a list \<Rightarrow> 'a list" where
  "vec_resize n x xs = take n xs @ replicate (n - length xs) x"

definition rposition :: "('a \<Rightarrow> bool) \<Rightarrow> 'a list \<Rightarrow> nat option" where
  "rposition P xs = (let n = length (dropWhile (\<lambda>x. \<not> P x) (rev xs)) in if n = 0 then None else Some (n - 1))"

definition line_blank :: "nat \<Rightarrow> grid_line" where
  "line_blank cols = \<lparr>ln_cells = replicate cols BLANK, ln_flags = 0, ln_mark = MUnknown, ln_links = []\<rparr>"

definition from_text :: "ustring \<Rightarrow> nat \<Rightarrow> style \<Rightarrow> grid_line" where
  "from_text text cols st = \<lparr>ln_cells = vec_resize cols BLANK (map (\<lambda>c. cell_narrow c st) (take cols text)),
     ln_flags = 0, ln_mark = MUnknown, ln_links = []\<rparr>"

definition link_at :: "nat \<Rightarrow> 'c line \<Rightarrow> hyperlink option" where
  "link_at col l = find (\<lambda>h. hl_covers h col) (ln_links l)"

definition line_cols :: "'c line \<Rightarrow> nat" where
  "line_cols l = to_width 16 (length (ln_cells l))"

definition uncut :: "cell list \<Rightarrow> cell list" where
  "uncut cells = (if cells \<noteq> [] \<and> cl_width (last cells) = Wide then butlast cells @ [BLANK] else cells)"

definition retain_links :: "nat \<Rightarrow> hyperlink list \<Rightarrow> hyperlink list" where
  "retain_links cols links =
     filter (\<lambda>l. hl_len l > 0) (map (\<lambda>l. l\<lparr>hl_len := min (hl_len l) (cols - hl_col l)\<rparr>) links)"

definition line_resize :: "nat \<Rightarrow> grid_line \<Rightarrow> grid_line" where
  "line_resize cols l =
    (if cols < length (ln_cells l)
     then l\<lparr>ln_cells := uncut (take cols (ln_cells l)), ln_links := retain_links (to_width 16 cols) (ln_links l)\<rparr>
     else l\<lparr>ln_cells := vec_resize cols BLANK (ln_cells l)\<rparr>)"

definition last_content_col :: "grid_line \<Rightarrow> nat option" where
  "last_content_col l =
    (case rposition (\<lambda>c. \<not> cell_is_blank c) (ln_cells l) of
       None \<Rightarrow> None | Some i \<Rightarrow> if i \<le> umax 16 then Some i else None)"

definition content_len :: "grid_line \<Rightarrow> nat" where
  "content_len l = (case last_content_col l of None \<Rightarrow> 0 | Some c \<Rightarrow> c + 1)"

definition text_from :: "nat \<Rightarrow> grid_line \<Rightarrow> ustring" where
  "text_from col l =
     concat (map (\<lambda>c. if \<not> draws_text (cl_width c) then [] else if cl_text c = [] then [32] else cl_text c)
       (drop col (take (content_len l) (ln_cells l))))"

definition line_text :: "grid_line \<Rightarrow> ustring" where
  "line_text l = text_from 0 l"

definition line_is_blank :: "grid_line \<Rightarrow> bool" where
  "line_is_blank l = list_all cell_is_blank (ln_cells l)"

section \<open>Lines on the wire\<close>

record wire_line =
  wl_cols :: nat
  wl_cells :: "cell list"
  wl_flags :: byte
  wl_mark :: semantic_mark
  wl_links :: "hyperlink list"

definition to_wire :: "grid_line \<Rightarrow> wire_line" where
  "to_wire l = \<lparr>wl_cols = line_cols l,
     wl_cells = opt_or (get_range (ln_cells l) 0 (content_len l)) [],
     wl_flags = ln_flags l, wl_mark = ln_mark l, wl_links = ln_links l\<rparr>"

text \<open>The decode budget of a thread: none outside \<open>with_cell_budget\<close>.\<close>

definition spend :: "nat \<Rightarrow> nat option \<Rightarrow> nat option \<times> bool" where
  "spend cells budget =
    (case budget of
       None \<Rightarrow> (None, True)
     | Some left \<Rightarrow> if cells \<le> left then (Some (left - cells), True) else (Some left, False))"

datatype line_error = TooManyColumns nat | TooManyCells nat | OverBudget

definition of_wire :: "wire_line \<Rightarrow> nat option \<Rightarrow> nat option \<times> (line_error + grid_line)" where
  "of_wire w budget =
    (if wl_cols w > MAX_COLS then (budget, Inl (TooManyColumns (wl_cols w)))
     else if length (wl_cells w) > wl_cols w then (budget, Inl (TooManyCells (length (wl_cells w))))
     else case spend (wl_cols w) budget of
       (budget, False) \<Rightarrow> (budget, Inl OverBudget)
     | (budget, True) \<Rightarrow> (budget, Inr \<lparr>ln_cells = vec_resize (wl_cols w) BLANK (wl_cells w), ln_flags = wl_flags w,
         ln_mark = wl_mark w, ln_links = wl_links w\<rparr>))"

definition with_cell_budget :: "nat \<Rightarrow> (nat option \<Rightarrow> nat option \<times> 'a) \<Rightarrow> nat option \<Rightarrow> nat option \<times> ('a \<times> nat)" where
  "with_cell_budget cells decode outer =
    (let start = (case outer of None \<Rightarrow> cells | Some oc \<Rightarrow> min oc cells)
     in case decode (Some start) of
          (left, out) \<Rightarrow>
            let spent = start - opt_or left 0
            in (map_option (\<lambda>oc. oc - spent) outer, (out, spent)))"

text \<open>A sequence of lines decoded one after another, up to the first that fails.\<close>

fun decode_lines :: "wire_line list \<Rightarrow> nat option \<Rightarrow> nat option \<times> (line_error + grid_line list)" where
  "decode_lines [] budget = (budget, Inr [])"
| "decode_lines (w # ws) budget =
    (case of_wire w budget of
       (budget, Inl e) \<Rightarrow> (budget, Inl e)
     | (budget, Inr l) \<Rightarrow>
       (case decode_lines ws budget of (budget, Inl e) \<Rightarrow> (budget, Inl e) | (budget, Inr ls) \<Rightarrow> (budget, Inr (l # ls))))"

section \<open>The screen\<close>

definition MAX_ROWS :: nat where "MAX_ROWS = 1024"

datatype cursor_shape = Block | Bar | UnderlineBar | BlockHollow

record cursor =
  cu_row :: nat
  cu_col :: nat
  cu_shape :: cursor_shape
  cu_visible :: bool
  cu_blink :: bool

definition cursor_default :: cursor where
  "cursor_default = \<lparr>cu_row = 0, cu_col = 0, cu_shape = Block, cu_visible = False, cu_blink = False\<rparr>"

record row_update =
  ru_row :: nat
  ru_line :: grid_line

datatype screen_error = RowOutOfRange nat nat | WidthMismatch nat nat

record screen =
  sc_cols :: nat
  sc_rows :: nat
  sc_lines :: "grid_line list"
  sc_cursor :: cursor
  sc_modes :: "16 word"

definition screen_new :: "nat \<Rightarrow> nat \<Rightarrow> screen" where
  "screen_new cols rows =
    (let cols = min cols MAX_COLS; rows = min rows MAX_ROWS
     in \<lparr>sc_cols = cols, sc_rows = rows, sc_lines = replicate rows (line_blank cols),
         sc_cursor = cursor_default\<lparr>cu_visible := True\<rparr>, sc_modes = 0\<rparr>)"

definition set_modes :: "16 word \<Rightarrow> screen \<Rightarrow> screen" where
  "set_modes modes s = s\<lparr>sc_modes := modes\<rparr>"

definition screen_line :: "screen \<Rightarrow> nat \<Rightarrow> grid_line option" where
  "screen_line s row = (if row < length (sc_lines s) then Some (sc_lines s ! row) else None)"

definition screen_resize :: "nat \<Rightarrow> nat \<Rightarrow> screen \<Rightarrow> screen" where
  "screen_resize cols rows s =
    (let cols = min cols MAX_COLS; rows = min rows MAX_ROWS;
         lines = map (line_resize cols) (vec_resize rows (line_blank cols) (sc_lines s));
         cu = sc_cursor s
     in s\<lparr>sc_cols := cols, sc_rows := rows, sc_lines := lines,
          sc_cursor := cu\<lparr>cu_row := min (cu_row cu) (rows - 1), cu_col := min (cu_col cu) (cols - 1)\<rparr>\<rparr>)"

definition screen_apply :: "row_update \<Rightarrow> screen \<Rightarrow> screen \<times> (screen_error + unit)" where
  "screen_apply u s =
    (let got = line_cols (ru_line u)
     in if got \<noteq> sc_cols s then (s, Inl (WidthMismatch got (sc_cols s)))
        else if ru_row u < length (sc_lines s) then (s\<lparr>sc_lines := (sc_lines s)[ru_row u := ru_line u]\<rparr>, Inr ())
        else (s, Inl (RowOutOfRange (ru_row u) (sc_rows s))))"

definition replace_all :: "grid_line list \<Rightarrow> screen \<Rightarrow> screen \<times> (screen_error + unit)" where
  "replace_all lines s =
    (let rows = to_width 16 (length lines)
     in if rows \<noteq> sc_rows s then (s, Inl (RowOutOfRange rows (sc_rows s)))
        else case find (\<lambda>l. line_cols l \<noteq> sc_cols s) lines of
          Some bad \<Rightarrow> (s, Inl (WidthMismatch (line_cols bad) (sc_cols s)))
        | None \<Rightarrow> (s\<lparr>sc_lines := lines\<rparr>, Inr ()))"

section \<open>Lines keep their shape\<close>

lemma rposition_snoc [simp]: "rposition P (xs @ [x]) = (if P x then Some (length xs) else rposition P xs)"
  by (simp add: rposition_def)

lemma rposition_Nil [simp]: "rposition P [] = None"
  by (simp add: rposition_def)

lemma rposition_None: "rposition P xs = None \<longleftrightarrow> (\<forall>x \<in> set xs. \<not> P x)"
  by (induction xs rule: rev_induct) auto

lemma rposition_Some:
  "rposition P xs = Some i \<longleftrightarrow> i < length xs \<and> P (xs ! i) \<and> (\<forall>x \<in> set (drop (Suc i) xs). \<not> P x)"
proof (induction xs rule: rev_induct)
  case (snoc x xs)
  show ?case by (cases "i < length xs") (auto simp: snoc nth_append less_Suc_eq)
qed simp

lemma length_vec_resize [simp]: "length (vec_resize n x xs) = n"
  by (simp add: vec_resize_def)

lemma length_uncut [simp]: "length (uncut cells) = length cells"
  by (auto simp: uncut_def)

lemma line_resize_cols: "length (ln_cells (line_resize cols l)) = cols"
  by (simp add: line_resize_def)

text \<open>Every wide cell is followed by its second column, which follows nothing else.\<close>

definition wide_whole :: "cell list \<Rightarrow> bool" where
  "wide_whole cells \<longleftrightarrow>
     (\<forall>i < length cells. cl_width (cells ! i) = Wide \<longrightarrow> Suc i < length cells \<and> cl_width (cells ! Suc i) = SpacerTail) \<and>
     (\<forall>i < length cells. cl_width (cells ! i) = SpacerTail \<longrightarrow> 0 < i \<and> cl_width (cells ! (i - 1)) = Wide)"

lemma wide_whole_take:
  assumes "wide_whole cells" and "n < length cells"
  shows "wide_whole (uncut (take n cells))"
proof (cases n)
  case 0
  then show ?thesis by (simp add: wide_whole_def uncut_def)
next
  case (Suc m)
  have last: "last (take n cells) = cells ! m" using assms(2) Suc by (simp add: take_Suc_conv_app_nth)
  have u: "uncut (take n cells) ! i = (if i = m \<and> cl_width (cells ! m) = Wide then BLANK else cells ! i)" if "i < n" for i
    using that Suc assms(2) last by (auto simp: uncut_def nth_append take_Suc_conv_app_nth butlast_append less_Suc_eq)
  have len: "length (uncut (take n cells)) = n" using assms(2) by simp
  have w: "cl_width (uncut (take n cells) ! i) = (if i = m \<and> cl_width (cells ! m) = Wide then Narrow else cl_width (cells ! i))"
    if "i < n" for i using u [OF that] by (simp add: BLANK_def)
  have wide: "cl_width (cells ! Suc i) = SpacerTail" if "i < n" "cl_width (cells ! i) = Wide" for i
    using assms that by (simp add: wide_whole_def)
  have tail: "0 < i \<and> cl_width (cells ! (i - 1)) = Wide" if "i < n" "cl_width (cells ! i) = SpacerTail" for i
    using assms that by (simp add: wide_whole_def)
  show ?thesis unfolding wide_whole_def len
  proof (intro conjI allI impI)
    fix i assume i: "i < n" "cl_width (uncut (take n cells) ! i) = Wide"
    then have "i \<noteq> m" and "cl_width (cells ! i) = Wide" by (auto simp: w split: if_splits)
    then show "Suc i < n" using i(1) Suc by simp
    then show "cl_width (uncut (take n cells) ! Suc i) = SpacerTail"
      using wide [OF i(1) \<open>cl_width (cells ! i) = Wide\<close>] w [of "Suc i"] by (auto split: if_splits)
  next
    fix i assume i: "i < n" "cl_width (uncut (take n cells) ! i) = SpacerTail"
    then have "cl_width (cells ! i) = SpacerTail" by (auto simp: w split: if_splits)
    then have "0 < i" "cl_width (cells ! (i - 1)) = Wide" using tail [OF i(1)] by simp_all
    then show "0 < i" "cl_width (uncut (take n cells) ! (i - 1)) = Wide" using i(1) Suc w [of "i - 1"] by auto
  qed
qed

lemma wide_whole_pad:
  assumes "wide_whole cells" and "length cells \<le> n"
  shows "wide_whole (vec_resize n BLANK cells)"
  using assms by (auto simp: wide_whole_def vec_resize_def nth_append BLANK_def)

text \<open>
  A resize never cuts a wide character in half: whatever the new width, the line has exactly that
  many cells, a line whose wide cells are whole keeps them whole, and each link ends within the line if it did before.
\<close>

lemma resize_keeps_wide_whole:
  assumes "wide_whole (ln_cells l)" and "\<forall>h \<in> set (ln_links l). hl_col h + hl_len h \<le> length (ln_cells l)"
    and "cols \<le> umax 16"
  shows "length (ln_cells (line_resize cols l)) = cols \<and> wide_whole (ln_cells (line_resize cols l)) \<and>
    (\<forall>h \<in> set (ln_links (line_resize cols l)). hl_col h + hl_len h \<le> cols)"
  using assms
  by (auto simp: line_resize_cols line_resize_def wide_whole_take wide_whole_pad retain_links_def to_width_def)

section \<open>The wire form\<close>

lemma blank_cell: "cell_is_blank c \<Longrightarrow> c = BLANK"
  by (cases c) (simp add: cell_is_blank_def BLANK_def)

lemma last_content:
  assumes "length (ln_cells l) \<le> MAX_COLS"
  shows "content_len l \<le> length (ln_cells l) \<and>
    drop (content_len l) (ln_cells l) = replicate (length (ln_cells l) - content_len l) BLANK \<and>
    (content_len l = 0 \<or> \<not> cell_is_blank (ln_cells l ! (content_len l - 1)))"
proof (cases "rposition (\<lambda>c. \<not> cell_is_blank c) (ln_cells l)")
  case None
  then have "\<forall>c \<in> set (ln_cells l). c = BLANK" by (auto simp: rposition_None blank_cell)
  then show ?thesis using None by (simp add: content_len_def last_content_col_def replicate_length_same)
next
  case (Some i)
  then have i: "i < length (ln_cells l)" "\<not> cell_is_blank (ln_cells l ! i)"
    and "\<forall>c \<in> set (drop (Suc i) (ln_cells l)). c = BLANK" by (auto simp: rposition_Some blank_cell)
  then have "drop (Suc i) (ln_cells l) = replicate (length (ln_cells l) - Suc i) BLANK"
    by (metis length_drop replicate_length_same)
  moreover have "content_len l = Suc i"
    using Some i assms by (simp add: content_len_def last_content_col_def MAX_COLS_def umax_def)
  ultimately show ?thesis using i by simp
qed

text \<open>
  C12. A line comes off the wire as it went on, however many trailing blanks the wire left off, and its decode takes
  exactly its width from the budget; and the wire carries no cell after the last one with content.
\<close>

theorem line_wire_roundtrip:
  assumes "length (ln_cells l) \<le> MAX_COLS" and "case budget of None \<Rightarrow> True | Some left \<Rightarrow> length (ln_cells l) \<le> left"
  shows "of_wire (to_wire l) budget = (map_option (\<lambda>left. left - length (ln_cells l)) budget, Inr l) \<and>
    (wl_cells (to_wire l) \<noteq> [] \<longrightarrow> \<not> cell_is_blank (last (wl_cells (to_wire l))))"
proof -
  note content = last_content [OF assms(1)]
  have cols: "line_cols l = length (ln_cells l)" using assms(1) by (simp add: line_cols_def to_width_def MAX_COLS_def umax_def)
  have cells: "wl_cells (to_wire l) = take (content_len l) (ln_cells l)"
    using content by (simp add: to_wire_def get_range_def)
  have "vec_resize (length (ln_cells l)) BLANK (take (content_len l) (ln_cells l)) = ln_cells l"
    using content append_take_drop_id [of "content_len l" "ln_cells l"] by (simp add: vec_resize_def)
  then have "of_wire (to_wire l) budget = (map_option (\<lambda>left. left - length (ln_cells l)) budget, Inr l)"
    using assms content cells cols by (auto simp: of_wire_def to_wire_def spend_def split: option.splits)
  moreover have "\<not> cell_is_blank (last (wl_cells (to_wire l)))" if "wl_cells (to_wire l) \<noteq> []"
    using that content unfolding cells by (auto simp: last_conv_nth min_def)
  ultimately show ?thesis by blast
qed

lemma of_wire_budget:
  "of_wire w (Some b) = (b', r) \<Longrightarrow> \<exists>left. b' = Some left \<and> left \<le> b \<and>
     (case r of Inl _ \<Rightarrow> left = b | Inr l \<Rightarrow> length (ln_cells l) \<le> MAX_COLS \<and> b = left + length (ln_cells l))"
  by (auto simp: of_wire_def spend_def split: if_splits)

lemma decode_lines_budget:
  "decode_lines ws (Some b) = (b', r) \<Longrightarrow> \<exists>left. b' = Some left \<and> left \<le> b \<and>
     (case r of Inl _ \<Rightarrow> True | Inr ls \<Rightarrow> length ls = length ws \<and> (\<forall>l \<in> set ls. length (ln_cells l) \<le> MAX_COLS) \<and>
        b = left + sum_list (map (\<lambda>l. length (ln_cells l)) ls))"
proof (induction ws arbitrary: b b' r)
  case (Cons w ws)
  obtain c q where w: "of_wire w (Some b) = (c, q)" by fastforce
  obtain left where left: "c = Some left" "left \<le> b" using of_wire_budget [OF w] by blast
  show ?case
  proof (cases q)
    case (Inl e)
    then show ?thesis using Cons.prems w left by auto
  next
    case (Inr l)
    obtain d t where t: "decode_lines ws (Some left) = (d, t)" by fastforce
    show ?thesis using Cons.IH [OF t] of_wire_budget [OF w] Cons.prems w t left Inr by (auto split: sum.splits)
  qed
qed simp

text \<open>
  C13. Decoding lines never takes more cells than it was given: within a budget, nested or not, the
  cells spent are at most the budget and at most what the enclosing decode had left, which is charged for them; and
  the lines that decode have exactly the cells spent, none wider than a terminal can be.
\<close>

theorem decode_stays_in_budget:
  "let (outer', out, spent) = with_cell_budget cells (decode_lines ws) outer in
     spent \<le> cells \<and> outer' = map_option (\<lambda>oc. oc - spent) outer \<and> (case outer of None \<Rightarrow> True | Some oc \<Rightarrow> spent \<le> oc) \<and>
     (case out of Inl _ \<Rightarrow> True | Inr ls \<Rightarrow> length ls = length ws \<and>
        (\<forall>l \<in> set ls. length (ln_cells l) \<le> MAX_COLS) \<and> spent = sum_list (map (\<lambda>l. length (ln_cells l)) ls))"
proof -
  define start where "start = (case outer of None \<Rightarrow> cells | Some oc \<Rightarrow> min oc cells)"
  obtain b r where r: "decode_lines ws (Some start) = (b, r)" by fastforce
  have "start \<le> cells" "\<And>oc. outer = Some oc \<Longrightarrow> start \<le> oc" by (auto simp: start_def split: option.splits)
  then show ?thesis using decode_lines_budget [OF r] r
    by (auto simp: with_cell_budget_def Let_def simp flip: start_def split: sum.splits option.splits)
qed

section \<open>The screen stays rectangular\<close>

inductive screen_reach :: "screen \<Rightarrow> bool" where
  new: "screen_reach (screen_new cols rows)"
| resized: "screen_reach s \<Longrightarrow> screen_reach (screen_resize cols rows s)"
| applied: "screen_reach s \<Longrightarrow> screen_reach (fst (screen_apply u s))"
| replaced: "screen_reach s \<Longrightarrow> screen_reach (fst (replace_all lines s))"
| moded: "screen_reach s \<Longrightarrow> screen_reach (set_modes modes s)"
| moved: "screen_reach s \<Longrightarrow> screen_reach (s\<lparr>sc_cursor := cu\<rparr>)"

definition screen_ok :: "screen \<Rightarrow> bool" where
  "screen_ok s \<longleftrightarrow> sc_cols s \<le> MAX_COLS \<and> sc_rows s \<le> MAX_ROWS \<and> length (sc_lines s) = sc_rows s \<and>
     (\<forall>l \<in> set (sc_lines s). length (ln_cells l) = sc_cols s)"

lemma line_cols_eq: "n \<le> MAX_COLS \<Longrightarrow> line_cols l = n \<longleftrightarrow> length (ln_cells l) = n"
  by (auto simp: line_cols_def to_width_def MAX_COLS_def umax_def)

lemma find_all_None: "find P xs = None \<longleftrightarrow> (\<forall>x \<in> set xs. \<not> P x)"
  by (auto simp: find_None_iff)

lemma screen_ok_reach: "screen_reach s \<Longrightarrow> screen_ok s"
proof (induction rule: screen_reach.induct)
  case (applied s u)
  then show ?case
    by (auto simp: screen_apply_def Let_def screen_ok_def line_cols_eq dest!: set_update_subset_insert [THEN subsetD])
next
  case (replaced s lines)
  moreover have "length lines = sc_rows s" if "to_width 16 (length lines) = sc_rows s" "sc_rows s \<le> MAX_ROWS"
    using that by (auto simp: to_width_def MAX_ROWS_def umax_def split: if_splits)
  ultimately show ?case
    by (auto simp: replace_all_def Let_def screen_ok_def find_all_None line_cols_eq split: option.splits)
qed (auto simp: screen_ok_def screen_new_def screen_resize_def set_modes_def Let_def line_blank_def line_resize_cols)

text \<open>
  C14. The screen is always exactly as many lines of exactly as many cells as it says, never past the
  ceiling; a row update of the screen's width within its height replaces that row and no other; and one
  that does not fit is refused with the screen as it was.
\<close>

theorem screen_updates_are_exact:
  assumes "screen_reach s"
  shows "screen_ok s \<and>
    (if ru_row u < sc_rows s \<and> length (ln_cells (ru_line u)) = sc_cols s
     then snd (screen_apply u s) = Inr () \<and>
       (\<forall>r. screen_line (fst (screen_apply u s)) r = (if r = ru_row u then Some (ru_line u) else screen_line s r))
     else fst (screen_apply u s) = s \<and> snd (screen_apply u s) \<noteq> Inr ())"
  using screen_ok_reach [OF assms]
  by (auto simp: screen_apply_def Let_def screen_ok_def line_cols_eq screen_line_def)

section \<open>Witnesses\<close>

lemma blank_line_shape: "ln_cells (line_blank n) = replicate n BLANK" "ln_links (line_blank n) = []"
  by (simp_all add: line_blank_def)

lemma resize_keeps_wide_whole_witness: "length (ln_cells (line_resize 3 (line_blank 5))) = 3"
  using resize_keeps_wide_whole [of "line_blank 5" 3] by (simp add: blank_line_shape wide_whole_def BLANK_def umax_def)

theorem line_wire_roundtrip_witness: "of_wire (to_wire (from_text [104, 105] 80 STYLE_DEFAULT)) (Some 100) =
    (Some 20, Inr (from_text [104, 105] 80 STYLE_DEFAULT))"
  using line_wire_roundtrip [of "from_text [104, 105] 80 STYLE_DEFAULT" "Some 100"] by (simp add: from_text_def MAX_COLS_def)

theorem screen_updates_are_exact_witness:
  "snd (screen_apply \<lparr>ru_row = 1, ru_line = line_blank 7\<rparr> (screen_new 7 2)) = Inr () \<and>
   fst (screen_apply \<lparr>ru_row = 2, ru_line = line_blank 7\<rparr> (screen_new 7 2)) = screen_new 7 2"
proof -
  have "sc_rows (screen_new 7 2) = 2" "sc_cols (screen_new 7 2) = 7" by (simp_all add: screen_new_def MAX_COLS_def MAX_ROWS_def)
  then show ?thesis
    using screen_updates_are_exact [OF new, of 7 2 "\<lparr>ru_row = 1, ru_line = line_blank 7\<rparr>"]
      screen_updates_are_exact [OF new, of 7 2 "\<lparr>ru_row = 2, ru_line = line_blank 7\<rparr>"]
    by (simp add: blank_line_shape)
qed

theorem decode_stays_in_budget_witness: "snd (snd (with_cell_budget 100 (decode_lines [to_wire (line_blank 60), to_wire (line_blank 60)]) None)) \<le> 100"
  using decode_stays_in_budget [of 100 "[to_wire (line_blank 60), to_wire (line_blank 60)]" None] by (auto simp: Let_def split: prod.splits)

end
