(* ===== verification/Scrollback.thy ===== *)
theory Scrollback
  imports Ordered_Map Grid
begin

text \<open>
  The client's scrollback cache (\<open>slopty-grid/src/scrollback.rs\<close>): lines by absolute index in a sparse,
  bounded window, the prompts among them, what is missing of a range, and eviction away from the view.

  A line's cells are a type parameter: the cache reads nothing of a line but its mark. A \<open>LineIndex\<close> is
  a \<open>u64\<close>, as a natural number; a \<open>BTreeSet\<close> of indices is an ordered map to the unit.
\<close>

section \<open>Line numbers\<close>

definition index_next :: "nat \<Rightarrow> nat" where
  "index_next i = sat_add 64 i 1"

definition index_offset :: "nat \<Rightarrow> nat \<Rightarrow> nat" where
  "index_offset i n = sat_add 64 i n"

section \<open>The cache\<close>

record 'c scrollback =
  sb_lines :: "'c line omap"
  sb_prompts :: "unit omap"
  sb_capacity :: nat
  sb_total :: nat
  sb_oldest :: nat
  sb_focus :: nat
  sb_screen :: nat

definition NOTHING :: "nat \<times> nat" where "NOTHING = (0, 0)"

definition scrollback_new :: "nat \<Rightarrow> 'c scrollback" where
  "scrollback_new capacity = \<lparr>sb_lines = [], sb_prompts = [], sb_capacity = capacity, sb_total = 0,
     sb_oldest = 0, sb_focus = umax 64, sb_screen = umax 64\<rparr>"

definition set_view :: "nat \<Rightarrow> nat \<Rightarrow> 'c scrollback \<Rightarrow> 'c scrollback" where
  "set_view top_line screen sb = sb\<lparr>sb_focus := top_line, sb_screen := screen\<rparr>"

text \<open>\<open>range(..).next()\<close> and \<open>range(..).next_back()\<close>: the first index from one on, and the last below one.\<close>

definition first_from :: "nat \<Rightarrow> 'v omap \<Rightarrow> nat option" where
  "first_from k m = map_option fst (find (\<lambda>e. k \<le> fst e) m)"

definition last_below :: "nat \<Rightarrow> 'v omap \<Rightarrow> nat option" where
  "last_below k m = map_option fst (find (\<lambda>e. fst e < k) (rev m))"

definition in_range :: "nat \<times> nat \<Rightarrow> nat \<Rightarrow> bool" where
  "in_range keep i \<longleftrightarrow> fst keep \<le> i \<and> i < snd keep"

definition sb_distance :: "'c scrollback \<Rightarrow> nat \<Rightarrow> nat" where
  "sb_distance sb i = abs_diff i (sb_focus sb)"

text \<open>The line a round of the eviction takes.\<close>

definition trim_low :: "nat \<times> nat \<Rightarrow> 'c scrollback \<Rightarrow> nat option" where
  "trim_low keep sb =
    (let low = (case first_from 0 (sb_lines sb) of
                  Some i \<Rightarrow> if in_range keep i then first_from (snd keep) (sb_lines sb) else Some i
                | None \<Rightarrow> None)
     in (case low of Some i \<Rightarrow> if i < sb_screen sb then Some i else None | None \<Rightarrow> None))"

definition trim_high :: "nat \<times> nat \<Rightarrow> 'c scrollback \<Rightarrow> nat option" where
  "trim_high keep sb =
    (case last_below (sb_screen sb) (sb_lines sb) of
       Some i \<Rightarrow> if in_range keep i then last_below (fst keep) (sb_lines sb) else Some i
     | None \<Rightarrow> None)"

definition trim_victim :: "nat \<times> nat \<Rightarrow> 'c scrollback \<Rightarrow> nat option" where
  "trim_victim keep sb =
    (case (trim_low keep sb, trim_high keep sb) of
       (Some low, Some high) \<Rightarrow> Some (if sb_distance sb high > sb_distance sb low then high else low)
     | (Some only, None) \<Rightarrow> Some only
     | (None, Some only) \<Rightarrow> Some only
     | (None, None) \<Rightarrow> None)"

lemma find_SomeD: "find P xs = Some x \<Longrightarrow> x \<in> set xs \<and> P x"
  by (induction xs) (auto split: if_splits)

lemma first_from_Some: "first_from k m = Some i \<Longrightarrow> i \<in> om_keys m \<and> k \<le> i"
  by (auto simp: first_from_def om_keys_def dest!: find_SomeD intro: rev_image_eqI)

lemma last_below_Some: "last_below k m = Some i \<Longrightarrow> i \<in> om_keys m \<and> i < k"
  by (auto simp: last_below_def om_keys_def dest!: find_SomeD intro: rev_image_eqI)

lemma trim_victim_key: "trim_victim keep sb = Some v \<Longrightarrow> v \<in> om_keys (sb_lines sb)"
  by (auto simp: trim_victim_def trim_low_def trim_high_def Let_def
      dest: first_from_Some last_below_Some split: option.splits if_splits)

lemma remove_shorter: "v \<in> om_keys m \<Longrightarrow> length (om_remove v m) < length m"
  by (auto simp: om_remove_def om_keys_def intro: length_filter_less)

function trim :: "nat \<times> nat \<Rightarrow> 'c scrollback \<Rightarrow> 'c scrollback" where
  "trim keep sb =
    (if length (sb_lines sb) > sb_capacity sb then
       (case trim_victim keep sb of
          None \<Rightarrow> sb
        | Some victim \<Rightarrow> trim keep (sb\<lparr>sb_lines := om_remove victim (sb_lines sb),
                                      sb_prompts := om_remove victim (sb_prompts sb)\<rparr>))
     else sb)"
  by pat_completeness auto
termination
  by (relation "measure (\<lambda>(keep, sb). length (sb_lines sb))") (auto intro: remove_shorter trim_victim_key)

declare trim.simps [simp del]

definition set_extent :: "nat \<Rightarrow> nat \<Rightarrow> 'c scrollback \<Rightarrow> 'c scrollback" where
  "set_extent oldest lines_total sb =
    (let sb = sb\<lparr>sb_total := lines_total\<rparr>;
         sb = (if oldest > sb_oldest sb
               then sb\<lparr>sb_oldest := oldest,
                       sb_lines := dropWhile (\<lambda>e. fst e < oldest) (sb_lines sb),
                       sb_prompts := dropWhile (\<lambda>e. fst e < oldest) (sb_prompts sb)\<rparr>
               else sb\<lparr>sb_oldest := oldest\<rparr>)
     in trim NOTHING sb)"

definition put_line :: "nat \<Rightarrow> 'c line \<Rightarrow> 'c scrollback \<Rightarrow> 'c scrollback" where
  "put_line i line sb =
    (if i < sb_oldest sb then sb
     else sb\<lparr>sb_prompts := (if starts_prompt (ln_mark line) then om_insert i () (sb_prompts sb)
                            else om_remove i (sb_prompts sb)),
             sb_lines := om_insert i line (sb_lines sb),
             sb_total := max (sb_total sb) (sat_add 64 i 1)\<rparr>)"

definition insert_shared :: "nat \<Rightarrow> 'c line \<Rightarrow> 'c scrollback \<Rightarrow> 'c scrollback" where
  "insert_shared i line sb = trim NOTHING (put_line i line sb)"

fun put_batch :: "nat \<Rightarrow> 'c line list \<Rightarrow> 'c scrollback \<Rightarrow> nat \<times> 'c scrollback" where
  "put_batch i [] sb = (i, sb)"
| "put_batch i (line # lines) sb = put_batch (index_next i) lines (put_line i line sb)"

definition insert_batch :: "nat \<Rightarrow> 'c line list \<Rightarrow> 'c scrollback \<Rightarrow> 'c scrollback" where
  "insert_batch start lines sb = (case put_batch start lines sb of (i, sb) \<Rightarrow> trim (start, i) sb)"

definition prompt_before :: "nat \<Rightarrow> 'c scrollback \<Rightarrow> nat option" where
  "prompt_before i sb = last_below i (sb_prompts sb)"

text \<open>Strictly below on the screen is after in the stream: the first index past this one.\<close>

definition prompt_after :: "nat \<Rightarrow> 'c scrollback \<Rightarrow> nat option" where
  "prompt_after i sb = map_option fst (find (\<lambda>e. i < fst e) (sb_prompts sb))"

definition scrollback_get :: "nat \<Rightarrow> 'c scrollback \<Rightarrow> 'c line option" where
  "scrollback_get i sb = om_get (sb_lines sb) i"

text \<open>The loop of \<open>missing\<close>: the cursor, and where the open gap starts.\<close>

function missing_loop :: "(nat \<Rightarrow> bool) \<Rightarrow> nat \<Rightarrow> nat \<Rightarrow> nat option \<Rightarrow> (nat \<times> nat) list" where
  "missing_loop cached stop cursor gap_start =
    (if cursor < stop then
       (case (cached cursor, gap_start) of
          (False, None) \<Rightarrow> missing_loop cached stop (Suc cursor) (Some cursor)
        | (True, Some gs) \<Rightarrow> (gs, cursor - gs) # missing_loop cached stop (Suc cursor) None
        | _ \<Rightarrow> missing_loop cached stop (Suc cursor) gap_start)
     else (case gap_start of Some gs \<Rightarrow> [(gs, stop - gs)] | None \<Rightarrow> []))"
  by pat_completeness auto
termination
  by (relation "measure (\<lambda>(cached, stop, cursor, gap_start). stop - cursor)") auto

declare missing_loop.simps [simp del]

definition missing :: "nat \<Rightarrow> nat \<Rightarrow> 'c scrollback \<Rightarrow> (nat \<times> nat) list" where
  "missing start count sb =
     missing_loop (om_has (sb_lines sb)) (min (index_offset start count) (sb_total sb))
       (max start (sb_oldest sb)) None"

section \<open>What is missing\<close>

lemma missing_loop_steps [simp]:
  "stop \<le> cursor \<Longrightarrow> missing_loop cached stop cursor g = (case g of Some gs \<Rightarrow> [(gs, stop - gs)] | None \<Rightarrow> [])"
  "cursor < stop \<Longrightarrow> \<not> cached cursor \<Longrightarrow>
     missing_loop cached stop cursor None = missing_loop cached stop (Suc cursor) (Some cursor)"
  "cursor < stop \<Longrightarrow> cached cursor \<Longrightarrow>
     missing_loop cached stop cursor None = missing_loop cached stop (Suc cursor) None"
  "cursor < stop \<Longrightarrow> \<not> cached cursor \<Longrightarrow>
     missing_loop cached stop cursor (Some gs) = missing_loop cached stop (Suc cursor) (Some gs)"
  "cursor < stop \<Longrightarrow> cached cursor \<Longrightarrow>
     missing_loop cached stop cursor (Some gs) = (gs, cursor - gs) # missing_loop cached stop (Suc cursor) None"
  by (simp_all add: missing_loop.simps [of cached stop cursor])

text \<open>The indices a list of gaps covers, in order.\<close>

definition gap_indices :: "(nat \<times> nat) list \<Rightarrow> nat list" where
  "gap_indices gaps = concat (map (\<lambda>(s, n). [s..<s + n]) gaps)"

lemma missing_loop_indices:
  assumes "case gap_start of None \<Rightarrow> True | Some gs \<Rightarrow> gs < cursor" and "cursor \<le> stop"
  shows "gap_indices (missing_loop cached stop cursor gap_start) =
    (case gap_start of None \<Rightarrow> [] | Some gs \<Rightarrow> [gs..<cursor]) @ filter (\<lambda>i. \<not> cached i) [cursor..<stop]"
  using assms
proof (induction cached stop cursor gap_start rule: missing_loop.induct)
  case (1 cached stop cursor gap_start)
  show ?case
  proof (cases "cursor < stop")
    case False
    then show ?thesis using "1.prems"
      by (simp add: gap_indices_def split: option.splits)
  next
    case True
    then have split: "[cursor..<stop] = cursor # [Suc cursor..<stop]" by (simp add: upt_conv_Cons)
    show ?thesis
    proof (cases gap_start)
      case None
      then show ?thesis using "1.IH" True "1.prems" split
        by (cases "cached cursor") simp_all
    next
      case (Some gs)
      then have "[gs..<Suc cursor] = [gs..<cursor] @ [cursor]" using "1.prems" by simp
      then show ?thesis using "1.IH" True "1.prems" split Some
        by (cases "cached cursor") (auto simp: gap_indices_def)
    qed
  qed
qed

text \<open>Gaps are never empty, and cached lines lie between any two.\<close>

fun gaps_apart :: "nat \<Rightarrow> (nat \<times> nat) list \<Rightarrow> bool" where
  "gaps_apart k [] = True"
| "gaps_apart k ((s, n) # gaps) = (k \<le> s \<and> 0 < n \<and> gaps_apart (Suc (s + n)) gaps)"

lemma gaps_apart_mono: "gaps_apart k gaps \<Longrightarrow> j \<le> k \<Longrightarrow> gaps_apart j gaps"
  by (cases gaps) auto

lemma missing_loop_apart:
  assumes "case gap_start of None \<Rightarrow> True | Some gs \<Rightarrow> gs < cursor" and "cursor \<le> stop"
  shows "gaps_apart (case gap_start of None \<Rightarrow> cursor | Some gs \<Rightarrow> gs) (missing_loop cached stop cursor gap_start)"
  using assms
proof (induction cached stop cursor gap_start rule: missing_loop.induct)
  case (1 cached stop cursor gap_start)
  show ?case
  proof (cases "cursor < stop")
    case False
    then show ?thesis using "1.prems" by (simp split: option.splits)
  next
    case True
    show ?thesis
    proof (cases gap_start)
      case None
      then show ?thesis using "1.IH" True gaps_apart_mono [of "Suc cursor" _ cursor]
        by (cases "cached cursor") simp_all
    next
      case (Some gs)
      then show ?thesis using "1.IH" True "1.prems" by (cases "cached cursor") simp_all
    qed
  qed
qed

text \<open>
  C23. A scroll asks for exactly what is missing: the gaps of a range are, in order, precisely its lines that
  the worker still has and the cache does not, no gap is empty, and any two gaps have a cached line
  between them, so no request could be merged.
\<close>

theorem missing_is_exact:
  "gap_indices (missing start count sb) =
     filter (\<lambda>i. scrollback_get i sb = None)
       [max start (sb_oldest sb)..<min (index_offset start count) (sb_total sb)] \<and>
   gaps_apart (max start (sb_oldest sb)) (missing start count sb)"
proof -
  let ?a = "max start (sb_oldest sb)" and ?b = "min (index_offset start count) (sb_total sb)"
  have has: "om_has (sb_lines sb) i \<longleftrightarrow> scrollback_get i sb \<noteq> None" for i
    by (simp add: om_has_get scrollback_get_def)
  show ?thesis
  proof (cases "?a \<le> ?b")
    case True
    then show ?thesis
      using missing_loop_indices [where gap_start = None and cursor = ?a and stop = ?b and cached = "om_has (sb_lines sb)"]
        missing_loop_apart [where gap_start = None and cursor = ?a and stop = ?b and cached = "om_has (sb_lines sb)"]
      by (simp add: missing_def has)
  next
    case False
    then have "?b \<le> ?a" by linarith
    then have "missing start count sb = []" by (simp only: missing_def missing_loop_steps(1) option.case)
    moreover have "[?a..<?b] = []" using \<open>?b \<le> ?a\<close> by (rule upt_conv_Nil)
    ultimately show ?thesis by (simp only: gap_indices_def list.map concat.simps filter.simps gaps_apart.simps)
  qed
qed

section \<open>Eviction\<close>

lemma first_from_least:
  assumes "om_ok m"
  shows "first_from k m = Some i \<Longrightarrow> \<forall>j \<in> om_keys m. k \<le> j \<longrightarrow> i \<le> j"
    and "first_from k m = None \<longleftrightarrow> (\<forall>j \<in> om_keys m. j < k)"
proof -
  show "first_from k m = Some i \<Longrightarrow> \<forall>j \<in> om_keys m. k \<le> j \<longrightarrow> i \<le> j"
    using assms by (induction m) (auto simp: first_from_def om_ok_def om_keys_def split: if_splits)
  show "first_from k m = None \<longleftrightarrow> (\<forall>j \<in> om_keys m. j < k)"
    by (auto simp: first_from_def find_None_iff om_keys_def)
qed

lemma last_below_greatest:
  assumes "om_ok m"
  shows "last_below k m = Some i \<Longrightarrow> \<forall>j \<in> om_keys m. j < k \<longrightarrow> j \<le> i"
    and "last_below k m = None \<longleftrightarrow> (\<forall>j \<in> om_keys m. k \<le> j)"
proof -
  have "sorted_wrt (>) (map fst (rev m))"
    using assms by (simp add: om_ok_def rev_map [symmetric] sorted_wrt_rev)
  moreover have "\<forall>j \<in> fst ` set xs. j < k \<longrightarrow> j \<le> fst e"
    if "sorted_wrt (>) (map fst xs)" "find (\<lambda>e. fst e < k) xs = Some e" for xs :: "(nat \<times> 'a) list" and e
    using that by (induction xs) (auto split: if_splits)
  ultimately show "last_below k m = Some i \<Longrightarrow> \<forall>j \<in> om_keys m. j < k \<longrightarrow> j \<le> i"
    by (fastforce simp: last_below_def om_keys_def)
  show "last_below k m = None \<longleftrightarrow> (\<forall>j \<in> om_keys m. k \<le> j)"
    by (auto simp: last_below_def find_None_iff om_keys_def)
qed

text \<open>The lines that may go: above the screen, and not among those just fetched.\<close>

definition evictable :: "nat \<times> nat \<Rightarrow> 'c scrollback \<Rightarrow> nat set" where
  "evictable keep sb = {i \<in> om_keys (sb_lines sb). i < sb_screen sb \<and> \<not> in_range keep i}"

lemma trim_low_least:
  assumes ok: "om_ok (sb_lines sb)"
  shows "case trim_low keep sb of
      Some i \<Rightarrow> i \<in> evictable keep sb \<and> (\<forall>j \<in> evictable keep sb. i \<le> j) | None \<Rightarrow> evictable keep sb = {}"
proof (cases "first_from 0 (sb_lines sb)")
  case None
  then show ?thesis using first_from_least(2) [OF ok] by (auto simp: trim_low_def evictable_def)
next
  case (Some l)
  have l: "l \<in> om_keys (sb_lines sb)" "\<And>j. j \<in> om_keys (sb_lines sb) \<Longrightarrow> l \<le> j"
    using first_from_Some [OF Some] first_from_least(1) [OF ok Some] by auto
  show ?thesis
  proof (cases "in_range keep l")
    case False
    then show ?thesis using l Some
      by (auto simp: trim_low_def evictable_def dest: l(2) order.strict_trans1)
  next
    case True
    have past: "snd keep \<le> j" if "j \<in> evictable keep sb" for j
      using that l(2) [of j] True by (auto simp: evictable_def in_range_def)
    show ?thesis
    proof (cases "first_from (snd keep) (sb_lines sb)")
      case None
      then have "evictable keep sb = {}"
        using first_from_least(2) [OF ok, of "snd keep"] past by (fastforce simp: evictable_def)
      then show ?thesis using None Some True by (simp add: trim_low_def)
    next
      case (Some i)
      have i: "i \<in> om_keys (sb_lines sb)" "snd keep \<le> i"
        and le: "\<And>j. j \<in> om_keys (sb_lines sb) \<Longrightarrow> snd keep \<le> j \<Longrightarrow> i \<le> j"
        using first_from_Some [OF Some] first_from_least(1) [OF ok Some] by auto
      have all: "i \<le> j" if "j \<in> evictable keep sb" for j
        using le [of j] past [OF that] that by (simp add: evictable_def)
      have "trim_low keep sb = (if i < sb_screen sb then Some i else None)"
        using Some True \<open>first_from 0 (sb_lines sb) = Some l\<close> by (simp add: trim_low_def)
      moreover have "i < sb_screen sb \<Longrightarrow> i \<in> evictable keep sb"
        using i by (simp add: evictable_def in_range_def)
      moreover have "\<not> i < sb_screen sb \<Longrightarrow> evictable keep sb = {}"
        using all by (fastforce simp: evictable_def)
      ultimately show ?thesis using all by simp
    qed
  qed
qed

lemma trim_high_greatest:
  assumes ok: "om_ok (sb_lines sb)"
  shows "case trim_high keep sb of
      Some i \<Rightarrow> i \<in> evictable keep sb \<and> (\<forall>j \<in> evictable keep sb. j \<le> i) | None \<Rightarrow> evictable keep sb = {}"
proof (cases "last_below (sb_screen sb) (sb_lines sb)")
  case None
  then have "\<forall>j \<in> om_keys (sb_lines sb). sb_screen sb \<le> j" using last_below_greatest(2) [OF ok] by blast
  then have "evictable keep sb = {}" by (auto simp: evictable_def)
  then show ?thesis using None by (simp add: trim_high_def)
next
  case (Some l)
  have l: "l \<in> om_keys (sb_lines sb)" "l < sb_screen sb"
      "\<And>j. j \<in> om_keys (sb_lines sb) \<Longrightarrow> j < sb_screen sb \<Longrightarrow> j \<le> l"
    using last_below_Some [OF Some] last_below_greatest(1) [OF ok Some] by auto
  show ?thesis
  proof (cases "in_range keep l")
    case False
    then show ?thesis using l Some by (auto simp: trim_high_def evictable_def)
  next
    case True
    have before: "j < fst keep" if "j \<in> evictable keep sb" for j
      using that l(3) [of j] True by (auto simp: evictable_def in_range_def)
    show ?thesis
    proof (cases "last_below (fst keep) (sb_lines sb)")
      case None
      then have "evictable keep sb = {}"
        using last_below_greatest(2) [OF ok, of "fst keep"] before by (fastforce simp: evictable_def)
      then show ?thesis using None Some True by (simp add: trim_high_def)
    next
      case (Some i)
      have i: "i \<in> om_keys (sb_lines sb)" "i < fst keep"
        and ge: "\<And>j. j \<in> om_keys (sb_lines sb) \<Longrightarrow> j < fst keep \<Longrightarrow> j \<le> i"
        using last_below_Some [OF Some] last_below_greatest(1) [OF ok Some] by auto
      have "j \<le> i" if "j \<in> evictable keep sb" for j
        using ge [of j] before [OF that] that by (simp add: evictable_def)
      moreover have "i \<in> evictable keep sb"
        using i True l(2) by (simp add: evictable_def in_range_def)
      ultimately show ?thesis
        using Some True \<open>last_below (sb_screen sb) (sb_lines sb) = Some l\<close> by (simp add: trim_high_def)
    qed
  qed
qed

lemma evict_farthest:
  assumes ok: "om_ok (sb_lines sb)"
  shows "case trim_victim keep sb of
      Some v \<Rightarrow> v \<in> evictable keep sb \<and> (\<forall>j \<in> evictable keep sb. sb_distance sb j \<le> sb_distance sb v)
    | None \<Rightarrow> evictable keep sb = {}"
proof -
  have far: "sb_distance sb j \<le> max (sb_distance sb low) (sb_distance sb high)" if "low \<le> j" "j \<le> high" for j low high
    using that by (auto simp: sb_distance_def abs_diff_def)
  show ?thesis
  proof (cases "trim_low keep sb")
    case None
    then have "evictable keep sb = {}" using trim_low_least [OF ok, of keep] by simp
    then show ?thesis using None trim_high_greatest [OF ok, of keep]
      by (cases "trim_high keep sb") (simp_all add: trim_victim_def)
  next
    case (Some low)
    have low: "low \<in> evictable keep sb" "\<And>j. j \<in> evictable keep sb \<Longrightarrow> low \<le> j"
      using trim_low_least [OF ok, of keep] Some by auto
    obtain high where high: "trim_high keep sb = Some high"
      using trim_high_greatest [OF ok, of keep] low(1) by (cases "trim_high keep sb") auto
    have hi: "high \<in> evictable keep sb" "\<And>j. j \<in> evictable keep sb \<Longrightarrow> j \<le> high"
      using trim_high_greatest [OF ok, of keep] high by auto
    have "sb_distance sb j \<le> max (sb_distance sb low) (sb_distance sb high)" if "j \<in> evictable keep sb" for j
      by (rule far [OF low(2) [OF that] hi(2) [OF that]])
    then show ?thesis using low(1) hi(1) by (auto simp: trim_victim_def Some high max_def)
  qed
qed


text \<open>One round takes the victim out of both maps.\<close>

definition sb_evict :: "nat \<Rightarrow> 'c scrollback \<Rightarrow> 'c scrollback" where
  "sb_evict victim sb = sb\<lparr>sb_lines := om_remove victim (sb_lines sb), sb_prompts := om_remove victim (sb_prompts sb)\<rparr>"

lemma sb_evict_sel [simp]:
  "sb_lines (sb_evict v sb) = om_remove v (sb_lines sb)" "sb_prompts (sb_evict v sb) = om_remove v (sb_prompts sb)"
  "sb_capacity (sb_evict v sb) = sb_capacity sb" "sb_screen (sb_evict v sb) = sb_screen sb"
  "sb_focus (sb_evict v sb) = sb_focus sb" "sb_oldest (sb_evict v sb) = sb_oldest sb" "sb_total (sb_evict v sb) = sb_total sb"
  by (simp_all add: sb_evict_def)

lemma trim_rounds:
  "length (sb_lines sb) \<le> sb_capacity sb \<Longrightarrow> trim keep sb = sb"
  "trim_victim keep sb = None \<Longrightarrow> trim keep sb = sb"
  "sb_capacity sb < length (sb_lines sb) \<Longrightarrow> trim_victim keep sb = Some v \<Longrightarrow> trim keep sb = trim keep (sb_evict v sb)"
  by (simp_all add: trim.simps [of keep sb] sb_evict_def)

lemma trim_induct [case_names fits stuck evicted]:
  assumes "\<And>sb. length (sb_lines sb) \<le> sb_capacity sb \<Longrightarrow> P sb"
    and "\<And>sb. trim_victim keep sb = None \<Longrightarrow> sb_capacity sb < length (sb_lines sb) \<Longrightarrow> P sb"
    and "\<And>sb v. sb_capacity sb < length (sb_lines sb) \<Longrightarrow> trim_victim keep sb = Some v \<Longrightarrow> P (sb_evict v sb) \<Longrightarrow> P sb"
  shows "P sb"
proof (induction "length (sb_lines sb)" arbitrary: sb rule: less_induct)
  case less
  show ?case
  proof (cases "length (sb_lines sb) \<le> sb_capacity sb")
    case True
    then show ?thesis by (rule assms(1))
  next
    case False
    show ?thesis
    proof (cases "trim_victim keep sb")
      case None
      then show ?thesis using False by (intro assms(2)) simp_all
    next
      case (Some v)
      then have "length (sb_lines (sb_evict v sb)) < length (sb_lines sb)"
        by (simp add: remove_shorter trim_victim_key)
      then show ?thesis using less [of "sb_evict v sb"] False Some by (intro assms(3) [of sb v]) simp_all
    qed
  qed
qed

lemma remove_one: "om_ok m \<Longrightarrow> k \<in> om_keys m \<Longrightarrow> length m = Suc (length (om_remove k m))"
proof -
  assume ok: "om_ok m" and k: "k \<in> om_keys m"
  have "card (om_keys m) = Suc (card (om_keys m - {k}))"
    using k by (intro card.remove) (simp_all add: om_keys_def)
  then show ?thesis
    using om.length_entries [OF ok] om.length_entries [OF om.ok_remove [OF ok], of k] by (simp add: om.keys_remove)
qed

lemma evictable_evict: "evictable keep (sb_evict v sb) = evictable keep sb - {v}"
  by (auto simp: evictable_def om.keys_remove)

lemma trim_sel [simp]:
  "sb_capacity (trim keep sb) = sb_capacity sb" "sb_screen (trim keep sb) = sb_screen sb"
  "sb_focus (trim keep sb) = sb_focus sb" "sb_oldest (trim keep sb) = sb_oldest sb"
  "sb_total (trim keep sb) = sb_total sb"
  by (induction sb rule: trim_induct [where keep = keep]) (simp_all add: trim_rounds)

text \<open>What the lines of a trimmed cache are, and how many: the rounds stop at the capacity.\<close>

lemma trim_keys:
  assumes "om_ok (sb_lines sb)"
  shows "om_keys (sb_lines (trim keep sb)) \<union> evictable keep sb = om_keys (sb_lines sb)
       \<and> om_keys (sb_lines (trim keep sb)) \<subseteq> om_keys (sb_lines sb)"
  using assms
proof (induction sb rule: trim_induct [where keep = keep])
  case (evicted sb v)
  have v: "v \<in> evictable keep sb" using evict_farthest [OF evicted.prems, of keep] evicted.hyps(2) by simp
  then have "v \<in> om_keys (sb_lines sb)" by (simp add: evictable_def)
  then show ?case using evicted v by (auto simp: trim_rounds(3) om_oks evictable_evict om.keys_remove)
qed (auto simp: trim_rounds evictable_def)

lemma trim_get:
  assumes "om_ok (sb_lines sb)" and "i \<in> om_keys (sb_lines (trim keep sb))"
  shows "scrollback_get i (trim keep sb) = scrollback_get i sb"
  using assms
proof (induction sb rule: trim_induct [where keep = keep])
  case (evicted sb v)
  have "i \<in> om_keys (sb_lines (sb_evict v sb))"
    using evicted.prems trim_keys [of "sb_evict v sb" keep] by (auto simp: trim_rounds(3) [OF evicted.hyps] om_oks)
  then show ?case using evicted
    by (simp add: trim_rounds(3) om_oks om.keys_remove om.get_remove scrollback_get_def)
qed (auto simp: trim_rounds)

lemma trim_size:
  assumes "om_ok (sb_lines sb)"
  shows "(length (sb_lines sb) \<le> sb_capacity sb \<longrightarrow> trim keep sb = sb) \<and>
    (sb_capacity sb < length (sb_lines sb) \<longrightarrow> sb_capacity sb \<le> length (sb_lines (trim keep sb)) \<and>
       (sb_capacity sb < length (sb_lines (trim keep sb)) \<longrightarrow> evictable keep (trim keep sb) = {}))"
  using assms
proof (induction sb rule: trim_induct [where keep = keep])
  case (stuck sb)
  then show ?case using evict_farthest [OF stuck.prems, of keep] by (simp add: trim_rounds(2))
next
  case (evicted sb v)
  have "length (sb_lines sb) = Suc (length (sb_lines (sb_evict v sb)))"
    using remove_one [OF evicted.prems trim_victim_key [OF evicted.hyps(2)]] by simp
  then show ?case using evicted by (auto simp: trim_rounds(3) om_oks)
qed (simp add: trim_rounds)

lemma trim_farthest:
  assumes "om_ok (sb_lines sb)" and "i \<in> om_keys (sb_lines sb) - om_keys (sb_lines (trim keep sb))"
    and "j \<in> evictable keep (trim keep sb)"
  shows "sb_distance sb j \<le> sb_distance sb i"
  using assms
proof (induction sb rule: trim_induct [where keep = keep])
  case (evicted sb v)
  note [simp] = trim_rounds(3) [OF evicted.hyps(1,2)]
  have ok: "om_ok (sb_lines (sb_evict v sb))" using evicted.prems(1) by (simp add: om_oks)
  have same: "sb_distance (sb_evict v sb) = sb_distance sb" by (simp add: fun_eq_iff sb_distance_def)
  have "j \<in> evictable keep sb"
    using evicted.prems(3) trim_keys [OF ok, of keep] by (auto simp: evictable_def om.keys_remove)
  then have "sb_distance sb j \<le> sb_distance sb v"
    using evict_farthest [OF evicted.prems(1), of keep] evicted.hyps(2) by simp
  moreover have "i \<noteq> v \<Longrightarrow> sb_distance sb j \<le> sb_distance sb i"
    using evicted.IH ok evicted.prems(2,3) by (simp add: same om.keys_remove)
  ultimately show ?case by blast
qed (auto simp: trim_rounds)

section \<open>Every cache the client holds\<close>

inductive sb_reach :: "'c scrollback \<Rightarrow> bool" where
  fresh: "sb_reach (scrollback_new capacity)"
| viewed: "sb_reach sb \<Longrightarrow> sb_reach (set_view view_top screen sb)"
| extent: "sb_reach sb \<Longrightarrow> sb_reach (set_extent oldest lines_total sb)"
| inserted: "sb_reach sb \<Longrightarrow> sb_reach (insert_shared i line sb)"
| batch: "sb_reach sb \<Longrightarrow> sb_reach (insert_batch start lines sb)"

text \<open>The index of prompts is exactly the cached lines that start one.\<close>

definition prompt_at :: "'c scrollback \<Rightarrow> nat \<Rightarrow> bool" where
  "prompt_at sb i = (case scrollback_get i sb of Some l \<Rightarrow> starts_prompt (ln_mark l) | None \<Rightarrow> False)"

definition sb_ok :: "'c scrollback \<Rightarrow> bool" where
  "sb_ok sb \<longleftrightarrow> om_ok (sb_lines sb) \<and> om_ok (sb_prompts sb) \<and> (\<forall>i. i \<in> om_keys (sb_prompts sb) \<longleftrightarrow> prompt_at sb i) \<and>
     (\<forall>i \<in> om_keys (sb_lines sb). sb_oldest sb \<le> i)"

lemma sb_evict_ok: "sb_ok sb \<Longrightarrow> sb_ok (sb_evict v sb)"
  by (auto simp: sb_ok_def prompt_at_def scrollback_get_def om_oks om_simps)

lemma trim_ok: "sb_ok sb \<Longrightarrow> sb_ok (trim keep sb)"
  by (induction sb rule: trim_induct [where keep = keep]) (simp_all add: trim_rounds sb_evict_ok)

lemma put_line_ok: "sb_ok sb \<Longrightarrow> sb_ok (put_line i line sb)"
  by (auto simp: sb_ok_def prompt_at_def put_line_def scrollback_get_def om_oks om_simps)

lemma put_batch_ok: "sb_ok sb \<Longrightarrow> sb_ok (snd (put_batch i lines sb))"
  by (induction i lines sb rule: put_batch.induct) (simp_all add: put_line_ok)

text \<open>Popping the front while it is too old is keeping what is not.\<close>

lemma pop_front: "om_ok m \<Longrightarrow> dropWhile (\<lambda>e. fst e < k) m = om_retain (\<lambda>i. k \<le> i) m"
proof (induction m)
  case (Cons e m)
  have "om_retain (\<lambda>i. k \<le> i) m = m" if "k \<le> fst e"
    using Cons.prems that by (auto simp: om_retain_def om_ok_def filter_id_conv)
  then show ?case using Cons by (auto simp: om_ok_def om_retain_def)
qed (simp add: om_retain_def)

lemma set_extent_ok: "sb_ok sb \<Longrightarrow> sb_ok (set_extent oldest lines_total sb)"
  unfolding set_extent_def Let_def
  by (rule trim_ok) (auto simp: sb_ok_def prompt_at_def scrollback_get_def pop_front om_oks om_simps
      split: option.splits if_splits)

lemma scrollback_new_ok: "sb_ok (scrollback_new capacity)"
  by (simp add: scrollback_new_def sb_ok_def prompt_at_def scrollback_get_def)

lemma set_view_ok: "sb_ok sb \<Longrightarrow> sb_ok (set_view view_top screen sb)"
  by (simp add: set_view_def sb_ok_def prompt_at_def scrollback_get_def)

lemma insert_batch_ok: "sb_ok sb \<Longrightarrow> sb_ok (insert_batch start lines sb)"
  using put_batch_ok [of sb start lines] by (auto simp: insert_batch_def intro: trim_ok split: prod.splits)

lemma reach_ok: "sb_reach sb \<Longrightarrow> sb_ok sb"
  by (induction rule: sb_reach.induct)
    (simp_all add: scrollback_new_ok set_view_ok set_extent_ok insert_shared_def trim_ok put_line_ok insert_batch_ok)

lemma reach_order: "sb_reach sb \<Longrightarrow> om_ok (sb_lines sb) \<and> om_ok (sb_prompts sb)"
  using reach_ok [of sb] by (simp add: sb_ok_def)

text \<open>The first index past one is the first from its successor on.\<close>

lemma prompt_after_first: "prompt_after i sb = first_from (Suc i) (sb_prompts sb)"
  by (simp add: prompt_after_def first_from_def Suc_le_eq)

lemma put_batch_end: "fst (put_batch start lines sb) = min (start + length lines) (umax 64)"
  if "start \<le> umax 64"
  using that by (induction start lines sb rule: put_batch.induct) (auto simp: index_next_def sat_add_def)

lemma put_line_get:
  "scrollback_get j (put_line i line sb) = (if j = i \<and> sb_oldest sb \<le> i then Some line else scrollback_get j sb)"
  by (simp add: put_line_def scrollback_get_def om.get_insert)

lemma put_line_sel [simp]:
  "sb_capacity (put_line i line sb) = sb_capacity sb" "sb_screen (put_line i line sb) = sb_screen sb"
  "sb_focus (put_line i line sb) = sb_focus sb" "sb_oldest (put_line i line sb) = sb_oldest sb"
  by (simp_all add: put_line_def)

lemma put_batch_sel [simp]:
  "sb_capacity (snd (put_batch i lines sb)) = sb_capacity sb" "sb_screen (snd (put_batch i lines sb)) = sb_screen sb"
  "sb_focus (snd (put_batch i lines sb)) = sb_focus sb" "sb_oldest (snd (put_batch i lines sb)) = sb_oldest sb"
  by (induction i lines sb rule: put_batch.induct) simp_all

lemma put_batch_get:
  assumes "start + length lines \<le> umax 64"
  shows "scrollback_get j (snd (put_batch start lines sb)) =
    (if start \<le> j \<and> j < start + length lines \<and> sb_oldest sb \<le> j then Some (lines ! (j - start)) else scrollback_get j sb)"
  using assms
proof (induction start lines sb rule: put_batch.induct)
  case (2 i line lines sb)
  have "index_next i = Suc i" using "2.prems" by (simp add: index_next_def sat_add_def)
  then show ?case using 2 by (cases "j = i") (auto simp: put_line_get nth_Cons' Suc_diff_le)
qed auto

lemma cached_key: "i \<in> om_keys (sb_lines sb) \<longleftrightarrow> scrollback_get i sb \<noteq> None"
  by (simp add: om.keys_get scrollback_get_def)

lemma insert_batch_trim:
  "start + length lines \<le> umax 64 \<Longrightarrow>
     insert_batch start lines sb = trim (start, start + length lines) (snd (put_batch start lines sb))"
  using put_batch_end [of start lines sb] by (cases "put_batch start lines sb") (simp add: insert_batch_def)

lemma trim_lookup:
  assumes "om_ok (sb_lines sb)"
  shows "scrollback_get i (trim keep sb) = scrollback_get i sb \<or>
     scrollback_get i (trim keep sb) = None \<and> i < sb_screen sb \<and> \<not> in_range keep i"
proof (cases "i \<in> om_keys (sb_lines (trim keep sb))")
  case True
  then show ?thesis using trim_get [OF assms] by simp
next
  case False
  then have "i \<notin> om_keys (sb_lines sb) \<or> i \<in> evictable keep sb" using trim_keys [OF assms, of keep] by auto
  then show ?thesis using False by (auto simp: cached_key evictable_def)
qed

text \<open>
  C7. Past its capacity the cache gives up the lines farthest from the view, and only those it may:
  a fetched batch is there whole when it is in (but for lines the worker has dropped); of the other lines
  each is as it was or is gone, and gone only from above the screen; no line given up was nearer the view than a line
  that could have gone and stayed; a line is given up only while more than the capacity are held; and
  the cache ends within its capacity unless nothing more may go.
\<close>

theorem batch_evicts_the_farthest:
  assumes "sb_reach sb" and fits: "start + length lines \<le> umax 64"
  shows "let new = insert_batch start lines sb; keep = (start, start + length lines);
             gone = {i. scrollback_get i new = None \<and> scrollback_get i sb \<noteq> None} in
      (\<forall>k < length lines. sb_oldest sb \<le> start + k \<longrightarrow> scrollback_get (start + k) new = Some (lines ! k))
    \<and> (\<forall>i. \<not> in_range keep i \<longrightarrow> scrollback_get i new = scrollback_get i sb \<or>
          scrollback_get i new = None \<and> i < sb_screen sb)
    \<and> (\<forall>i \<in> gone. \<forall>j \<in> evictable keep new. sb_distance sb j \<le> sb_distance sb i)
    \<and> (gone \<noteq> {} \<longrightarrow> sb_capacity sb \<le> length (sb_lines new))
    \<and> (length (sb_lines new) \<le> sb_capacity sb \<or> evictable keep new = {})"
proof -
  define put where "put = snd (put_batch start lines sb)"
  define keep where "keep = (start, start + length lines)"
  define new where "new = insert_batch start lines sb"
  define gone where "gone = {i. scrollback_get i new = None \<and> scrollback_get i sb \<noteq> None}"
  note new = insert_batch_trim [OF fits, of sb, folded put_def keep_def new_def]
  note put = put_batch_get [OF fits, of _ sb, folded put_def]
  have ok: "om_ok (sb_lines put)"
    using put_batch_ok [OF reach_ok [OF assms(1)], of start lines] by (simp add: put_def sb_ok_def)
  have dist: "sb_distance put = sb_distance sb" by (simp add: fun_eq_iff sb_distance_def put_def)
  have screen: "sb_screen put = sb_screen sb" "sb_capacity put = sb_capacity sb" by (simp_all add: put_def)
  note lookup = trim_lookup [OF ok, of _ keep, folded new, unfolded screen]
  have gone: "i \<in> om_keys (sb_lines put) - om_keys (sb_lines new)" if "i \<in> gone" for i
    using that by (auto simp: gone_def cached_key put)
  have "scrollback_get (start + k) new = Some (lines ! k)" if "k < length lines" "sb_oldest sb \<le> start + k" for k
    using lookup [of "start + k"] that by (simp add: keep_def in_range_def put)
  moreover have "scrollback_get i new = scrollback_get i sb \<or> scrollback_get i new = None \<and> i < sb_screen sb"
    if "\<not> in_range keep i" for i
    using lookup [of i] that by (auto simp: keep_def in_range_def put)
  moreover have "sb_distance sb j \<le> sb_distance sb i" if "i \<in> gone" "j \<in> evictable keep new" for i j
    using trim_farthest [OF ok, of i keep j, folded new, unfolded dist] gone that by simp
  moreover have "sb_capacity sb \<le> length (sb_lines new)" if "gone \<noteq> {}"
    using trim_size [OF ok, of keep, folded new, unfolded screen] gone that by fastforce
  moreover have "length (sb_lines new) \<le> sb_capacity sb \<or> evictable keep new = {}"
    using trim_size [OF ok, of keep, folded new, unfolded screen] by fastforce
  ultimately show ?thesis unfolding Let_def new_def [symmetric] keep_def [symmetric] gone_def [symmetric] by blast
qed

text \<open>The two range queries, on any map in order.\<close>

lemma last_below_iff:
  assumes ok: "om_ok m"
  shows "last_below k m = Some p \<longleftrightarrow> p \<in> om_keys m \<and> p < k \<and> (\<forall>q \<in> om_keys m. q < k \<longrightarrow> q \<le> p)"
proof (cases "last_below k m")
  case None
  then show ?thesis using last_below_greatest(2) [OF ok, of k] by auto
next
  case (Some r)
  then have "r \<in> om_keys m" "r < k" "\<And>q. q \<in> om_keys m \<Longrightarrow> q < k \<Longrightarrow> q \<le> r"
    using last_below_Some last_below_greatest(1) [OF ok] by blast+
  then show ?thesis using Some by (auto intro: antisym)
qed

lemma first_from_iff:
  assumes ok: "om_ok m"
  shows "first_from k m = Some p \<longleftrightarrow> p \<in> om_keys m \<and> k \<le> p \<and> (\<forall>q \<in> om_keys m. k \<le> q \<longrightarrow> p \<le> q)"
proof (cases "first_from k m")
  case None
  then show ?thesis using first_from_least(2) [OF ok, of k] by auto
next
  case (Some r)
  then have "r \<in> om_keys m" "k \<le> r" "\<And>q. q \<in> om_keys m \<Longrightarrow> k \<le> q \<Longrightarrow> r \<le> q"
    using first_from_Some first_from_least(1) [OF ok] by blast+
  then show ?thesis using Some by (auto intro: antisym)
qed

text \<open>
  C24. A block's prompt is found without a walk: in every cache the client can hold, whatever was
  replaced, evicted or dropped by the worker, the two range queries on the index return the nearest
  cached line above, and below, whose mark starts a prompt, and nothing when there is none.
\<close>

theorem prompts_are_found:
  assumes "sb_reach sb"
  shows "(prompt_before i sb = Some p \<longleftrightarrow>
            prompt_at sb p \<and> p < i \<and> (\<forall>q. prompt_at sb q \<longrightarrow> q < i \<longrightarrow> q \<le> p))
       \<and> (prompt_after i sb = Some p \<longleftrightarrow>
            prompt_at sb p \<and> i < p \<and> (\<forall>q. prompt_at sb q \<longrightarrow> i < q \<longrightarrow> p \<le> q))
       \<and> (prompt_before i sb = None \<longleftrightarrow> (\<forall>q. prompt_at sb q \<longrightarrow> i \<le> q))
       \<and> (prompt_after i sb = None \<longleftrightarrow> (\<forall>q. prompt_at sb q \<longrightarrow> q \<le> i))"
proof -
  have ok: "om_ok (sb_prompts sb)" using reach_order [OF assms] by simp
  have keys: "prompt_at sb q \<longleftrightarrow> q \<in> om_keys (sb_prompts sb)" for q
    using reach_ok [OF assms] by (simp add: sb_ok_def)
  show ?thesis
    unfolding keys prompt_before_def prompt_after_first last_below_iff [OF ok] first_from_iff [OF ok]
      last_below_greatest(2) [OF ok] first_from_least(2) [OF ok] Suc_le_eq Ball_def less_Suc_eq_le
    by (intro conjI refl)
qed

section \<open>Witnesses\<close>

text \<open>The client scrolled up: a line at the view, a row of the screen, and a prompt fetched far away.\<close>

definition demo_line :: "semantic_mark \<Rightarrow> unit line" where
  "demo_line m = \<lparr>ln_cells = [], ln_flags = 0, ln_mark = m, ln_links = []\<rparr>"

definition demo_view :: "unit scrollback" where
  "demo_view = insert_shared 96 (demo_line Output) (insert_shared 10 (demo_line Output)
     (set_view 10 96 (set_extent 0 100 (scrollback_new 2))))"

lemma demo_reach: "sb_reach demo_view"
  by (simp add: demo_view_def sb_reach.intros)

lemmas demo_simps = insert_batch_def insert_shared_def set_view_def set_extent_def scrollback_new_def
  put_line_def index_next_def sat_add_def umax_def om_insert_def om_has_def om_remove_def trim_rounds(1)

lemma demo_view_state: "demo_view =
  \<lparr>sb_lines = [(10, demo_line Output), (96, demo_line Output)],
   sb_prompts = [], sb_capacity = 2, sb_total = 100, sb_oldest = 0, sb_focus = 10, sb_screen = 96\<rparr>"
  by (simp add: demo_view_def demo_simps demo_line_def)

theorem batch_evicts_the_farthest_witness:
  "scrollback_get 50 (insert_batch 50 [demo_line (Prompt None None)] demo_view) = Some (demo_line (Prompt None None)) \<and>
   scrollback_get 96 (insert_batch 50 [demo_line (Prompt None None)] demo_view) = Some (demo_line Output)"
proof -
  have fits: "50 + length [demo_line (Prompt None None)] \<le> umax 64" by (simp add: umax_def)
  note facts = batch_evicts_the_farthest [OF demo_reach fits, unfolded Let_def]
  have "scrollback_get 96 demo_view = Some (demo_line Output)" "sb_screen demo_view = 96" "sb_oldest demo_view = 0"
    by (simp_all add: demo_view_state scrollback_get_def om_get_def)
  then show ?thesis
    using conjunct1 [OF facts] conjunct1 [OF conjunct2 [OF facts], THEN spec [of _ 96]] by (simp add: in_range_def)
qed

definition demo_prompt :: "unit scrollback" where
  "demo_prompt = insert_shared 7 (demo_line (Prompt None (Some 2))) (scrollback_new 2)"

theorem prompts_are_found_witness: "prompt_before 9 demo_prompt = Some 7 \<and> prompt_at demo_prompt 7"
proof -
  have "sb_prompts demo_prompt = [(7, ())]"
    by (simp add: demo_prompt_def demo_simps demo_line_def)
  then have "prompt_before 9 demo_prompt = Some 7" by (simp add: prompt_before_def last_below_def)
  moreover have "sb_reach demo_prompt" by (simp add: demo_prompt_def sb_reach.intros)
  ultimately show ?thesis using prompts_are_found [of demo_prompt 9 7] by blast
qed

end
