(* ===== verification/Presenter.thy ===== *)
theory Presenter
  imports Prelude
begin

text \<open>
  When a decoded frame reaches the screen (\<open>slopty-client/src/pacing.rs\<close>): the pacer, its counters and
  rings, the widening of the wire's capture timestamps, and the percentiles every readout uses; and the
  conversion of a capture timestamp to the client's clock (\<open>ClockAnchor\<close> of
  \<open>slopty-media/src/clock.rs\<close>).

  The pacer reads a clock it is given: each reading is an argument of the operation, in the order in
  which the code takes them.
\<close>

section \<open>Capture times\<close>

text \<open>\<open>cast_signed\<close> of a \<open>u32\<close>, and \<open>unsigned_abs\<close> of the result.\<close>

definition cast_signed32 :: "nat \<Rightarrow> int" where
  "cast_signed32 x = (if x < 2 ^ 31 then int x else int x - 2 ^ 32)"

record clock_anchor =
  an_at :: instant
  an_host_us :: nat

definition anchor_captured :: "clock_anchor \<Rightarrow> nat \<Rightarrow> instant option" where
  "anchor_captured a pts_us =
    (let pts = pts_us mod 2 ^ 32; anchor = an_host_us a mod 2 ^ 32;
         ahead = cast_signed32 (wrap_sub 32 pts anchor);
         by_dur = from_micros (nat \<bar>ahead\<bar>)
     in if ahead \<ge> 0 then inst_add (an_at a) by_dur else inst_sub (an_at a) by_dur)"

record clock_estimate =
  ce_anchor :: clock_anchor
  ce_bound :: duration
  ce_rtt :: duration
  ce_drift_ppm :: int

record captured =
  cp_at :: instant
  cp_within :: duration

definition captured_by :: "clock_estimate \<Rightarrow> nat \<Rightarrow> captured option" where
  "captured_by e pts_us =
    (case anchor_captured (ce_anchor e) pts_us of
       None \<Rightarrow> None
     | Some at \<Rightarrow>
       let apart_us = wrap_sub 32 (pts_us mod 2 ^ 32) (an_host_us (ce_anchor e) mod 2 ^ 32);
           apart_us = nat \<bar>cast_signed32 apart_us\<bar>;
           drift_ns = sat_mul 64 apart_us (nat \<bar>ce_drift_ppm e\<bar>) div 1000
       in Some \<lparr>cp_at = at, cp_within = dur_add (ce_bound e) drift_ns\<rparr>)"

record frame_stamp =
  fs_pts_us :: nat
  fs_decode_seq :: nat
  fs_arrived :: instant
  fs_decoded :: instant
  fs_captured :: "captured option"

section \<open>Widening the wire's timestamps\<close>

record capture_clock =
  cc_last :: "nat option"
  cc_epoch :: nat

definition WRAP :: nat where "WRAP = 2 ^ 32"
definition HALF_WRAP :: nat where "HALF_WRAP = 2 ^ 31"

definition capture_clock_new :: capture_clock where
  "capture_clock_new = \<lparr>cc_last = None, cc_epoch = 0\<rparr>"

definition widen :: "nat \<Rightarrow> capture_clock \<Rightarrow> capture_clock \<times> nat" where
  "widen raw c =
    (let epoch = (case cc_last c of
                    None \<Rightarrow> cc_epoch c
                  | Some prev \<Rightarrow>
                    if raw < prev \<and> wrap_sub 32 prev raw > HALF_WRAP then sat_add 64 (cc_epoch c) WRAP
                    else if raw > prev \<and> wrap_sub 32 raw prev > HALF_WRAP then cc_epoch c - WRAP
                    else cc_epoch c)
     in (\<lparr>cc_last = Some raw, cc_epoch = epoch\<rparr>, sat_add 64 epoch raw))"

section \<open>Percentiles\<close>

definition RING :: nat where "RING = 240"

text \<open>The \<open>p\<close>th percentile of a sorted slice; a rank past its end reads as zero.\<close>

definition nearest_rank :: "duration list \<Rightarrow> nat \<Rightarrow> duration" where
  "nearest_rank xs p =
    (if xs = [] then 0
     else let rank = max (div_ceil (sat_mul 64 p (length xs)) 100) 1
          in if rank - 1 < length xs then xs ! (rank - 1) else 0)"

definition mean_deviation :: "duration list \<Rightarrow> duration \<Rightarrow> duration" where
  "mean_deviation values centre =
    (let count = to_width 32 (length values)
     in if count = 0 then 0
        else opt_or (checked_div (fold (\<lambda>v acc. dur_add acc (abs_diff v centre)) values 0) count) 0)"

definition last_or_zero :: "duration list \<Rightarrow> duration" where
  "last_or_zero xs = (if xs = [] then 0 else last xs)"

record ring_spread =
  sp_p50 :: duration
  sp_p95 :: duration
  sp_max :: duration
  sp_count :: nat

definition spread_of :: "duration list \<Rightarrow> ring_spread" where
  "spread_of rng = (let sorted = sort rng
     in \<lparr>sp_p50 = nearest_rank sorted 50, sp_p95 = nearest_rank sorted 95, sp_max = last_or_zero sorted,
         sp_count = length sorted\<rparr>)"

text \<open>
  A push onto a deque that keeps at most so many: the one idiom of the presented frames, the
  captures, the inputs, the paints and the misses.
\<close>

definition push_kept :: "nat \<Rightarrow> 'a \<Rightarrow> 'a list \<Rightarrow> 'a list" where
  "push_kept n x xs = (if length xs \<ge> n then drop 1 xs else xs) @ [x]"

definition push_ring :: "duration \<Rightarrow> duration list \<Rightarrow> duration list" where
  "push_ring x rng = push_kept RING x rng"

section \<open>The pacer\<close>

datatype pace = Present | Drop

record glass_stats =
  gs_capture :: ring_spread
  gs_input :: ring_spread
  gs_inputs_pending :: nat

record sent_input =
  si_seq :: nat
  si_sent :: instant
  si_visible_from :: "nat option"

definition INPUTS_IN_FLIGHT :: nat where "INPUTS_IN_FLIGHT = 64"

record sample =
  sm_latency :: duration
  sm_decode :: duration
  sm_interval :: "duration option"

definition RATE_WINDOW :: duration where "RATE_WINDOW = from_secs 1"
definition RATE_KEPT :: nat where "RATE_KEPT = 512"

record paint_rate =
  pr_painted :: nat
  pr_missed :: nat

record pacing_stats =
  ps_presented :: nat
  ps_skipped :: nat
  ps_repeats :: nat
  ps_late :: nat
  ps_latency_p50 :: duration
  ps_latency_p95 :: duration
  ps_latency_max :: duration
  ps_decode_p50 :: duration
  ps_interval_p50 :: duration
  ps_interval_jitter :: duration
  ps_window :: nat

definition pacing_stats_default :: pacing_stats where
  "pacing_stats_default = \<lparr>ps_presented = 0, ps_skipped = 0, ps_repeats = 0, ps_late = 0, ps_latency_p50 = 0,
     ps_latency_p95 = 0, ps_latency_max = 0, ps_decode_p50 = 0, ps_interval_p50 = 0, ps_interval_jitter = 0,
     ps_window = 0\<rparr>"

record pacer =
  pc_pending :: "frame_stamp option"
  pc_shown :: "nat option"
  pc_shown_at :: "instant option"
  pc_last_seq :: "nat option"
  pc_ring :: "sample list"
  pc_stats :: pacing_stats
  pc_anchor :: "clock_anchor option"
  pc_captures :: "duration list"
  pc_inputs :: "sent_input list"
  pc_input_ring :: "duration list"
  pc_paints :: "instant list"
  pc_misses :: "(instant \<times> nat) list"

definition pacer_new :: pacer where
  "pacer_new = \<lparr>pc_pending = None, pc_shown = None, pc_shown_at = None, pc_last_seq = None, pc_ring = [],
     pc_stats = pacing_stats_default, pc_anchor = None, pc_captures = [], pc_inputs = [], pc_input_ring = [],
     pc_paints = [], pc_misses = []\<rparr>"

definition within_rate :: "instant \<Rightarrow> instant \<Rightarrow> bool" where
  "within_rate now at = (case inst_sub now RATE_WINDOW of None \<Rightarrow> True | Some start \<Rightarrow> at > start)"

text \<open>The frames missed are summed without overflow: the sum is at most the decoder's number and the ring's length.\<close>

definition pacer_rate :: "instant \<Rightarrow> pacer \<Rightarrow> paint_rate" where
  "pacer_rate now p =
    (let painted = length (takeWhile (within_rate now) (rev (pc_paints p)));
         missed = sum_list (map snd (takeWhile (\<lambda>(at, _). within_rate now at) (rev (pc_misses p))))
     in \<lparr>pr_painted = to_width 32 painted, pr_missed = to_width 32 missed\<rparr>)"

definition missed :: "instant \<Rightarrow> nat \<Rightarrow> pacer \<Rightarrow> pacer" where
  "missed now frames p =
    (if frames = 0 then p else p\<lparr>pc_misses := push_kept RATE_KEPT (now, frames) (pc_misses p)\<rparr>)"

definition share_clock :: "clock_anchor \<Rightarrow> pacer \<Rightarrow> pacer" where
  "share_clock anchor p = p\<lparr>pc_anchor := Some anchor\<rparr>"

definition input_sent :: "nat \<Rightarrow> instant \<Rightarrow> pacer \<Rightarrow> pacer" where
  "input_sent seq at p = p\<lparr>pc_inputs :=
     push_kept INPUTS_IN_FLIGHT \<lparr>si_seq = seq, si_sent = at, si_visible_from = None\<rparr> (pc_inputs p)\<rparr>"

definition input_visible :: "nat \<Rightarrow> nat \<Rightarrow> pacer \<Rightarrow> pacer" where
  "input_visible seq pts_us p = p\<lparr>pc_inputs :=
     map (\<lambda>i. if si_seq i \<le> seq \<and> si_visible_from i = None then i\<lparr>si_visible_from := Some pts_us\<rparr> else i) (pc_inputs p)\<rparr>"

definition glass :: "pacer \<Rightarrow> glass_stats" where
  "glass p = \<lparr>gs_capture = spread_of (pc_captures p), gs_input = spread_of (pc_input_ring p),
     gs_inputs_pending = length (pc_inputs p)\<rparr>"

definition add_skipped :: "nat \<Rightarrow> pacer \<Rightarrow> pacer" where
  "add_skipped n p = p\<lparr>pc_stats := (pc_stats p)\<lparr>ps_skipped := sat_add 64 (ps_skipped (pc_stats p)) n\<rparr>\<rparr>"

text \<open>\<open>offer\<close> reads the clock for the frames lost on the way, and for the one dropped or replaced.\<close>

definition note_transit :: "instant \<Rightarrow> frame_stamp \<Rightarrow> pacer \<Rightarrow> pacer" where
  "note_transit now stamp p =
    (let p = (case pc_last_seq p of
                None \<Rightarrow> p
              | Some prev \<Rightarrow>
                let lost_in_transit = fs_decode_seq stamp - prev - 1
                in missed now lost_in_transit (add_skipped lost_in_transit p))
     in p\<lparr>pc_last_seq := Some (max (fs_decode_seq stamp) (opt_or (pc_last_seq p) 0))\<rparr>)"

definition newest :: "pacer \<Rightarrow> nat option" where
  "newest p = (case pc_pending p of None \<Rightarrow> pc_shown p | Some s \<Rightarrow> Some (fs_pts_us s))"

definition offer :: "instant \<Rightarrow> instant \<Rightarrow> frame_stamp \<Rightarrow> pacer \<Rightarrow> pacer \<times> pace" where
  "offer now now' stamp p =
    (let p = note_transit now stamp p
     in if (case newest p of None \<Rightarrow> False | Some prev \<Rightarrow> fs_pts_us stamp \<le> prev)
        then (missed now' 1 (p\<lparr>pc_stats := (pc_stats p)\<lparr>ps_late := sat_add 64 (ps_late (pc_stats p)) 1\<rparr>\<rparr>), Drop)
        else let p = (if pc_pending p \<noteq> None then missed now' 1 (add_skipped 1 p) else p)
             in (p\<lparr>pc_pending := Some stamp\<rparr>, Present))"

definition painted :: "instant \<Rightarrow> pacer \<Rightarrow> pacer \<times> frame_stamp option" where
  "painted now p =
    (case pc_pending p of
       None \<Rightarrow> (p\<lparr>pc_stats := (pc_stats p)\<lparr>ps_repeats := sat_add 64 (ps_repeats (pc_stats p)) 1\<rparr>\<rparr>, None)
     | Some stamp \<Rightarrow>
       (p\<lparr>pc_pending := None, pc_shown := Some (fs_pts_us stamp), pc_paints := push_kept RATE_KEPT now (pc_paints p)\<rparr>,
        Some stamp))"

text \<open>The inputs at the front that the shown frame has are timed and leave.\<close>

fun time_inputs :: "nat \<Rightarrow> instant \<Rightarrow> sent_input list \<Rightarrow> duration list \<Rightarrow> sent_input list \<times> duration list" where
  "time_inputs pts at [] rng = ([], rng)"
| "time_inputs pts at (i # inputs) rng =
    (case si_visible_from i of
       None \<Rightarrow> (i # inputs, rng)
     | Some from_pts \<Rightarrow>
       if from_pts > pts then (i # inputs, rng)
       else time_inputs pts at inputs (push_ring (since at (si_sent i)) rng))"

definition shown :: "frame_stamp \<Rightarrow> instant \<Rightarrow> pacer \<Rightarrow> pacer" where
  "shown stamp at p =
    (let smp = \<lparr>sm_latency = since at (fs_arrived stamp), sm_decode = since (fs_decoded stamp) (fs_arrived stamp),
                sm_interval = map_option (\<lambda>t. since at t) (pc_shown_at p)\<rparr>;
         p = p\<lparr>pc_ring := push_kept RING smp (pc_ring p), pc_shown_at := Some at,
               pc_stats := (pc_stats p)\<lparr>ps_presented := sat_add 64 (ps_presented (pc_stats p)) 1\<rparr>\<rparr>;
         captured = (case pc_anchor p of None \<Rightarrow> map_option cp_at (fs_captured stamp)
                     | Some a \<Rightarrow> anchor_captured a (fs_pts_us stamp));
         p = (case captured of None \<Rightarrow> p | Some c \<Rightarrow> p\<lparr>pc_captures := push_ring (since at c) (pc_captures p)\<rparr>)
     in (case time_inputs (fs_pts_us stamp) at (pc_inputs p) (pc_input_ring p) of
           (inputs, rng) \<Rightarrow> p\<lparr>pc_inputs := inputs, pc_input_ring := rng\<rparr>))"

definition unshown :: "pacer \<Rightarrow> pacer" where
  "unshown p = add_skipped 1 p"

definition pacer_age :: "instant \<Rightarrow> pacer \<Rightarrow> duration option" where
  "pacer_age now p = map_option (\<lambda>t. since now t) (pc_shown_at p)"

definition pacer_stats :: "pacer \<Rightarrow> pacing_stats" where
  "pacer_stats p =
    (let latency = sort (map sm_latency (pc_ring p));
         decode = sort (map sm_decode (pc_ring p));
         interval = sort (List.map_filter sm_interval (pc_ring p));
         interval_p50 = nearest_rank interval 50
     in (pc_stats p)\<lparr>ps_latency_p50 := nearest_rank latency 50, ps_latency_p95 := nearest_rank latency 95,
          ps_latency_max := last_or_zero latency, ps_decode_p50 := nearest_rank decode 50,
          ps_interval_p50 := interval_p50, ps_interval_jitter := mean_deviation interval interval_p50,
          ps_window := length (pc_ring p)\<rparr>)"


section \<open>Timestamps come out wide\<close>

fun widen_all :: "nat list \<Rightarrow> capture_clock \<Rightarrow> nat list" where
  "widen_all [] c = []"
| "widen_all (raw # raws) c = (case widen raw c of (c, t) \<Rightarrow> t # widen_all raws c)"

lemma wrap_sub32: "a < 2 ^ 32 \<Longrightarrow> b < 2 ^ 32 \<Longrightarrow> wrap_sub 32 a b = (if b \<le> a then a - b else a + 2 ^ 32 - b)"
  by (auto simp: wrap_sub_def mod_if)

text \<open>A step of less than half a turn either way is told apart from its neighbours a turn away.\<close>

lemma widen_step:
  fixes t t' base :: nat
  assumes near: "t' < t + 2 ^ 31" "t < t' + 2 ^ 31" and base: "base * 2 ^ 32 \<le> t" "base * 2 ^ 32 \<le> t'" and fits: "t' < 2 ^ 64"
  shows "widen (t' mod 2 ^ 32) \<lparr>cc_last = Some (t mod 2 ^ 32), cc_epoch = (t div 2 ^ 32 - base) * 2 ^ 32\<rparr> =
    (\<lparr>cc_last = Some (t' mod 2 ^ 32), cc_epoch = (t' div 2 ^ 32 - base) * 2 ^ 32\<rparr>, t' - base * 2 ^ 32)"
proof -
  define q r q' r' where "q = t div 2 ^ 32" and "r = t mod 2 ^ 32" and "q' = t' div 2 ^ 32" and "r' = t' mod 2 ^ 32"
  note defs = q_def r_def q'_def r'_def
  have t: "t = q * 2 ^ 32 + r" "t' = q' * 2 ^ 32 + r'" and small: "r < 2 ^ 32" "r' < 2 ^ 32"
    by (simp_all add: defs)
  have le: "base \<le> q" "base \<le> q'" using base by (simp_all add: defs less_eq_div_iff_mult_less_eq)
  have q': "q' < 2 ^ 32" using fits by (simp add: defs less_mult_imp_div_less)
  have total: "sat_add 64 ((q' - base) * 2 ^ 32) r' = t' - base * 2 ^ 32"
    using fits le t by (simp add: sat_add_def umax_def diff_mult_distrib)
  consider "q' = q" | "q' = Suc q" | "q = Suc q'" using near t small by fastforce
  then have epoch: "(if r' < r \<and> wrap_sub 32 r r' > HALF_WRAP then sat_add 64 ((q - base) * 2 ^ 32) WRAP
      else if r' > r \<and> wrap_sub 32 r' r > HALF_WRAP then (q - base) * 2 ^ 32 - WRAP
      else (q - base) * 2 ^ 32) = (q' - base) * 2 ^ 32"
  proof cases
    case 1
    then have "\<not> r - r' > HALF_WRAP" "\<not> r' - r > HALF_WRAP" using near t by (auto simp: HALF_WRAP_def)
    then show ?thesis using 1 small by (simp add: wrap_sub32)
  next
    case 2
    then have "r' < r" "r - r' > HALF_WRAP" using near t small by (auto simp: HALF_WRAP_def)
    moreover have "(q - base) * 2 ^ 32 + WRAP = (q' - base) * 2 ^ 32"
      using 2 le by (simp add: WRAP_def Suc_diff_le)
    moreover have "(q' - base) * 2 ^ 32 \<le> umax 64" using q' by (simp add: umax_def)
    ultimately show ?thesis using small by (simp add: wrap_sub32 sat_add_def)
  next
    case 3
    then have "r < r'" "r' - r > HALF_WRAP" using near t small by (auto simp: HALF_WRAP_def)
    moreover have "(q - base) * 2 ^ 32 - WRAP = (q' - base) * 2 ^ 32"
      using 3 le by (simp add: WRAP_def Suc_diff_le)
    ultimately show ?thesis using small by (simp add: wrap_sub32)
  qed
  show ?thesis
    unfolding widen_def Let_def defs [symmetric] capture_clock.simps option.case by (simp only: epoch total)
qed

fun steps_below :: "nat \<Rightarrow> nat list \<Rightarrow> bool" where
  "steps_below n (t # t' # ts) = (t' < t + n \<and> t < t' + n \<and> steps_below n (t' # ts))"
| "steps_below n _ = True"

lemma widen_run:
  assumes "steps_below (2 ^ 31) (t # ts)" "base * 2 ^ 32 \<le> t" "\<forall>x \<in> set ts. base * 2 ^ 32 \<le> x \<and> x < 2 ^ 64"
  shows "widen_all (map (\<lambda>x. x mod 2 ^ 32) ts) \<lparr>cc_last = Some (t mod 2 ^ 32), cc_epoch = (t div 2 ^ 32 - base) * 2 ^ 32\<rparr>
     = map (\<lambda>x. x - base * 2 ^ 32) ts"
  using assms
proof (induction ts arbitrary: t)
  case (Cons t' ts)
  then show ?case using widen_step [of t' t base] by simp
qed simp

text \<open>
  C27. The wire's 32-bit capture timestamps come out in full: frames whose capture times lie less than
  half a turn of the clock (36 minutes) from the frame before, late ones included, and none from before the turn of the first,
  are numbered by their true capture times, all shifted by the same whole number of turns. So their order and distances are
  those of the captures, however often the clock wraps.
\<close>

theorem widen_is_exact:
  assumes "steps_below (2 ^ 31) (t # ts)" and "\<forall>x \<in> set (t # ts). t div 2 ^ 32 * 2 ^ 32 \<le> x \<and> x < 2 ^ 64"
  shows "widen_all (map (\<lambda>x. x mod 2 ^ 32) (t # ts)) capture_clock_new = map (\<lambda>x. x - t div 2 ^ 32 * 2 ^ 32) (t # ts)"
proof -
  have "widen (t mod 2 ^ 32) capture_clock_new = (\<lparr>cc_last = Some (t mod 2 ^ 32), cc_epoch = 0\<rparr>, t mod 2 ^ 32)"
    using mod_less_divisor [of "2 ^ 32" t] by (simp add: widen_def capture_clock_new_def sat_add_def umax_def)
  then show ?thesis
    using widen_run [OF assms(1), of "t div 2 ^ 32"] assms(2) by (simp add: minus_div_mult_eq_mod)
qed

text \<open>The anchor places a capture within half a turn of it exactly.\<close>

lemma wrap_sub_mod: "int (wrap_sub 32 (a mod 2 ^ 32) (b mod 2 ^ 32)) = (int a - int b) mod 2 ^ 32"
proof -
  have "int (wrap_sub 32 (a mod 2 ^ 32) (b mod 2 ^ 32)) = (int a mod 2 ^ 32 + (2 ^ 32 - int b mod 2 ^ 32)) mod 2 ^ 32"
    by (simp add: wrap_sub_def zmod_int of_nat_diff add_diff_eq)
  also have "\<dots> = ((int a - int b) + 2 ^ 32) mod 2 ^ 32"
    by (metis (no_types) add_diff_eq diff_add_eq mod_add_left_eq mod_diff_right_eq)
  finally show ?thesis by simp
qed

lemma captured_exact:
  assumes "pts < an_host_us a + 2 ^ 31" "an_host_us a \<le> pts + 2 ^ 31"
  shows "anchor_captured a pts =
    (if an_host_us a \<le> pts then inst_add (an_at a) (from_micros (pts - an_host_us a))
     else inst_sub (an_at a) (from_micros (an_host_us a - pts)))"
proof -
  define h where "h = an_host_us a"
  define d where "d = wrap_sub 32 (pts mod 2 ^ 32) (h mod 2 ^ 32)"
  have "int d = (int pts - int h) mod 2 ^ 32" by (simp only: d_def wrap_sub_mod)
  also have "\<dots> = (if h \<le> pts then int pts - int h else int pts - int h + 2 ^ 32)"
  proof (cases "h \<le> pts")
    case True
    then show ?thesis using assms by (simp add: h_def)
  next
    case False
    have "(int pts - int h + 2 ^ 32) mod 2 ^ 32 = int pts - int h + 2 ^ 32"
      using False assms by (intro mod_pos_pos_trivial) (simp_all add: h_def)
    then show ?thesis using False by simp
  qed
  finally have "cast_signed32 d = int pts - int h"
    using assms by (auto simp: cast_signed32_def h_def split: if_splits)
  then show ?thesis
    unfolding anchor_captured_def Let_def h_def [symmetric] d_def [symmetric]
    by (simp add: nat_diff_distrib nat_abs_int_diff)
qed

section \<open>Percentiles are nearest ranks\<close>

lemma sorted_count:
  assumes "sorted xs" and "k < length xs"
  shows "Suc k \<le> length (filter (\<lambda>x. x \<le> xs ! k) xs) \<and> length (filter (\<lambda>x. x < xs ! k) xs) \<le> k"
proof
  have "card {..k} \<le> card {i. i < length xs \<and> xs ! i \<le> xs ! k}"
    using assms by (intro card_mono) (auto intro: sorted_nth_mono)
  then show "Suc k \<le> length (filter (\<lambda>x. x \<le> xs ! k) xs)" by (simp add: length_filter_conv_card)
  have "i < k" if "i < length xs" "xs ! i < xs ! k" for i
    using that sorted_nth_mono [OF assms(1), of k i] by (cases "i < k") auto
  then have "card {i. i < length xs \<and> xs ! i < xs ! k} \<le> card {..<k}" by (intro card_mono) auto
  then show "length (filter (\<lambda>x. x < xs ! k) xs) \<le> k" by (simp add: length_filter_conv_card)
qed

text \<open>
  A percentile is what its name says: of the samples in a ring, sorted, the \<open>p\<close>th percentile is one
  of them, at least \<open>p\<close> in a hundred are no greater, and fewer than \<open>p\<close> in a hundred are smaller.
\<close>

lemma percentile_is_nearest_rank:
  assumes "rng \<noteq> []" and "0 < p" and "p \<le> 100" and "p * length rng \<le> umax 64"
  shows "nearest_rank (sort rng) p \<in> set rng
     \<and> p * length rng \<le> 100 * length (filter (\<lambda>x. x \<le> nearest_rank (sort rng) p) rng)
     \<and> 100 * length (filter (\<lambda>x. x < nearest_rank (sort rng) p) rng) < p * length rng"
proof -
  define n where "n = length rng"
  define k where "k = div_ceil (p * n) 100"
  have n: "0 < n" using assms(1) by (simp add: n_def)
  have k: "p * n \<le> 100 * k" "100 * k < p * n + 100" using div_ceil_upper [of 100 "p * n"] div_ceil_tight [of 100 "p * n"] by (simp_all add: k_def)
  have "0 < p * n" using n assms(2) by simp
  then have "0 < k" using k(1) by (cases k) simp_all
  have "p * n \<le> 100 * n" using assms(3) by simp
  then have "k \<le> n" using k(2) by linarith
  then have "sort rng \<noteq> []" using assms(1) by (metis length_0_conv length_sort)
  then have at: "nearest_rank (sort rng) p = sort rng ! (k - 1)" and lt: "k - 1 < length (sort rng)"
    using \<open>0 < k\<close> \<open>k \<le> n\<close> assms(1,4) by (auto simp: nearest_rank_def Let_def sat_mul_def max_def n_def k_def)
  have count: "length (filter P (sort rng)) = length (filter P rng)" for P
    by (metis filter_sort length_sort)
  have "nearest_rank (sort rng) p \<in> set rng" using nth_mem [OF lt] at by simp
  moreover have "k \<le> length (filter (\<lambda>x. x \<le> nearest_rank (sort rng) p) rng)"
      "length (filter (\<lambda>x. x < nearest_rank (sort rng) p) rng) \<le> k - 1"
    using sorted_count [OF sorted_sort lt] \<open>0 < k\<close> by (simp_all add: at count)
  ultimately show ?thesis using k \<open>0 < k\<close> by (simp add: n_def [symmetric])
qed

section \<open>Every run of the pacer\<close>

text \<open>The frames offered and painted so far, when they were painted, and how often a picture put up was reported unshown.\<close>

inductive pacer_run :: "frame_stamp list \<Rightarrow> frame_stamp list \<Rightarrow> instant list \<Rightarrow> nat \<Rightarrow> pacer \<Rightarrow> bool" where
  start: "pacer_run [] [] [] 0 pacer_new"
| offered: "pacer_run os ps ts u p \<Longrightarrow> pacer_run (os @ [stamp]) ps ts u (fst (offer now now' stamp p))"
| painting: "pacer_run os ps ts u p \<Longrightarrow>
    pacer_run os (ps @ (case snd (painted now p) of None \<Rightarrow> [] | Some stamp \<Rightarrow> [stamp]))
      (ts @ (case snd (painted now p) of None \<Rightarrow> [] | Some stamp \<Rightarrow> [now])) u (fst (painted now p))"
| showing: "pacer_run os ps ts u p \<Longrightarrow> pacer_run os ps ts u (shown stamp at p)"
| replaced: "pacer_run os ps ts u p \<Longrightarrow> pacer_run os ps ts (Suc u) (unshown p)"
| sent: "pacer_run os ps ts u p \<Longrightarrow> pacer_run os ps ts u (input_sent seq at p)"
| visible: "pacer_run os ps ts u p \<Longrightarrow> pacer_run os ps ts u (input_visible seq pts p)"
| sharing: "pacer_run os ps ts u p \<Longrightarrow> pacer_run os ps ts u (share_clock anchor p)"

text \<open>What a run's frames are counted by; the other operations leave it alone.\<close>

definition frame_view :: "pacer \<Rightarrow> frame_stamp option \<times> nat option \<times> nat option \<times> nat \<times> nat" where
  "frame_view p = (pc_pending p, pc_shown p, pc_last_seq p, ps_skipped (pc_stats p), ps_late (pc_stats p))"

lemma other_views [simp]:
  "frame_view (shown stamp at p) = frame_view p"
  "frame_view (input_sent seq at p) = frame_view p"
  "frame_view (input_visible seq pts p) = frame_view p"
  "frame_view (share_clock anchor p) = frame_view p"
  "frame_view (missed now n p) = frame_view p"
  by (auto simp: frame_view_def shown_def input_sent_def input_visible_def share_clock_def missed_def Let_def
      split: option.splits prod.splits)

definition late_for :: "frame_stamp \<Rightarrow> pacer \<Rightarrow> bool" where
  "late_for stamp p = (case newest p of None \<Rightarrow> False | Some t \<Rightarrow> fs_pts_us stamp \<le> t)"

text \<open>The frames between the last one offered and this one never came.\<close>

definition transit :: "frame_stamp \<Rightarrow> pacer \<Rightarrow> nat" where
  "transit stamp p = (case pc_last_seq p of None \<Rightarrow> 0 | Some prev \<Rightarrow> fs_decode_seq stamp - prev - 1)"

lemma missed_sel [simp]:
  "pc_pending (missed now n p) = pc_pending p" "pc_shown (missed now n p) = pc_shown p"
  "pc_last_seq (missed now n p) = pc_last_seq p" "pc_stats (missed now n p) = pc_stats p"
  by (simp_all add: missed_def)

lemma offer_view:
  "frame_view (fst (offer now now' stamp p)) =
    (let last = Some (max (fs_decode_seq stamp) (opt_or (pc_last_seq p) 0));
         skipped = (case pc_last_seq p of None \<Rightarrow> ps_skipped (pc_stats p)
                    | Some _ \<Rightarrow> sat_add 64 (ps_skipped (pc_stats p)) (transit stamp p))
     in if late_for stamp p then (pc_pending p, pc_shown p, last, skipped, sat_add 64 (ps_late (pc_stats p)) 1)
        else (Some stamp, pc_shown p, last, if pc_pending p = None then skipped else sat_add 64 skipped 1,
              ps_late (pc_stats p)))"
  by (auto simp: frame_view_def offer_def note_transit_def late_for_def newest_def transit_def add_skipped_def Let_def
      split: option.splits)

lemma painted_view:
  "frame_view (fst (painted now p)) =
    (None, newest p, pc_last_seq p, ps_skipped (pc_stats p), ps_late (pc_stats p))"
  "snd (painted now p) = pc_pending p"
  by (auto simp: frame_view_def painted_def newest_def split: option.splits)

lemma unshown_view:
  "frame_view (unshown p) =
    (pc_pending p, pc_shown p, pc_last_seq p, sat_add 64 (ps_skipped (pc_stats p)) 1, ps_late (pc_stats p))"
  by (simp add: frame_view_def unshown_def add_skipped_def)

lemma view_fields:
  assumes "frame_view p = (pend, up, prev, skipped, late)"
  shows "pc_pending p = pend" "pc_shown p = up" "pc_last_seq p = prev" "ps_skipped (pc_stats p) = skipped"
    "ps_late (pc_stats p) = late" "newest p = (case pend of None \<Rightarrow> up | Some s \<Rightarrow> Some (fs_pts_us s))"
  using assms by (auto simp: frame_view_def newest_def split: option.splits)

subsection \<open>What is on screen\<close>

definition newest_of :: "frame_stamp list \<Rightarrow> nat option" where
  "newest_of os = (if os = [] then None else Some (Max (fs_pts_us ` set os)))"

lemma newest_of_snoc:
  "newest_of (os @ [s]) = (case newest_of os of None \<Rightarrow> Some (fs_pts_us s) | Some t \<Rightarrow> Some (max t (fs_pts_us s)))"
  by (simp add: newest_of_def max.commute)

lemma newest_of_bound: "newest_of os = Some t \<Longrightarrow> x \<in> set os \<Longrightarrow> fs_pts_us x \<le> t"
  by (auto simp: newest_of_def split: if_splits)

definition on_screen :: "frame_stamp list \<Rightarrow> frame_stamp list \<Rightarrow> frame_stamp option \<times> nat option \<times> 'r \<Rightarrow> bool" where
  "on_screen os ps v = (case v of (pend, up, _) \<Rightarrow>
     sorted_wrt (<) (map fs_pts_us ps) \<and> set ps \<subseteq> set os \<and>
     up = (if ps = [] then None else Some (fs_pts_us (last ps))) \<and>
     (case pend of None \<Rightarrow> up = newest_of os
      | Some s \<Rightarrow> s \<in> set os \<and> (\<forall>x \<in> set ps. fs_pts_us x < fs_pts_us s) \<and> newest_of os = Some (fs_pts_us s)))"

lemma on_screen_offer:
  assumes "on_screen os ps (pend, up, r)" and n: "n = (case pend of None \<Rightarrow> up | Some s \<Rightarrow> Some (fs_pts_us s))"
  shows "(\<exists>t. n = Some t \<and> fs_pts_us stamp \<le> t) \<Longrightarrow> on_screen (os @ [stamp]) ps (pend, up, r')"
    and "\<not> (\<exists>t. n = Some t \<and> fs_pts_us stamp \<le> t) \<Longrightarrow> on_screen (os @ [stamp]) ps (Some stamp, up, r')"
proof -
  have n': "n = newest_of os" using assms by (auto simp: on_screen_def split: option.splits)
  show "on_screen (os @ [stamp]) ps (pend, up, r')" if "\<exists>t. n = Some t \<and> fs_pts_us stamp \<le> t"
  proof -
    have "newest_of (os @ [stamp]) = newest_of os" using that n' by (auto simp: newest_of_snoc)
    then show ?thesis using assms by (auto simp: on_screen_def split: option.splits)
  qed
  show "on_screen (os @ [stamp]) ps (Some stamp, up, r')" if new: "\<not> (\<exists>t. n = Some t \<and> fs_pts_us stamp \<le> t)"
  proof -
    have "newest_of (os @ [stamp]) = Some (fs_pts_us stamp)"
      using new n' by (auto simp: newest_of_snoc split: option.splits)
    moreover have "fs_pts_us x < fs_pts_us stamp" if "x \<in> set os" for x
    proof -
      have "os \<noteq> []" using that by auto
      then obtain t where "newest_of os = Some t" by (simp add: newest_of_def)
      then show ?thesis using new n' newest_of_bound [OF _ that] by fastforce
    qed
    ultimately show ?thesis using assms(1) by (auto simp: on_screen_def)
  qed
qed

lemma on_screen_painted:
  assumes "on_screen os ps (pend, up, r)"
  shows "on_screen os (ps @ (case pend of None \<Rightarrow> [] | Some s \<Rightarrow> [s]))
     (None, case pend of None \<Rightarrow> up | Some s \<Rightarrow> Some (fs_pts_us s), r')"
  using assms by (auto simp: on_screen_def sorted_wrt_append split: option.splits)

lemma run_on_screen: "pacer_run os ps ts u p \<Longrightarrow> on_screen os ps (frame_view p)"
proof (induction rule: pacer_run.induct)
  case start
  show ?case by (simp add: on_screen_def frame_view_def pacer_new_def newest_of_def)
next
  case (offered os ps ts u p stamp now now')
  obtain pend up prev skipped late where v: "frame_view p = (pend, up, prev, skipped, late)" by (cases "frame_view p") auto
  have lf: "late_for stamp p \<longleftrightarrow> (\<exists>t. newest p = Some t \<and> fs_pts_us stamp \<le> t)"
    by (auto simp: late_for_def split: option.splits)
  show ?case
    using on_screen_offer [OF offered.IH [unfolded v] view_fields(6) [OF v], of stamp]
    unfolding offer_view Let_def lf by (auto simp: view_fields [OF v])
next
  case (painting os ps ts u p now)
  obtain pend up prev skipped late where v: "frame_view p = (pend, up, prev, skipped, late)" by (cases "frame_view p") auto
  show ?case using on_screen_painted [OF painting.IH [unfolded v]] by (simp add: painted_view view_fields [OF v])
next
  case (replaced os ps ts u p)
  show ?case using replaced.IH unfolding unshown_view unfolding frame_view_def on_screen_def prod.case .
qed simp_all

text \<open>
  C25. Present on arrival: whatever is offered, painted, shown and replaced in whatever order, the
  frames painted are frames that were offered, each newer than the one before it, and after every
  paint the picture up is the newest of all the frames offered so far. No frame is held for a later paint.
\<close>

theorem paint_shows_the_newest:
  assumes "pacer_run os ps ts u p"
  shows "sorted_wrt (<) (map fs_pts_us ps) \<and> set ps \<subseteq> set os \<and> pc_shown (fst (painted now p)) = newest_of os"
proof -
  have "on_screen os ps (frame_view p)" by (rule run_on_screen [OF assms])
  moreover have "pc_shown (fst (painted now p)) = newest p" using painted_view(1) [of now p] by (simp add: frame_view_def)
  ultimately show ?thesis by (auto simp: on_screen_def frame_view_def newest_def split: option.splits)
qed

subsection \<open>Every frame is accounted for\<close>

text \<open>The decoder numbers its pictures: the frames that reach the pacer carry rising numbers.\<close>

definition numbered :: "frame_stamp list \<Rightarrow> bool" where
  "numbered os \<longleftrightarrow> sorted_wrt (<) (map fs_decode_seq os)"

definition decoded_count :: "frame_stamp list \<Rightarrow> nat" where
  "decoded_count os = (if os = [] then 0 else Suc (fs_decode_seq (last os) - fs_decode_seq (hd os)))"

definition accounted :: "frame_stamp list \<Rightarrow> frame_stamp list \<Rightarrow> nat \<Rightarrow>
    frame_stamp option \<times> nat option \<times> nat option \<times> nat \<times> nat \<Rightarrow> bool" where
  "accounted os ps u v = (case v of (pend, up, prev, skipped, late) \<Rightarrow>
     prev = (if os = [] then None else Some (fs_decode_seq (last os))) \<and>
     skipped + late + length ps + (if pend = None then 0 else 1) = decoded_count os + u)"

lemma numbered_snoc: "numbered (os @ [s]) \<longleftrightarrow> numbered os \<and> (\<forall>x \<in> set os. fs_decode_seq x < fs_decode_seq s)"
  by (auto simp: numbered_def sorted_wrt_append)

lemma decoded_count_snoc:
  assumes "numbered (os @ [s])" and "os \<noteq> []"
  shows "decoded_count (os @ [s]) = decoded_count os + Suc (fs_decode_seq s - fs_decode_seq (last os) - 1)"
proof -
  have "fs_decode_seq (last os) < fs_decode_seq s" using assms by (simp add: numbered_snoc)
  moreover have "fs_decode_seq (hd os) \<le> fs_decode_seq (last os)"
    using assms by (cases os) (auto simp: numbered_snoc numbered_def less_imp_le)
  ultimately show ?thesis using assms(2) by (simp add: decoded_count_def)
qed

lemma run_accounted:
  assumes "pacer_run os ps ts u p" and "numbered os" and "decoded_count os + u \<le> umax 64"
  shows "accounted os ps u (frame_view p)"
  using assms
proof (induction rule: pacer_run.induct)
  case start
  show ?case by (simp add: accounted_def frame_view_def pacer_new_def pacing_stats_default_def decoded_count_def)
next
  case (offered os ps ts u p stamp now now')
  obtain pend up prev skipped late where v: "frame_view p = (pend, up, prev, skipped, late)" by (cases "frame_view p") auto
  note f = view_fields [OF v]
  show ?case
  proof (cases "os = []")
    case True
    then have "accounted os ps u (frame_view p)" using offered by (simp add: numbered_def decoded_count_def)
    then show ?thesis using True offered.prems unfolding offer_view Let_def
      by (auto simp: accounted_def v f transit_def opt_or_def decoded_count_def sat_add_exact)
  next
    case False
    have count: "decoded_count (os @ [stamp]) = decoded_count os + Suc (fs_decode_seq stamp - fs_decode_seq (last os) - 1)"
      by (rule decoded_count_snoc [OF offered.prems(1) False])
    have "fs_decode_seq (last os) < fs_decode_seq stamp" using offered.prems(1) False by (simp add: numbered_snoc)
    moreover have "accounted os ps u (frame_view p)"
      using offered count by (intro offered.IH) (simp_all add: numbered_snoc)
    ultimately show ?thesis using False offered.prems(2) count unfolding offer_view Let_def
      by (auto simp: accounted_def v f transit_def opt_or_def sat_add_exact)
  qed
next
  case (painting os ps ts u p now)
  obtain pend up prev skipped late where v: "frame_view p = (pend, up, prev, skipped, late)" by (cases "frame_view p") auto
  show ?case using painting by (auto simp: accounted_def painted_view view_fields [OF v] v split: option.splits)
next
  case (replaced os ps ts u p)
  obtain pend up prev skipped late where v: "frame_view p = (pend, up, prev, skipped, late)" by (cases "frame_view p") auto
  show ?case using replaced by (auto simp: accounted_def unshown_view view_fields [OF v] v sat_add_exact)
qed simp_all

text \<open>
  C26. Every picture the decoder made is accounted for: of those numbered from the first one offered to
  the last, each was painted, waits for the next paint, was dropped as late, or is in the count of the skipped, replaced or
  lost before the pacer ever saw it; and the pictures put up and never shown are counted skipped on top.
\<close>

theorem frames_are_accounted_for:
  assumes "pacer_run os ps ts u p" and "numbered os" and "decoded_count os + u \<le> umax 64"
  shows "ps_skipped (pacer_stats p) + ps_late (pacer_stats p) + length ps + (if pc_pending p = None then 0 else 1)
    = decoded_count os + u"
  using run_accounted [OF assms] by (simp add: accounted_def frame_view_def pacer_stats_def Let_def)

section \<open>Frames a second\<close>

text \<open>The last \<open>n\<close> of what was pushed.\<close>

lemma push_kept_last:
  assumes "0 < n" and "xs = drop (length ys - n) ys"
  shows "push_kept n y xs = drop (length (ys @ [y]) - n) (ys @ [y])"
proof (cases "length ys < n")
  case True
  then show ?thesis using assms by (simp add: push_kept_def)
next
  case False
  then have "length xs = n" and "length (ys @ [y]) - n = Suc (length ys - n)" using assms(2) by simp_all
  then show ?thesis using False assms by (simp add: push_kept_def drop_Suc tl_drop)
qed

text \<open>A ring that kept the newest of rising times counts those after a moment, up to its size.\<close>

lemma recent_count:
  assumes "sorted ts" and "\<And>s t. s \<le> t \<Longrightarrow> P s \<Longrightarrow> P t"
  shows "length (takeWhile P (rev (drop (length ts - n) ts))) = min n (length (filter P ts))"
proof -
  have split: "takeWhile P (rev ts) = filter P (rev ts)" if "sorted ts" for ts
    using that
  proof (induction ts rule: rev_induct)
    case (snoc t ts)
    have "filter P (rev ts) = []" if "\<not> P t"
      using snoc.prems that assms(2) by (auto simp: sorted_append filter_empty_conv)
    then show ?case using snoc by (auto simp: sorted_append)
  qed simp
  have "takeWhile P (take n xs) = take n (takeWhile P xs)" for xs
    by (induction xs arbitrary: n) (simp_all add: take_Cons split: nat.splits)
  then have "takeWhile P (rev (drop (length ts - n) ts)) = take n (filter P (rev ts))"
    using split [OF assms(1)] by (simp flip: take_rev)
  then show ?thesis by (simp add: rev_filter [symmetric])
qed

lemma other_paints [simp]:
  "pc_paints (shown stamp at p) = pc_paints p" "pc_paints (input_sent seq at p) = pc_paints p"
  "pc_paints (input_visible seq pts p) = pc_paints p" "pc_paints (share_clock anchor p) = pc_paints p"
  "pc_paints (fst (offer now now' stamp p)) = pc_paints p" "pc_paints (unshown p) = pc_paints p"
  by (auto simp: shown_def input_sent_def input_visible_def share_clock_def offer_def note_transit_def missed_def
      unshown_def add_skipped_def Let_def split: option.splits prod.splits)

lemma run_paints: "pacer_run os ps ts u p \<Longrightarrow> pc_paints p = drop (length ts - RATE_KEPT) ts"
proof (induction rule: pacer_run.induct)
  case (painting os ps ts u p now)
  then show ?case using push_kept_last [of RATE_KEPT "pc_paints p" ts now]
    by (cases "pc_pending p") (simp_all add: painted_def RATE_KEPT_def)
qed (simp_all add: pacer_new_def)

text \<open>
  Under a clock that does not go back, the frames a second are exactly the paints of the last
  second, as long as no more than \<open>RATE_KEPT\<close> of them fit in it.
\<close>

lemma rate_counts_paints:
  assumes "pacer_run os ps ts u p" and "sorted ts"
  shows "pr_painted (pacer_rate now p) = min RATE_KEPT (length (filter (within_rate now) ts))"
proof -
  have "length (takeWhile (within_rate now) (rev (pc_paints p))) = min RATE_KEPT (length (filter (within_rate now) ts))"
    unfolding run_paints [OF assms(1)]
    by (rule recent_count [OF assms(2)]) (auto simp: within_rate_def split: option.splits)
  moreover have "min RATE_KEPT n \<le> umax 32" for n by (simp add: RATE_KEPT_def umax_def min_def)
  ultimately show ?thesis by (simp add: pacer_rate_def Let_def to_width_def)
qed

section \<open>Witnesses\<close>

theorem widen_is_exact_witness:
  "widen_all [4294967290, 5, 4294967295, 20] capture_clock_new = [4294967290, 4294967301, 4294967295, 4294967316]"
  using widen_is_exact [of 4294967290 "[4294967301, 4294967295, 4294967316]"] by simp

lemma percentile_is_nearest_rank_witness:
  "nearest_rank (sort [30, 10, 20, 40]) 50 \<in> set [30, 10, 20, 40 :: nat]"
  using percentile_is_nearest_rank [of "[30, 10, 20, 40]" 50] by (simp add: umax_def)

definition demo_stamp :: "nat \<Rightarrow> nat \<Rightarrow> frame_stamp" where
  "demo_stamp pts seq = \<lparr>fs_pts_us = pts, fs_decode_seq = seq, fs_arrived = 0, fs_decoded = 0, fs_captured = None\<rparr>"

text \<open>Two frames between paints, one lost on the way between them, and a late one after.\<close>

definition demo_pacer :: pacer where
  "demo_pacer = fst (offer 0 0 (demo_stamp 15 3) (fst (offer 0 0 (demo_stamp 20 2) (fst (offer 0 0 (demo_stamp 10 0) pacer_new)))))"

lemma demo_pacer_run: "pacer_run [demo_stamp 10 0, demo_stamp 20 2, demo_stamp 15 3] [] [] 0 demo_pacer"
  using offered [OF offered [OF offered [OF start, of "demo_stamp 10 0" 0 0], of "demo_stamp 20 2" 0 0], of "demo_stamp 15 3" 0 0]
  by (simp add: demo_pacer_def)

theorem paint_shows_the_newest_witness: "pc_shown (fst (painted 0 demo_pacer)) = Some 20"
  using paint_shows_the_newest [OF demo_pacer_run, of 0] by (simp add: newest_of_def demo_stamp_def)

theorem frames_are_accounted_for_witness:
  "ps_skipped (pacer_stats demo_pacer) + ps_late (pacer_stats demo_pacer) + (if pc_pending demo_pacer = None then 0 else 1) = 4"
  using frames_are_accounted_for [OF demo_pacer_run] by (simp add: numbered_def decoded_count_def demo_stamp_def umax_def)

end
