(* ===== verification/Predict_Line.thy ===== *)
theory Predict_Line
  imports Grid "HOL-Library.Monad_Syntax"
begin

text \<open>
  The input row as the local-echo predictor models it (\<open>slopty-predict/src/lib.rs\<close>): what a key does,
  what the row shows (typed text, a suggestion, a right prompt), and the guess for a key as the cells it changes.

  A screen position is a \<open>u16\<close> as a natural number; a row is at most \<open>MAX_COLS\<close> cells, so the ranges of
  columns below never meet the type's end.
\<close>

section \<open>Keys\<close>

text \<open>The keys the predictor tells apart; every other physical key by its number on the wire.\<close>

datatype key_code = Backspace | ArrowLeft | ArrowRight | OtherKey nat

datatype key_action = Press | Repeat | Release

definition SHIFT :: "16 word" where "SHIFT = push_bit 0 1"
definition ALT :: "16 word" where "ALT = push_bit 1 1"
definition CTRL :: "16 word" where "CTRL = push_bit 2 1"
definition SUPER :: "16 word" where "SUPER = push_bit 3 1"

record key_event =
  ke_seq :: nat
  ke_action :: key_action
  ke_code :: key_code
  ke_mods :: "16 word"
  ke_consumed_mods :: "16 word"
  ke_text :: "ustring option"
  ke_unshifted :: "uchar option"
  ke_composing :: bool
  ke_option_as_alt :: bool

datatype stroke = SType uchar | SLeft | SRight | SErase

text \<open>\<open>char::is_control\<close> (the category Cc), \<open>char::is_whitespace\<close> and \<open>is_ascii\<close>.\<close>

definition is_control :: "uchar \<Rightarrow> bool" where
  "is_control c \<longleftrightarrow> c < 32 \<or> 127 \<le> c \<and> c < 160"

definition is_whitespace :: "uchar \<Rightarrow> bool" where
  "is_whitespace c \<longleftrightarrow> 9 \<le> c \<and> c \<le> 13 \<or> 8192 \<le> c \<and> c \<le> 8202 \<or>
     c \<in> {32, 133, 160, 5760, 8232, 8233, 8239, 8287, 12288}"

definition printable :: "key_event \<Rightarrow> uchar option" where
  "printable key =
    (if flags_intersect (ke_mods key) (CTRL OR SUPER) \<or> ke_option_as_alt key then None
     else case ke_text key of
       Some [c] \<Rightarrow> if is_control c \<or> c = 9 then None else if c < 128 then Some c else None
     | _ \<Rightarrow> None)"

definition stroke_of :: "key_event \<Rightarrow> stroke option" where
  "stroke_of key =
    (let chord = flags_intersect (ke_mods key) (SHIFT OR ALT OR CTRL OR SUPER)
     in case ke_code key of
          Backspace \<Rightarrow> if \<not> chord then Some SErase else None
        | ArrowLeft \<Rightarrow> if \<not> chord then Some SLeft else None
        | ArrowRight \<Rightarrow> if \<not> chord then Some SRight else None
        | _ \<Rightarrow> map_option SType (printable key))"

section \<open>What a row shows\<close>

definition TEXT_GAP :: nat where "TEXT_GAP = 2"
definition RIGHT_PROMPT_EDGE :: nat where "RIGHT_PROMPT_EDGE = 2"

text \<open>\<open>slice.get\<close>, and \<open>u16::try_from(x).ok()\<close>.\<close>

definition vec_get :: "'a list \<Rightarrow> nat \<Rightarrow> 'a option" where
  "vec_get xs i = (if i < length xs then Some (xs ! i) else None)"

definition try_u16 :: "nat \<Rightarrow> nat option" where
  "try_u16 x = (if x \<le> umax 16 then Some x else None)"

text \<open>\<open>trim().is_empty()\<close>.\<close>

definition trims_empty :: "ustring \<Rightarrow> bool" where
  "trims_empty t = list_all is_whitespace t"

definition blank :: "cell \<Rightarrow> bool" where
  "blank c \<longleftrightarrow> (cl_width c = Narrow \<or> cl_width c = SpacerHead) \<and> trims_empty (cl_text c)"

definition ghost :: "cell \<Rightarrow> bool" where
  "ghost c =
    (let grey = (case st_fg (cl_style c) of
                   Palette i \<Rightarrow> i \<in> {8, 59, 102, 145, 188} \<or> 232 \<le> i \<and> i \<le> 255
                 | Rgb r g b \<Rightarrow> r = g \<and> g = b \<and> 48 \<le> r \<and> r \<le> 208
                 | ColorDefault \<Rightarrow> False)
     in \<not> blank c \<and> (grey \<or> flags_contain (st_flags (cl_style c)) FAINT))"

definition same_text :: "ustring \<Rightarrow> ustring \<Rightarrow> bool" where
  "same_text a b \<longleftrightarrow> a = b \<or> trims_empty a \<and> trims_empty b"

definition drawn_text :: "cell \<Rightarrow> ustring" where
  "drawn_text c = (if cl_text c = [] then [32] else cl_text c)"

text \<open>The loop of \<open>right_prompt\<close>, from the last text down to the input's start.\<close>

fun right_scan :: "cell list \<Rightarrow> nat \<Rightarrow> nat \<Rightarrow> nat \<Rightarrow> nat option" where
  "right_scan cells from_col 0 blanks = None"
| "right_scan cells from_col (Suc i) blanks =
    (if i < from_col then None
     else if (case vec_get cells i of Some c \<Rightarrow> blank c | None \<Rightarrow> False) then
       (if blanks + 1 \<ge> TEXT_GAP then try_u16 (i + (blanks + 1)) else right_scan cells from_col i (blanks + 1))
     else right_scan cells from_col i 0)"

definition right_prompt :: "cell list \<Rightarrow> nat \<Rightarrow> nat \<Rightarrow> nat option" where
  "right_prompt cells from_col cols =
    (case rposition (\<lambda>c. \<not> blank c) cells of
       None \<Rightarrow> None
     | Some l \<Rightarrow>
       if l < cols - RIGHT_PROMPT_EDGE \<or> (case vec_get cells l of Some c \<Rightarrow> ghost c | None \<Rightarrow> False) then None
       else right_scan cells from_col l 0)"

definition last_text :: "cell list \<Rightarrow> nat \<Rightarrow> nat" where
  "last_text cells from_col =
    (case (if from_col \<le> length cells then rposition (\<lambda>c. \<not> blank c) (drop from_col cells) else None) of
       None \<Rightarrow> from_col
     | Some l \<Rightarrow> opt_or (try_u16 (from_col + l + 1)) from_col)"

record right_prompt_seen =
  rp_row :: nat
  rp_start :: nat
  rp_text :: "ustring list"

definition right_prompt_on :: "right_prompt_seen \<Rightarrow> nat \<Rightarrow> cell list \<Rightarrow> nat option" where
  "right_prompt_on rp row cells =
    do {
      shown \<leftarrow> get_range cells (rp_start rp) (rp_start rp + length (rp_text rp));
      before \<leftarrow> (if rp_start rp = 0 then None else vec_get cells (rp_start rp - 1));
      if row = rp_row rp \<and> blank before \<and> list_all (\<lambda>(c, t). cl_text c = t) (zip shown (rp_text rp))
      then Some (rp_start rp) else None
    }"

section \<open>Guesses\<close>

datatype check = CheckNothing | CheckText | CheckTyped

record change =
  ch_col :: nat
  ch_cell :: cell
  ch_check :: check

record guess =
  gu_seq :: nat
  gu_at :: instant
  gu_cursor :: nat
  gu_moves :: bool
  gu_changes :: "change list"

definition evidence :: "guess \<Rightarrow> bool" where
  "evidence g \<longleftrightarrow> gu_moves g \<or> list_ex (\<lambda>c. ch_check c \<noteq> CheckNothing) (gu_changes g)"

record edited =
  ed_row :: nat
  ed_cursor :: nat
  ed_cols :: nat
  ed_limit :: nat
  ed_right_end :: nat
  ed_hidden :: "nat list"
  ed_cells :: "cell list"
  ed_base :: "grid_line option"
  ed_input :: "nat option"
  ed_wrapped_below :: bool

definition ed_cell :: "edited \<Rightarrow> nat \<Rightarrow> cell option" where
  "ed_cell e col = vec_get (ed_cells e) col"

definition ed_shown :: "edited \<Rightarrow> nat \<Rightarrow> ustring option" where
  "ed_shown e col = do { l \<leftarrow> ed_base e; c \<leftarrow> vec_get (ln_cells l) col; Some (cl_text c) }"

definition text_end :: "edited \<Rightarrow> nat" where
  "text_end e =
    (let rest = opt_or (get_range (ed_cells e) (ed_cursor e) (ed_limit e)) [];
         text = takeWhile (\<lambda>c. \<not> ghost c) rest
     in opt_or (do { l \<leftarrow> rposition (\<lambda>c. \<not> blank c) text; try_u16 (ed_cursor e + l + 1) }) (ed_cursor e))"

fun moved_cells :: "edited \<Rightarrow> nat \<Rightarrow> cell list \<Rightarrow> change list option" where
  "moved_cells e col [] = Some []"
| "moved_cells e col (c # cells) =
    (if cl_width c \<noteq> Narrow \<or> length (cl_text c) > 1 then None
     else let differs = (case ed_cell e col of None \<Rightarrow> True | Some was \<Rightarrow> \<not> same_text (cl_text was) (cl_text c));
              chk = (if \<not> blank c \<and> differs then CheckText else CheckNothing)
          in do { rest \<leftarrow> moved_cells e (col + 1) cells; Some (\<lparr>ch_col = col, ch_cell = c, ch_check = chk\<rparr> # rest) })"

definition moved :: "edited \<Rightarrow> nat \<Rightarrow> nat \<Rightarrow> nat \<Rightarrow> change list option" where
  "moved e from_col to_col at_col = do { cells \<leftarrow> get_range (ed_cells e) from_col to_col; moved_cells e at_col cells }"

definition blank_change :: "nat \<Rightarrow> change" where
  "blank_change col = \<lparr>ch_col = col, ch_cell = BLANK, ch_check = CheckNothing\<rparr>"

definition clear_suggestion :: "edited \<Rightarrow> nat \<Rightarrow> change list" where
  "clear_suggestion e from_col =
     map (\<lambda>(col, _). blank_change col)
       (takeWhile (\<lambda>(_, c). ghost c) (zip [from_col..<ed_cols e] (drop from_col (ed_cells e))))"

text \<open>Where the line editor's own keys apply: past the input's start, outside canonical mode.\<close>

definition editing :: "edited \<Rightarrow> 16 word \<Rightarrow> nat option" where
  "editing e modes =
    (case ed_input e of
       None \<Rightarrow> None
     | Some start \<Rightarrow>
       if flags_contain modes CANONICAL then None
       else if ed_base e \<noteq> None \<and> ed_cursor e \<ge> start then Some start else None)"

definition type_guess :: "edited \<Rightarrow> uchar \<Rightarrow> (nat \<times> bool \<times> change list) option" where
  "type_guess e ch =
    (let c = ed_cursor e
     in if sat_add 16 c 1 \<ge> ed_cols e then None
        else do {
          under \<leftarrow> ed_cell e c;
          if cl_width under \<noteq> Narrow then None
          else
            let typed = cell_narrow ch STYLE_DEFAULT;
                covered = same_text (cl_text under) (cl_text typed);
                chk = (if blank typed then CheckNothing
                       else if covered then (if ghost under then CheckTyped else CheckNothing)
                       else CheckText);
                stop = text_end e
            in do {
              shift \<leftarrow> (if stop > c then
                          (if ed_wrapped_below e \<or> sat_add 16 stop 1 \<ge> ed_cols e then None
                           else moved e c stop (sat_add 16 c 1))
                        else Some (if ghost under \<and> \<not> covered then clear_suggestion e (sat_add 16 c 1) else []));
              let hides = (if sat_add 16 (max stop c) 1 \<ge> ed_limit e
                           then map blank_change [ed_limit e..<ed_right_end e] else [])
              in Some (sat_add 16 c 1, False, \<lparr>ch_col = c, ch_cell = typed, ch_check = chk\<rparr> # shift @ hides)
            }
        })"

definition left_guess :: "edited \<Rightarrow> 16 word \<Rightarrow> (nat \<times> bool \<times> change list) option" where
  "left_guess e modes =
    do {
      start \<leftarrow> editing e modes;
      before \<leftarrow> (if ed_cursor e = 0 then None else ed_cell e (ed_cursor e - 1));
      let step = (if cl_width before = SpacerTail then 2 else 1)
      in if step \<le> ed_cursor e \<and> ed_cursor e - step \<ge> start then
           do {
             under \<leftarrow> ed_cell e (ed_cursor e - step);
             if cl_width under = Narrow \<or> cl_width under = Wide then Some (ed_cursor e - step, True, []) else None
           }
         else None
    }"

definition right_guess :: "edited \<Rightarrow> 16 word \<Rightarrow> (nat \<times> bool \<times> change list) option" where
  "right_guess e modes =
    do {
      start \<leftarrow> editing e modes;
      if ed_cursor e \<ge> text_end e then None
      else do {
        under \<leftarrow> ed_cell e (ed_cursor e);
        step \<leftarrow> (case cl_width under of Narrow \<Rightarrow> Some 1 | Wide \<Rightarrow> Some 2 | _ \<Rightarrow> None);
        if sat_add 16 (ed_cursor e) step < ed_cols e then Some (sat_add 16 (ed_cursor e) step, True, []) else None
      }
    }"

text \<open>Where an erase may reach: the input's start, or the leftmost column typed at on this row.\<close>

definition erase_floor :: "edited \<Rightarrow> 16 word \<Rightarrow> (nat \<times> nat) option \<Rightarrow> nat option" where
  "erase_floor e modes floor_at =
    (case editing e modes of
       Some start \<Rightarrow> Some start
     | None \<Rightarrow> (case floor_at of Some (row, col) \<Rightarrow> if row = ed_row e then Some col else None | None \<Rightarrow> None))"

definition erase_guess :: "edited \<Rightarrow> 16 word \<Rightarrow> (nat \<times> nat) option \<Rightarrow> (nat \<times> bool \<times> change list) option" where
  "erase_guess e modes floor_at =
    (let c = ed_cursor e
     in do {
       start \<leftarrow> erase_floor e modes floor_at;
       before \<leftarrow> (if c = 0 then None else ed_cell e (c - 1));
       step \<leftarrow> (case cl_width before of Narrow \<Rightarrow> Some 1 | SpacerTail \<Rightarrow> Some 2 | _ \<Rightarrow> None);
       if \<not> (step \<le> c \<and> c - step \<ge> start) then None
       else do {
         at_to \<leftarrow> (if step = 2 then ed_cell e (c - step) else Some before);
         if step = 2 \<and> cl_width at_to \<noteq> Wide then None
         else
           let to_col = c - step; stop = text_end e
           in if stop > c then
                (if ed_wrapped_below e then None
                 else do {
                   shift \<leftarrow> moved e c stop to_col;
                   if step \<le> stop then Some (to_col, True, shift @ map blank_change [stop - step..<stop]) else None
                 })
              else Some (to_col, True, map blank_change [to_col..<c] @ clear_suggestion e c)
       }
     })"

definition edit_apply :: "edited \<Rightarrow> stroke \<Rightarrow> nat \<Rightarrow> instant \<Rightarrow> 16 word \<Rightarrow> (nat \<times> nat) option \<Rightarrow> guess option" where
  "edit_apply e s seq at modes floor_at =
    do {
      (cursor, moves, changes) \<leftarrow>
        (case s of
           SType ch \<Rightarrow> type_guess e ch
         | SLeft \<Rightarrow> left_guess e modes
         | SRight \<Rightarrow> right_guess e modes
         | SErase \<Rightarrow> erase_guess e modes floor_at);
      Some \<lparr>gu_seq = seq, gu_at = at, gu_cursor = cursor, gu_moves = moves,
            gu_changes = map blank_change (ed_hidden e) @ changes\<rparr>
    }"

section \<open>A guess is the line editor's edit\<close>

definition apply_changes :: "change list \<Rightarrow> cell list \<Rightarrow> cell list" where
  "apply_changes chs cells = fold (\<lambda>ch cells. cells[ch_col ch := ch_cell ch]) chs cells"

lemma apply_changes_simps [simp]:
  "apply_changes [] cells = cells"
  "apply_changes (ch # chs) cells = apply_changes chs (cells[ch_col ch := ch_cell ch])"
  "apply_changes (xs @ ys) cells = apply_changes ys (apply_changes xs cells)"
  by (simp_all add: apply_changes_def)

lemma length_apply_changes [simp]: "length (apply_changes chs cells) = length cells"
  by (induction chs arbitrary: cells) simp_all

lemma apply_changes_other: "i \<notin> ch_col ` set chs \<Longrightarrow> apply_changes chs cells ! i = cells ! i"
  by (induction chs arbitrary: cells) auto

lemma apply_changes_take: "\<forall>ch \<in> set chs. n \<le> ch_col ch \<Longrightarrow> take n (apply_changes chs cells) = take n cells"
  by (induction chs arbitrary: cells) auto

text \<open>Changes to a run of columns write the run.\<close>

lemma apply_changes_run:
  assumes "map ch_col chs = [col..<col + length chs]" and "col + length chs \<le> length cells"
  shows "apply_changes chs cells = take col cells @ map ch_cell chs @ drop (col + length chs) cells"
  using assms
proof (induction chs arbitrary: col cells)
  case (Cons ch chs)
  have split: "[col..<col + length (ch # chs)] = col # [Suc col..<Suc col + length chs]"
    by (simp add: upt_conv_Cons del: upt_Suc)
  then have "ch_col ch = col" "map ch_col chs = [Suc col..<Suc col + length chs]" using Cons.prems(1) by simp_all
  then show ?case using Cons.IH [of "Suc col" "cells[col := ch_cell ch]"] Cons.prems(2)
    by (simp add: take_Suc_conv_app_nth)
qed simp

definition blanks_only :: "change list \<Rightarrow> bool" where
  "blanks_only chs \<longleftrightarrow> (\<forall>ch \<in> set chs. ch_cell ch = BLANK)"

lemma apply_blanks: "blanks_only chs \<Longrightarrow> apply_changes chs cells ! i = cells ! i \<or> apply_changes chs cells ! i = BLANK"
proof (induction chs arbitrary: cells)
  case (Cons ch chs)
  have "(cells[ch_col ch := BLANK]) ! i = cells ! i \<or> (cells[ch_col ch := BLANK]) ! i = BLANK"
    by (cases "i = ch_col ch"; cases "i < length cells") (simp_all add: list_update_beyond)
  then show ?case using Cons.IH [of "cells[ch_col ch := BLANK]"] Cons.prems by (auto simp: blanks_only_def)
qed simp

lemma blank_changes [simp]:
  "ch_col (blank_change col) = col" "ch_cell (blank_change col) = BLANK" "ch_check (blank_change col) = CheckNothing"
  "blanks_only (map blank_change cols)"
  by (simp_all add: blank_change_def blanks_only_def)

lemma apply_hidden:
  "\<forall>col \<in> set cols. col < length cells \<longrightarrow> cells ! col = BLANK \<Longrightarrow> apply_changes (map blank_change cols) cells = cells"
proof (induction cols)
  case (Cons col cols)
  then have "cells[col := BLANK] = cells"
    by (cases "col < length cells") (auto simp: list_update_beyond list_update_same_conv)
  then show ?case using Cons by simp
qed simp

lemma moved_cells_run:
  "moved_cells e col cells = Some chs \<Longrightarrow>
     map ch_cell chs = cells \<and> map ch_col chs = [col..<col + length cells] \<and> length chs = length cells"
proof (induction e col cells arbitrary: chs rule: moved_cells.induct)
  case (2 e col c cells)
  then show ?case
    by (auto simp: Let_def upt_conv_Cons bind_eq_Some_conv simp del: upt_Suc split: if_splits)
qed simp

lemma clear_suggestion_cols: "ch \<in> set (clear_suggestion e col) \<Longrightarrow> col \<le> ch_col ch \<and> ch_col ch < ed_cols e"
  by (auto simp: clear_suggestion_def dest!: set_takeWhileD set_zip_leftD)

lemma clear_suggestion_blanks: "blanks_only (clear_suggestion e col)"
  by (auto simp: clear_suggestion_def blanks_only_def)

text \<open>What \<open>line\<close> promises of the row it makes.\<close>

definition ed_ok :: "edited \<Rightarrow> bool" where
  "ed_ok e \<longleftrightarrow> length (ed_cells e) = ed_cols e \<and> ed_cols e \<le> MAX_COLS \<and> ed_limit e \<le> ed_cols e \<and>
     (\<forall>col \<in> set (ed_hidden e). col < length (ed_cells e) \<longrightarrow> ed_cells e ! col = BLANK) \<and>
     (ed_limit e < ed_cols e \<longrightarrow> ed_cursor e < ed_limit e \<and> blank (ed_cells e ! (ed_limit e - 1))) \<and>
     ed_right_end e = last_text (ed_cells e) (ed_limit e)"

lemma text_end_bounds:
  assumes "ed_ok e"
  shows "ed_cursor e \<le> text_end e" and "text_end e \<noteq> ed_cursor e \<Longrightarrow> text_end e \<le> ed_limit e"
    and "ed_limit e < ed_cols e \<Longrightarrow> text_end e < ed_limit e"
proof -
  define c lim where "c = ed_cursor e" and "lim = ed_limit e"
  define shown where "shown = takeWhile (\<lambda>x. \<not> ghost x) (opt_or (get_range (ed_cells e) c lim) [])"
  have small: "lim \<le> length (ed_cells e)" "length (ed_cells e) \<le> umax 16"
    using assms by (auto simp: ed_ok_def lim_def MAX_COLS_def umax_def)
  have len: "length shown \<le> lim - c"
    using length_takeWhile_le [of "\<lambda>x. \<not> ghost x" "opt_or (get_range (ed_cells e) c lim) []"]
    by (auto simp: shown_def get_range_def opt_or_def split: if_splits)
  have nth: "shown ! i = ed_cells e ! (c + i)" if "i < length shown" for i
  proof -
    have "shown ! i = opt_or (get_range (ed_cells e) c lim) [] ! i" using that by (simp add: shown_def takeWhile_nth)
    moreover have "get_range (ed_cells e) c lim \<noteq> None" using that by (auto simp: shown_def opt_or_def split: option.splits)
    moreover have "c + i < lim" using that len by simp
    ultimately show ?thesis using small by (auto simp: get_range_def opt_or_def split: if_splits)
  qed
  have text_end_eq: "text_end e = (case rposition (\<lambda>x. \<not> blank x) shown of None \<Rightarrow> c | Some l \<Rightarrow> opt_or (try_u16 (c + l + 1)) c)"
    by (auto simp: text_end_def shown_def c_def lim_def Let_def opt_or_def split: option.splits)
  have ends: "text_end e = c \<or> (\<exists>l < length shown. text_end e = c + l + 1 \<and> \<not> blank (ed_cells e ! (c + l)))"
    using len small by (auto simp: text_end_eq rposition_Some nth opt_or_def try_u16_def split: option.splits)
  then show "ed_cursor e \<le> text_end e" by (auto simp: c_def)
  show "text_end e \<le> ed_limit e" if "text_end e \<noteq> ed_cursor e" using ends that len by (auto simp: c_def lim_def)
  show "text_end e < ed_limit e" if lt: "ed_limit e < ed_cols e"
  proof -
    have "c < lim" "blank (ed_cells e ! (lim - 1))" using assms lt by (simp_all add: ed_ok_def c_def lim_def)
    have "text_end e \<noteq> lim"
    proof
      assume "text_end e = lim"
      then obtain l where "c + l = lim - 1" "\<not> blank (ed_cells e ! (c + l))" using ends \<open>c < lim\<close> by force
      then show False using \<open>blank (ed_cells e ! (lim - 1))\<close> by simp
    qed
    moreover have "text_end e \<le> lim" using ends len \<open>c < lim\<close> by auto
    ultimately show ?thesis by (simp add: lim_def)
  qed
qed

text \<open>
  The effect of an edit on a row whose text ends at \<open>stop\<close>: the text reads as the editor leaves it up to its new
  end, and past it a cell is as it was or blank.
\<close>

definition edits_to :: "edited \<Rightarrow> change list \<Rightarrow> cell list \<Rightarrow> bool" where
  "edits_to e chs new \<longleftrightarrow>
    (let cells = apply_changes chs (ed_cells e)
     in take (length new) cells = new \<and> length cells = ed_cols e \<and>
        (\<forall>i. length new \<le> i \<longrightarrow> i < ed_cols e \<longrightarrow> cells ! i = ed_cells e ! i \<or> cells ! i = BLANK))"

lemma edits_toI:
  assumes "length (ed_cells e) = ed_cols e" and "map ch_col run = [col..<col + length run]" and "col + length run = n" and "n \<le> ed_cols e"
    and "blanks_only rest" and "\<forall>ch \<in> set rest. n \<le> ch_col ch" and "new = take col (ed_cells e) @ map ch_cell run"
  shows "edits_to e (run @ rest) new"
proof -
  have run: "apply_changes run (ed_cells e) = new @ drop n (ed_cells e)"
    using apply_changes_run [OF assms(2), of "ed_cells e"] assms by simp
  have len: "length new = n" using assms by simp
  have "take n (apply_changes rest (new @ drop n (ed_cells e))) = new"
    using apply_changes_take [OF assms(6), of "new @ drop n (ed_cells e)"] len by simp
  moreover have "apply_changes rest (new @ drop n (ed_cells e)) ! i = ed_cells e ! i \<or>
      apply_changes rest (new @ drop n (ed_cells e)) ! i = BLANK" if "n \<le> i" "i < ed_cols e" for i
    using apply_blanks [OF assms(5), of "new @ drop n (ed_cells e)" i] that len assms(1) by (simp add: nth_append)
  ultimately show ?thesis using assms(1,4) by (simp add: edits_to_def run len)
qed

lemma moved_run:
  assumes "moved e a b col = Some chs"
  shows "a \<le> b" "map ch_cell chs = take (b - a) (drop a (ed_cells e))" "map ch_col chs = [col..<col + length chs]"
    "length chs = b - a" "b \<le> length (ed_cells e)"
  using assms moved_cells_run [of e col]
  by (auto simp: moved_def get_range_def bind_eq_Some_conv split: if_splits)

lemma ed_small: "ed_ok e \<Longrightarrow> ed_cols e < umax 16"
  by (simp add: ed_ok_def MAX_COLS_def umax_def)

lemma last_text_end [simp]: "length cells \<le> n \<Longrightarrow> last_text cells n = n"
  by (simp add: last_text_def)

lemma type_edits:
  assumes ok: "ed_ok e" and g: "type_guess e ch = Some (cur, moves, chs)"
  shows "edits_to e chs (take (ed_cursor e) (ed_cells e) @ cell_narrow ch STYLE_DEFAULT #
      drop (ed_cursor e) (take (text_end e) (ed_cells e))) \<and> cur = ed_cursor e + 1 \<and> cur < ed_cols e"
proof -
  define c stop where "c = ed_cursor e" and "stop = text_end e"
  note bounds = text_end_bounds [OF ok, folded c_def stop_def]
  have len: "length (ed_cells e) = ed_cols e" using ok by (simp add: ed_ok_def)
  have c: "sat_add 16 c 1 = c + 1" "c + 1 < ed_cols e"
    using g ed_small [OF ok] by (auto simp: type_guess_def Let_def c_def sat_add_def split: if_splits)
  have stop: "sat_add 16 stop 1 = stop + 1" "sat_add 16 (max stop c) 1 = stop + 1" "max stop c = stop"
    using bounds(1,2) ok c(2) ed_small [OF ok] by (cases "stop = c"; force simp: sat_add_def ed_ok_def max_def)+
  obtain chk shift where cur: "cur = c + 1"
    and shift: "stop > c \<and> moved e c stop (c + 1) = Some shift \<and> stop + 1 < ed_cols e \<or>
          stop = c \<and> (shift = [] \<or> shift = clear_suggestion e (c + 1))"
    and chs: "chs = \<lparr>ch_col = c, ch_cell = cell_narrow ch STYLE_DEFAULT, ch_check = chk\<rparr> # shift @
        (if stop + 1 \<ge> ed_limit e then map blank_change [ed_limit e..<ed_right_end e] else [])"
    using g bounds(1) unfolding type_guess_def Let_def c_def [symmetric] stop_def [symmetric] c(1) stop
    by (auto simp: bind_eq_Some_conv split: if_splits)
  define hides where "hides = (if stop + 1 \<ge> ed_limit e then map blank_change [ed_limit e..<ed_right_end e] else [])"
  have hides: "blanks_only hides" "\<forall>x \<in> set hides. stop + 1 \<le> ch_col x"
    using bounds(3) ok by (auto simp: hides_def blanks_only_def ed_ok_def le_less)
  have rest: "drop c (take stop (ed_cells e)) = take (stop - c) (drop c (ed_cells e))" by (simp add: drop_take)
  define typed where "typed = \<lparr>ch_col = c, ch_cell = cell_narrow ch STYLE_DEFAULT, ch_check = chk\<rparr>"
  have "edits_to e chs (take c (ed_cells e) @ cell_narrow ch STYLE_DEFAULT # take (stop - c) (drop c (ed_cells e)))"
  proof (cases "stop > c")
    case True
    then have run: "moved e c stop (c + 1) = Some shift" "stop + 1 < ed_cols e" using shift by auto
    note m = moved_run [OF run(1)]
    have "map ch_col (typed # shift) = [c..<c + length (typed # shift)]"
      using m by (simp add: typed_def upt_conv_Cons del: upt_Suc)
    then have "edits_to e ((typed # shift) @ hides) (take c (ed_cells e) @ map ch_cell (typed # shift))"
      using hides run m by (intro edits_toI [OF len, where col = c and n = "stop + 1"]) simp_all
    then show ?thesis using m(2) by (simp add: chs typed_def hides_def)
  next
    case False
    then have "stop = c" "shift = [] \<or> shift = clear_suggestion e (c + 1)" using shift by auto
    then have "blanks_only (shift @ hides)" "\<forall>x \<in> set (shift @ hides). c + 1 \<le> ch_col x"
      using hides clear_suggestion_blanks clear_suggestion_cols by (auto simp: blanks_only_def)
    then have "edits_to e ([typed] @ shift @ hides) (take c (ed_cells e) @ map ch_cell [typed])"
      using c(2) by (intro edits_toI [OF len, where col = c and n = "c + 1"]) (simp_all add: typed_def)
    then show ?thesis using \<open>stop = c\<close> by (simp add: chs typed_def hides_def)
  qed
  then show ?thesis using cur c(2) rest by (simp add: c_def stop_def)
qed

lemma erase_edits:
  assumes ok: "ed_ok e" and g: "erase_guess e modes floor_at = Some (cur, moves, chs)"
  obtains n start where "n = (if cl_width (ed_cells e ! (ed_cursor e - 1)) = SpacerTail then 2 else 1)"
    and "n \<le> ed_cursor e" and "ed_cursor e \<le> ed_cols e" and "cur = ed_cursor e - n" and "erase_floor e modes floor_at = Some start" and "start \<le> cur"
    and "edits_to e chs (take (ed_cursor e - n) (ed_cells e) @ drop (ed_cursor e) (take (text_end e) (ed_cells e)))"
proof -
  define c stop where "c = ed_cursor e" and "stop = text_end e"
  note bounds = text_end_bounds [OF ok, folded c_def stop_def]
  have len: "length (ed_cells e) = ed_cols e" using ok by (simp add: ed_ok_def)
  define n :: nat where "n = (if cl_width (ed_cells e ! (c - 1)) = SpacerTail then 2 else 1)"
  note unfold = erase_guess_def [of e modes floor_at, folded c_def stop_def]
  obtain start before where a: "erase_floor e modes floor_at = Some start" "c \<noteq> 0" "ed_cell e (c - 1) = Some before"
    using g by (cases "erase_floor e modes floor_at"; cases "c = 0"; cases "ed_cell e (c - 1)") (simp_all add: unfold)
  have before: "before = ed_cells e ! (c - 1)" and c: "c \<le> ed_cols e"
    using a len by (auto simp: ed_cell_def vec_get_def split: if_splits)
  have step: "(case cl_width before of Narrow \<Rightarrow> Some 1 | SpacerTail \<Rightarrow> Some 2 | _ \<Rightarrow> None) = Some n"
    using g a by (cases "cl_width before") (simp_all add: unfold n_def before)
  have le: "n \<le> c" "start \<le> c - n"
    using g a step by (auto simp: unfold split: if_splits)
  define at_to where "at_to = (if n = 2 then ed_cell e (c - n) else Some before)"
  have g': "(do { t \<leftarrow> at_to;
         if n = 2 \<and> cl_width t \<noteq> Wide then None
         else if stop > c then
                (if ed_wrapped_below e then None
                 else do {
                   shift \<leftarrow> moved e c stop (c - n);
                   if n \<le> stop then Some (c - n, True, shift @ map blank_change [stop - n..<stop]) else None
                 })
              else Some (c - n, True, map blank_change [c - n..<c] @ clear_suggestion e c) }) = Some (cur, moves, chs)"
    using g by (simp only: unfold Let_def a step le at_to_def Option.bind.simps(2) if_False simp_thms)
  then have cur: "cur = c - n"
    by (cases at_to; cases "stop > c"; cases "moved e c stop (c - n)") (auto split: if_splits)
  have chs: "stop > c \<and> (\<exists>shift. moved e c stop (c - n) = Some shift \<and> chs = shift @ map blank_change [stop - n..<stop]) \<or>
       stop = c \<and> chs = map blank_change [c - n..<c] @ clear_suggestion e c"
    using g' bounds(1) by (cases at_to; cases "stop > c"; cases "moved e c stop (c - n)") (auto split: if_splits)
  note start = a(1) le(2) and n = le(1)
  have "edits_to e chs (take (c - n) (ed_cells e) @ take (stop - c) (drop c (ed_cells e)))"
  proof (cases "stop > c")
    case True
    then obtain shift where shift: "moved e c stop (c - n) = Some shift"
      and chs': "chs = shift @ map blank_change [stop - n..<stop]" using chs by auto
    note m = moved_run [OF shift]
    have "edits_to e (shift @ map blank_change [stop - n..<stop]) (take (c - n) (ed_cells e) @ map ch_cell shift)"
      using m n len by (intro edits_toI [OF len, where col = "c - n" and n = "stop - n"]) auto
    then show ?thesis using m(2) by (simp add: chs')
  next
    case False
    then have chs': "stop = c" "chs = map blank_change [c - n..<c] @ clear_suggestion e c" using chs by auto
    have "edits_to e ([] @ chs) (take (c - n) (ed_cells e) @ map ch_cell [])"
    proof (rule edits_toI [OF len, where col = "c - n" and n = "c - n"])
      show "blanks_only chs" using clear_suggestion_blanks by (auto simp: chs' blanks_only_def)
      show "\<forall>ch \<in> set chs. c - n \<le> ch_col ch" by (auto simp: chs' dest!: clear_suggestion_cols)
    qed (use c in simp_all)
    then show ?thesis using chs' by simp
  qed
  then show ?thesis using that [of n start] n start c cur by (simp add: n_def c_def stop_def drop_take)
qed

text \<open>The line editor the guesses stand for: the row's text up to its end, and the cursor in it.\<close>

definition columns_before :: "cell list \<Rightarrow> nat \<Rightarrow> nat" where
  "columns_before txt c = (if cl_width (txt ! (c - 1)) = SpacerTail then 2 else 1)"

definition columns_after :: "cell list \<Rightarrow> nat \<Rightarrow> nat" where
  "columns_after txt c = width_columns (cl_width (txt ! c))"

fun editor :: "stroke \<Rightarrow> cell list \<times> nat \<Rightarrow> cell list \<times> nat" where
  "editor (SType ch) (txt, c) = (take c txt @ cell_narrow ch STYLE_DEFAULT # drop c txt, c + 1)"
| "editor SLeft (txt, c) = (txt, c - columns_before txt c)"
| "editor SRight (txt, c) = (txt, c + columns_after txt c)"
| "editor SErase (txt, c) = (take (c - columns_before txt c) txt @ drop c txt, c - columns_before txt c)"

lemma edits_nothing: "length (ed_cells e) = ed_cols e \<Longrightarrow> edits_to e [] (take n (ed_cells e))"
  by (cases "n \<le> length (ed_cells e)") (simp_all add: edits_to_def)

lemma edits_hidden: "ed_ok e \<Longrightarrow> edits_to e (map blank_change (ed_hidden e) @ chs) new = edits_to e chs new"
  by (simp add: edits_to_def ed_ok_def apply_hidden)

text \<open>What a guess changes turns the row's text into the text the editor leaves.\<close>

lemma guess_is_the_edit:
  assumes ok: "ed_ok e" and g: "edit_apply e s seq at modes floor_at = Some g"
  shows "edits_to e (gu_changes g) (fst (editor s (take (text_end e) (ed_cells e), ed_cursor e))) \<and>
    gu_cursor g = snd (editor s (take (text_end e) (ed_cells e), ed_cursor e)) \<and>
    (s = SLeft \<longrightarrow> (\<exists>start. editing e modes = Some start \<and> start \<le> gu_cursor g)) \<and>
    (s = SErase \<longrightarrow> (\<exists>start. erase_floor e modes floor_at = Some start \<and> start \<le> gu_cursor g))"
proof -
  have len: "length (ed_cells e) = ed_cols e" using ok by (simp add: ed_ok_def)
  note ce = text_end_bounds(1) [OF ok]
  obtain cur moves chs where r: "(case s of SType ch \<Rightarrow> type_guess e ch | SLeft \<Rightarrow> left_guess e modes
         | SRight \<Rightarrow> right_guess e modes | SErase \<Rightarrow> erase_guess e modes floor_at) = Some (cur, moves, chs)"
    and g': "gu_cursor g = cur" "gu_changes g = map blank_change (ed_hidden e) @ chs"
    using g by (auto simp: edit_apply_def bind_eq_Some_conv)
  show ?thesis
  proof (cases s)
    case (SType ch)
    then have t: "type_guess e ch = Some (cur, moves, chs)" using r by simp
    show ?thesis using type_edits [OF ok t] SType ce by (simp add: g' edits_hidden [OF ok])
  next
    case SLeft
    then have "chs = []" "ed_cursor e \<noteq> 0" "ed_cursor e - 1 < length (ed_cells e)"
      "\<exists>start. editing e modes = Some start \<and> start \<le> cur"
      "cur = ed_cursor e - (if cl_width (ed_cells e ! (ed_cursor e - 1)) = SpacerTail then 2 else 1)"
      using r by (auto simp: left_guess_def bind_eq_Some_conv ed_cell_def vec_get_def Let_def split: if_splits)
    then show ?thesis using SLeft ce edits_nothing [OF len] edits_hidden [OF ok, of "[]"] by (simp add: g' edits_hidden [OF ok] columns_before_def)
  next
    case SRight
    then have "chs = []" "ed_cursor e < text_end e" "ed_cursor e < length (ed_cells e)"
      "cur = ed_cursor e + width_columns (cl_width (ed_cells e ! ed_cursor e))"
      using r ed_small [OF ok] len
      by (auto simp: right_guess_def bind_eq_Some_conv ed_cell_def vec_get_def sat_add_def split: if_splits cell_width.splits)
    then show ?thesis using SRight edits_nothing [OF len] edits_hidden [OF ok, of "[]"] by (simp add: g' edits_hidden [OF ok] columns_after_def)
  next
    case SErase
    then have "erase_guess e modes floor_at = Some (cur, moves, chs)" using r by simp
    then obtain n start where n: "n = (if cl_width (ed_cells e ! (ed_cursor e - 1)) = SpacerTail then 2 else 1)"
      and b: "n \<le> ed_cursor e" "ed_cursor e \<le> ed_cols e" "cur = ed_cursor e - n" "erase_floor e modes floor_at = Some start" "start \<le> cur"
      and ed: "edits_to e chs (take (ed_cursor e - n) (ed_cells e) @ drop (ed_cursor e) (take (text_end e) (ed_cells e)))"
      by (rule erase_edits [OF ok])
    have "columns_before (take (text_end e) (ed_cells e)) (ed_cursor e) = n"
      using n b(1) ce by (auto simp: columns_before_def split: if_splits)
    moreover have "min (ed_cursor e - n) (text_end e) = ed_cursor e - n" using ce by simp
    ultimately show ?thesis using SErase ed b by (simp add: g' edits_hidden [OF ok])
  qed
qed

section \<open>Bounds of the right prompt\<close>

lemma right_scan_bound: "right_scan cells from_col n blanks = Some s \<Longrightarrow> s \<le> n + blanks"
  by (induction cells from_col n blanks rule: right_scan.induct) (force simp: try_u16_def split: if_splits)+

lemma right_prompt_bound: "right_prompt cells from_col cols = Some s \<Longrightarrow> s \<le> length cells"
  using right_scan_bound [of cells from_col _ 0 s]
  by (fastforce simp: right_prompt_def rposition_Some split: option.splits if_splits)

lemma right_prompt_on_bound: "right_prompt_on rp row cells = Some s \<Longrightarrow> s \<le> length cells"
  by (auto simp: right_prompt_on_def get_range_def bind_eq_Some_conv split: if_splits)

text \<open>A typed character is never drawn as a suggestion.\<close>

lemma typed_not_ghost: "\<not> ghost (cell_narrow ch STYLE_DEFAULT)"
  by (simp add: ghost_def cell_narrow_def STYLE_DEFAULT_def flags_contain_def FAINT_def)

definition typed_plain :: "change list \<Rightarrow> bool" where
  "typed_plain chs \<longleftrightarrow> (\<forall>ch \<in> set chs. ch_check ch = CheckTyped \<longrightarrow> \<not> ghost (ch_cell ch))"

lemma moved_cells_plain: "moved_cells e col cells = Some chs \<Longrightarrow> typed_plain chs"
proof (induction e col cells arbitrary: chs rule: moved_cells.induct)
  case (2 e col c cells)
  then show ?case by (auto simp: Let_def typed_plain_def bind_eq_Some_conv split: if_splits)
qed (simp add: typed_plain_def)

lemma moved_plain: "moved e a b col = Some chs \<Longrightarrow> typed_plain chs"
  by (auto simp: moved_def bind_eq_Some_conv intro: moved_cells_plain)

lemma plain_simps [simp]:
  "typed_plain []" "typed_plain (xs @ ys) \<longleftrightarrow> typed_plain xs \<and> typed_plain ys" "typed_plain (map blank_change cols)"
  "typed_plain (clear_suggestion e col)"
  by (auto simp: typed_plain_def clear_suggestion_def)

lemma edit_apply_plain:
  assumes "edit_apply e s seq at modes floor_at = Some g"
  shows "typed_plain (gu_changes g)"
proof -
  obtain cur moves chs where r: "(case s of SType ch \<Rightarrow> type_guess e ch | SLeft \<Rightarrow> left_guess e modes
         | SRight \<Rightarrow> right_guess e modes | SErase \<Rightarrow> erase_guess e modes floor_at) = Some (cur, moves, chs)"
    and g: "gu_changes g = map blank_change (ed_hidden e) @ chs"
    using assms by (auto simp: edit_apply_def bind_eq_Some_conv)
  have cons: "typed_plain (\<lparr>ch_col = c, ch_cell = cell_narrow ch STYLE_DEFAULT, ch_check = k\<rparr> # xs) = typed_plain xs" for c ch k xs
    using typed_not_ghost by (auto simp: typed_plain_def)
  have "typed_plain chs"
  proof (cases s)
    case (SType ch)
    then show ?thesis using r by (auto simp: type_guess_def Let_def bind_eq_Some_conv cons moved_plain split: if_splits)
  next
    case SErase
    then show ?thesis using r
      by (auto simp: erase_guess_def Let_def bind_eq_Some_conv moved_plain split: if_splits)
  qed (use r in \<open>auto simp: left_guess_def right_guess_def Let_def bind_eq_Some_conv split: if_splits\<close>)
  then show ?thesis by (simp add: g)
qed

end
