(* ===== verification/Predict.thy ===== *)
theory Predict
  imports Predict_Line
begin

text \<open>
  Speculative local echo (\<open>slopty-predict/src/lib.rs\<close>): the predictor's whole state, the guess made for a
  key, the check of the acknowledged guesses against a frame, and when the guesses are drawn.

  Every operation takes the time as an argument, as the code does.
\<close>

section \<open>The predictor\<close>

datatype policy = PolicyNever | PolicyAdaptive | PolicyAlways

definition DEFAULT_REFRESH :: duration where "DEFAULT_REFRESH = 16666667"
definition VERY_SLOW_LINK :: duration where "VERY_SLOW_LINK = from_millis 120"
definition STALE :: duration where "STALE = from_millis 1500"
definition MUTE :: duration where "MUTE = from_secs 2"
definition WARMUP_HITS :: nat where "WARMUP_HITS = 2"
definition MAX_PENDING :: nat where "MAX_PENDING = 64"
definition MARK_LINK :: duration where "MARK_LINK = from_millis 80"
definition UNMARK_LINK :: duration where "UNMARK_LINK = from_millis 50"
definition GLITCH :: duration where "GLITCH = from_millis 250"
definition GLITCH_REPAIR :: nat where "GLITCH_REPAIR = 10"

record prediction =
  pn_seq :: nat
  pn_row :: nat
  pn_col :: nat
  pn_text :: ustring
  pn_at :: instant

record reconciled =
  rc_hits :: nat
  rc_misses :: nat
  rc_pending :: nat

record base_row =
  br_row :: nat
  br_line :: grid_line
  br_wrapped_below :: bool

record predictor =
  pd_policy :: policy
  pd_guesses :: "guess list"
  pd_row :: nat
  pd_origin :: "(nat \<times> ustring option) list"
  pd_origin_cursor :: nat
  pd_drawn :: "prediction list"
  pd_base :: "base_row option"
  pd_right :: "right_prompt_seen option"
  pd_floor :: "(nat \<times> nat) option"
  pd_rtt :: "duration option"
  pd_slow_marks :: bool
  pd_unsure :: nat
  pd_refresh :: duration
  pd_hits :: nat
  pd_muted_until :: "instant option"
  pd_numbering :: "nat option"
  pd_acked :: nat
  pd_sent :: nat
  pd_barrier :: "nat option"
  pd_interrupted :: bool
  pd_tentative :: bool

definition predictor_new :: "policy \<Rightarrow> predictor" where
  "predictor_new pol = \<lparr>pd_policy = pol, pd_guesses = [], pd_row = 0, pd_origin = [], pd_origin_cursor = 0,
     pd_drawn = [], pd_base = None, pd_right = None, pd_floor = None, pd_rtt = None, pd_slow_marks = False,
     pd_unsure = 0, pd_refresh = DEFAULT_REFRESH, pd_hits = 0, pd_muted_until = None, pd_numbering = None,
     pd_acked = 0, pd_sent = 0, pd_barrier = None, pd_interrupted = False, pd_tentative = True\<rparr>"

definition set_policy :: "policy \<Rightarrow> predictor \<Rightarrow> predictor" where
  "set_policy pol p = p\<lparr>pd_policy := pol\<rparr>"

definition set_rtt :: "duration option \<Rightarrow> predictor \<Rightarrow> predictor" where
  "set_rtt rtt p = p\<lparr>pd_rtt := rtt,
     pd_slow_marks := (case rtt of
        None \<Rightarrow> False
      | Some r \<Rightarrow> if r \<ge> MARK_LINK then True else if r < UNMARK_LINK then False else pd_slow_marks p)\<rparr>"

definition set_refresh :: "duration \<Rightarrow> predictor \<Rightarrow> predictor" where
  "set_refresh period p = p\<lparr>pd_refresh := period\<rparr>"

definition slow_link :: "predictor \<Rightarrow> duration" where
  "slow_link p = opt_or (checked_div (pd_refresh p) 2) (pd_refresh p)"

definition oldest_waited :: "instant \<Rightarrow> duration \<Rightarrow> predictor \<Rightarrow> bool" where
  "oldest_waited now limit p = (case pd_guesses p of [] \<Rightarrow> False | g # _ \<Rightarrow> since now (gu_at g) > limit)"

definition visible :: "instant \<Rightarrow> predictor \<Rightarrow> bool" where
  "visible now p =
    (if pd_tentative p then False
     else if pd_guesses p = [] then False
     else if oldest_waited now STALE p then False
     else case pd_policy p of
       PolicyNever \<Rightarrow> False
     | PolicyAlways \<Rightarrow> True
     | PolicyAdaptive \<Rightarrow>
       if (case pd_muted_until p of None \<Rightarrow> False | Some until \<Rightarrow> now < until) then False
       else case pd_rtt p of
         None \<Rightarrow> False
       | Some rtt \<Rightarrow> rtt \<ge> VERY_SLOW_LINK \<or> rtt \<ge> slow_link p \<and> pd_hits p \<ge> WARMUP_HITS)"

definition marked :: "instant \<Rightarrow> predictor \<Rightarrow> bool" where
  "marked now p \<longleftrightarrow> pd_slow_marks p \<or> pd_unsure p > 0 \<or> oldest_waited now GLITCH p"

definition predicted_cursor :: "cursor \<Rightarrow> predictor \<Rightarrow> cursor" where
  "predicted_cursor real p =
    (if pd_guesses p \<noteq> [] \<and> pd_row p = cu_row real then real\<lparr>cu_col := gu_cursor (last (pd_guesses p))\<rparr> else real)"

section \<open>Ending an epoch\<close>

definition flush :: "predictor \<Rightarrow> predictor" where
  "flush p = p\<lparr>pd_guesses := [], pd_origin := [], pd_drawn := [], pd_floor := None,
     pd_barrier := (if pd_sent p > pd_acked p
                    then Some (case pd_barrier p of None \<Rightarrow> pd_sent p | Some b \<Rightarrow> max b (pd_sent p))
                    else pd_barrier p)\<rparr>"

definition interrupt :: "predictor \<Rightarrow> predictor" where
  "interrupt p = (flush p)\<lparr>pd_interrupted := True\<rparr>"

definition hold_until :: "nat \<Rightarrow> predictor \<Rightarrow> predictor" where
  "hold_until seq p = (flush p)\<lparr>pd_barrier := Some seq, pd_tentative := True\<rparr>"

definition miss :: "instant \<Rightarrow> predictor \<Rightarrow> predictor" where
  "miss now p =
    (let p = (if \<not> pd_tentative p
              then p\<lparr>pd_hits := 0, pd_unsure := GLITCH_REPAIR, pd_muted_until := inst_add now MUTE\<rparr> else p)
     in hold_until (pd_sent p) p)"

section \<open>The cells drawn\<close>

definition place :: "prediction \<Rightarrow> prediction list \<Rightarrow> prediction list" where
  "place cell drawn =
    (if list_ex (\<lambda>p. pn_col p = pn_col cell) drawn
     then map (\<lambda>p. if pn_col p = pn_col cell then cell else p) drawn
     else drawn @ [cell])"

definition guess_cells :: "nat \<Rightarrow> guess \<Rightarrow> prediction list" where
  "guess_cells row g = map (\<lambda>ch. \<lparr>pn_seq = gu_seq g, pn_row = row, pn_col = ch_col ch, pn_text = drawn_text (ch_cell ch),
     pn_at = gu_at g\<rparr>) (gu_changes g)"

definition redraw :: "predictor \<Rightarrow> predictor" where
  "redraw p = p\<lparr>pd_drawn := sort_key pn_col (fold place (concat (map (guess_cells (pd_row p)) (pd_guesses p))) [])\<rparr>"

section \<open>A key\<close>

definition all_changes :: "predictor \<Rightarrow> change list" where
  "all_changes p = concat (map gu_changes (pd_guesses p))"

text \<open>\<open>line\<close>: the row the next key edits, the last frame's with the guesses in flight applied.\<close>

definition right_shown :: "base_row option \<Rightarrow> nat \<Rightarrow> nat \<Rightarrow> nat \<Rightarrow> nat \<Rightarrow> predictor \<Rightarrow> (nat \<times> nat) option" where
  "right_shown base row cur from_col cols p =
    (case base of
       None \<Rightarrow> None
     | Some b \<Rightarrow>
       let cells = ln_cells (br_line b);
           seen = (case pd_right p of None \<Rightarrow> None | Some r \<Rightarrow> right_prompt_on r row cells);
           start = (case seen of Some s \<Rightarrow> Some s | None \<Rightarrow> right_prompt cells from_col cols)
       in case start of None \<Rightarrow> None | Some s \<Rightarrow> if s > cur then Some (s, last_text cells s) else None)"

definition edit_row :: "cursor \<Rightarrow> predictor \<Rightarrow> nat" where
  "edit_row real p = (if pd_guesses p = [] then cu_row real else pd_row p)"

definition edit_cursor :: "cursor \<Rightarrow> predictor \<Rightarrow> nat" where
  "edit_cursor real p = (if pd_guesses p = [] then cu_col real else gu_cursor (last (pd_guesses p)))"

definition edit_base :: "nat \<Rightarrow> predictor \<Rightarrow> base_row option" where
  "edit_base row p = (case pd_base p of None \<Rightarrow> None | Some b \<Rightarrow> if br_row b = row then Some b else None)"

definition edit_cells :: "nat \<Rightarrow> base_row option \<Rightarrow> predictor \<Rightarrow> cell list" where
  "edit_cells cols base p =
     apply_changes (all_changes p) (vec_resize cols BLANK (case base of None \<Rightarrow> [] | Some b \<Rightarrow> ln_cells (br_line b)))"

text \<open>Where the text must stop: before the right prompt, or, once the guesses touch it, at the row's end with the prompt hidden.\<close>

definition right_fit :: "(nat \<times> nat) option \<Rightarrow> nat \<Rightarrow> cell list \<Rightarrow> predictor \<Rightarrow> nat \<times> nat list \<times> cell list" where
  "right_fit shown cols cells p =
    (case shown of
       None \<Rightarrow> (cols, [], cells)
     | Some (start, stop) \<Rightarrow>
       if start > 0 \<and> (case vec_get cells (start - 1) of Some c \<Rightarrow> \<not> blank c | None \<Rightarrow> False)
       then let hidden = filter (\<lambda>col. \<not> list_ex (\<lambda>c. ch_col c = col) (all_changes p)) [start..<stop]
            in (cols, hidden, apply_changes (map blank_change hidden) cells)
       else (start, [], cells))"

definition edit_line :: "cursor \<Rightarrow> nat \<Rightarrow> predictor \<Rightarrow> edited" where
  "edit_line real cols p =
    (let row = edit_row real p;
         cur = edit_cursor real p;
         base = edit_base row p;
         input = (case base of None \<Rightarrow> None | Some b \<Rightarrow> input_col (ln_mark (br_line b)))
     in case right_fit (right_shown base row cur (opt_or input (cu_col real)) cols p) cols (edit_cells cols base p) p of
          (limit, hidden, cells) \<Rightarrow>
            \<lparr>ed_row = row, ed_cursor = cur, ed_cols = cols, ed_limit = limit, ed_right_end = last_text cells limit,
             ed_hidden = hidden, ed_cells = cells, ed_base = map_option br_line base, ed_input = input,
             ed_wrapped_below = (case base of None \<Rightarrow> False | Some b \<Rightarrow> br_wrapped_below b)\<rparr>)"

fun is_type :: "stroke \<Rightarrow> bool" where
  "is_type (SType _) = True"
| "is_type _ = False"

text \<open>What a guess that was made leaves in the state, and the cell it draws for its key.\<close>

definition add_origin :: "edited \<Rightarrow> change list \<Rightarrow> (nat \<times> ustring option) list \<Rightarrow> (nat \<times> ustring option) list" where
  "add_origin e chs origin =
     fold (\<lambda>ch origin. if list_ex (\<lambda>(col, _). col = ch_col ch) origin then origin
                        else origin @ [(ch_col ch, ed_shown e (ch_col ch))]) chs origin"

definition typed_floor :: "edited \<Rightarrow> (nat \<times> nat) option \<Rightarrow> (nat \<times> nat) option" where
  "typed_floor e fl =
    Some (case fl of
       Some (row, col) \<Rightarrow> if row = ed_row e then (row, min col (ed_cursor e)) else (ed_row e, ed_cursor e)
     | None \<Rightarrow> (ed_row e, ed_cursor e))"

definition made_cell :: "edited \<Rightarrow> stroke \<Rightarrow> guess \<Rightarrow> nat \<Rightarrow> instant \<Rightarrow> prediction option" where
  "made_cell e s g seq now =
    do {
      col \<leftarrow> (case s of SType _ \<Rightarrow> Some (ed_cursor e) | SErase \<Rightarrow> Some (gu_cursor g) | _ \<Rightarrow> None);
      ch \<leftarrow> find (\<lambda>c. ch_col c = col) (rev (gu_changes g));
      Some \<lparr>pn_seq = seq, pn_row = ed_row e, pn_col = ch_col ch, pn_text = drawn_text (ch_cell ch), pn_at = now\<rparr>
    }"

definition add_guess :: "edited \<Rightarrow> stroke \<Rightarrow> guess \<Rightarrow> predictor \<Rightarrow> predictor" where
  "add_guess e s g p =
    (let p = (if pd_guesses p = []
              then p\<lparr>pd_row := ed_row e, pd_origin_cursor := ed_cursor e, pd_origin := []\<rparr> else p);
         p = p\<lparr>pd_origin := add_origin e (gu_changes g) (pd_origin p)\<rparr>;
         p = (if is_type s then p\<lparr>pd_floor := typed_floor e (pd_floor p)\<rparr> else p)
     in redraw (p\<lparr>pd_guesses := pd_guesses p @ [g]\<rparr>))"

definition on_key :: "key_event \<Rightarrow> cursor \<Rightarrow> nat \<Rightarrow> 16 word \<Rightarrow> instant \<Rightarrow> predictor \<Rightarrow> predictor \<times> prediction option" where
  "on_key key cu cols modes now p =
    (if pd_policy p = PolicyNever \<or> ke_action key = Release then (p, None)
     else
       let p = p\<lparr>pd_sent := max (pd_sent p) (ke_seq key)\<rparr>
       in if pd_interrupted p then (hold_until (ke_seq key) (p\<lparr>pd_interrupted := False\<rparr>), None)
          else case stroke_of key of
            None \<Rightarrow> (hold_until (ke_seq key) p, None)
          | Some s \<Rightarrow>
            if (case pd_barrier p of None \<Rightarrow> False | Some b \<Rightarrow> pd_acked p < b)
            then (p\<lparr>pd_barrier := Some (ke_seq key)\<rparr>, None)
            else if \<not> prediction_allowed modes \<or> \<not> cu_visible cu \<or> pd_guesses p \<noteq> [] \<and> cu_row cu \<noteq> pd_row p
            then (flush p, None)
            else if length (pd_guesses p) \<ge> MAX_PENDING then (flush p, None)
            else
              let e = edit_line cu cols p
              in case edit_apply e s (ke_seq key) now modes (pd_floor p) of
                   None \<Rightarrow> (if is_type s then flush p else hold_until (ke_seq key) p, None)
                 | Some g \<Rightarrow> (add_guess e s g p, made_cell e s g (ke_seq key) now))"

section \<open>A frame\<close>

definition learn_right_prompt :: "cursor \<Rightarrow> nat \<Rightarrow> predictor \<Rightarrow> predictor" where
  "learn_right_prompt cu cols p =
    (case pd_base p of
       None \<Rightarrow> p
     | Some b \<Rightarrow>
       let cells = ln_cells (br_line b)
       in if (case pd_right p of None \<Rightarrow> False | Some r \<Rightarrow> right_prompt_on r (br_row b) cells \<noteq> None) then p
          else
            let from_col = (case input_col (ln_mark (br_line b)) of
                              Some i \<Rightarrow> Some i | None \<Rightarrow> if cu_row cu = br_row b then Some (cu_col cu) else None);
                found = (case from_col of None \<Rightarrow> None | Some f \<Rightarrow> right_prompt cells f cols)
            in case (case found of
                       Some start \<Rightarrow> if cu_row cu \<noteq> br_row b \<or> start > cu_col cu then Some start else None
                     | None \<Rightarrow> None) of
                 Some start \<Rightarrow>
                   let rest = drop start cells;
                       len = (case rposition (\<lambda>c. \<not> blank c) rest of None \<Rightarrow> 0 | Some i \<Rightarrow> i + 1)
                   in p\<lparr>pd_right := Some \<lparr>rp_row = br_row b, rp_start = start, rp_text = map cl_text (take len rest)\<rparr>\<rparr>
               | None \<Rightarrow>
                   if (case pd_right p of None \<Rightarrow> False | Some r \<Rightarrow> rp_row r \<noteq> br_row b) then p\<lparr>pd_right := None\<rparr> else p)"

text \<open>
  The columns with evidence, and each one's history: what it read before the guesses, and the
  changes to it with the index of the guess that made each.
\<close>

definition evidence_cols :: "guess list \<Rightarrow> nat list" where
  "evidence_cols due =
     remdups_adj (sort (concat (map (\<lambda>g. map ch_col (filter (\<lambda>c. ch_check c \<noteq> CheckNothing) (gu_changes g))) due)))"

definition col_changes :: "guess list \<Rightarrow> nat \<Rightarrow> (nat \<times> change) list" where
  "col_changes due col =
     concat (map (\<lambda>(i, g). map (Pair i) (filter (\<lambda>c. ch_col c = col) (gu_changes g))) (enumerate 0 due))"

definition col_origin :: "predictor \<Rightarrow> nat \<Rightarrow> ustring option" where
  "col_origin p col = (case find (\<lambda>(c, _). c = col) (pd_origin p) of None \<Rightarrow> None | Some (_, t) \<Rightarrow> t)"

definition cursor_after :: "predictor \<Rightarrow> nat \<Rightarrow> nat" where
  "cursor_after p n = (if n = 0 then pd_origin_cursor p
     else case vec_get (pd_guesses p) (n - 1) of Some g \<Rightarrow> gu_cursor g | None \<Rightarrow> pd_origin_cursor p)"

definition reads_change :: "cell option \<Rightarrow> change \<Rightarrow> bool" where
  "reads_change shown ch =
    (case ch_check ch of
       CheckNothing \<Rightarrow> True
     | CheckText \<Rightarrow> (case shown of None \<Rightarrow> False | Some s \<Rightarrow> same_text (cl_text s) (cl_text (ch_cell ch)))
     | CheckTyped \<Rightarrow> (case shown of None \<Rightarrow> False | Some s \<Rightarrow> same_text (cl_text s) (cl_text (ch_cell ch)) \<and> \<not> ghost s))"

definition reads_as :: "(nat \<Rightarrow> cell option) \<Rightarrow> nat option \<Rightarrow> guess list \<Rightarrow> predictor \<Rightarrow> nat \<Rightarrow> bool" where
  "reads_as shows at_col due p n \<longleftrightarrow>
     (\<not> list_ex gu_moves due \<or> at_col = Some (cursor_after p n)) \<and>
     list_all (\<lambda>col.
        case find (\<lambda>(i, _). i < n) (rev (col_changes due col)) of
          Some (_, ch) \<Rightarrow> reads_change (shows col) ch
        | None \<Rightarrow> (case (col_origin p col, shows col) of (Some t, Some s) \<Rightarrow> same_text (cl_text s) t | _ \<Rightarrow> False))
       (evidence_cols due)"

definition confirm_guess :: "instant \<Rightarrow> guess \<Rightarrow> predictor \<times> reconciled \<Rightarrow> predictor \<times> reconciled" where
  "confirm_guess now g st =
    (case st of (p, out) \<Rightarrow>
       if \<not> evidence g then (p, out)
       else (p\<lparr>pd_unsure := (if since now (gu_at g) > GLITCH then GLITCH_REPAIR else pd_unsure p - 1),
               pd_tentative := False, pd_hits := sat_add 32 (pd_hits p) 1\<rparr>,
             out\<lparr>rc_hits := sat_add 32 (rc_hits out) 1\<rparr>))"

definition fresh_origin :: "(nat \<Rightarrow> cell option) \<Rightarrow> change list \<Rightarrow> (nat \<times> ustring option) list" where
  "fresh_origin shows chs =
     fold (\<lambda>ch origin. if list_ex (\<lambda>(col, _). col = ch_col ch) origin then origin
                        else origin @ [(ch_col ch, map_option cl_text (shows (ch_col ch)))]) chs []"

text \<open>What the frame shows of the row the guesses edit, and where its cursor is on it.\<close>

definition frame_shows :: "screen \<Rightarrow> predictor \<Rightarrow> nat \<Rightarrow> cell option" where
  "frame_shows scr p col = do { l \<leftarrow> screen_line scr (pd_row p); vec_get (ln_cells l) col }"

definition frame_cursor :: "screen \<Rightarrow> predictor \<Rightarrow> nat option" where
  "frame_cursor scr p = (if cu_row (sc_cursor scr) = pd_row p then Some (cu_col (sc_cursor scr)) else None)"

text \<open>The confirmed guesses leave; the frame is where the keys still in flight start from.\<close>

definition settle :: "(nat \<Rightarrow> cell option) \<Rightarrow> nat \<Rightarrow> instant \<Rightarrow> predictor \<times> reconciled \<Rightarrow> predictor \<times> reconciled" where
  "settle shows confirmed now st =
    (case fold (confirm_guess now) (take confirmed (pd_guesses (fst st))) st of
       (p, out) \<Rightarrow>
         let p = p\<lparr>pd_guesses := drop confirmed (pd_guesses p)\<rparr>
         in (if confirmed > 0
             then p\<lparr>pd_origin := fresh_origin shows (all_changes p), pd_origin_cursor := cursor_after (fst st) confirmed\<rparr>
             else p, out))"

definition reconcile :: "screen \<Rightarrow> nat \<Rightarrow> instant \<Rightarrow> predictor \<times> reconciled \<Rightarrow> (predictor \<times> reconciled) \<times> bool" where
  "reconcile scr input_ack now st =
    (let p = fst st;
         due = takeWhile (\<lambda>g. gu_seq g \<le> input_ack) (pd_guesses p)
     in if due = [] then (st, True)
        else case find (reads_as (frame_shows scr p) (frame_cursor scr p) due p) (rev [0..<length due + 1]) of
               None \<Rightarrow> (st, False)
             | Some confirmed \<Rightarrow> (settle (frame_shows scr p) confirmed now st, True))"

definition count_miss :: "instant \<Rightarrow> predictor \<times> reconciled \<Rightarrow> predictor \<times> reconciled" where
  "count_miss now st = (case st of (p, out) \<Rightarrow> (miss now p, out\<lparr>rc_misses := sat_add 32 (rc_misses out) 1\<rparr>))"

definition take_base :: "screen \<Rightarrow> predictor \<Rightarrow> predictor" where
  "take_base scr p =
    (let row = (if pd_guesses p = [] then cu_row (sc_cursor scr) else pd_row p)
     in p\<lparr>pd_base := (case screen_line scr row of
            None \<Rightarrow> None
          | Some l \<Rightarrow> Some \<lparr>br_row = row, br_line = l,
              br_wrapped_below = (if row + 1 > umax 16 then False
                else case screen_line scr (row + 1) of None \<Rightarrow> False | Some below \<Rightarrow> ln_flags below AND WRAPPED = WRAPPED)\<rparr>)\<rparr>)"

text \<open>The state a frame is checked in: the row it shows taken, the floor and the numbering brought up to date.\<close>

definition frame_start :: "screen \<Rightarrow> nat \<Rightarrow> nat \<Rightarrow> predictor \<Rightarrow> predictor" where
  "frame_start scr input_ack epoch p =
    (let p = p\<lparr>pd_acked := max (pd_acked p) input_ack\<rparr>;
         cu = sc_cursor scr;
         p = learn_right_prompt cu (sc_cols scr) (take_base scr p);
         p = (if pd_guesses p = [] \<and> (case pd_floor p of None \<Rightarrow> False | Some (row, _) \<Rightarrow> row \<noteq> cu_row cu)
              then p\<lparr>pd_floor := None\<rparr> else p)
     in p\<lparr>pd_numbering := Some epoch\<rparr>)"

definition no_result :: reconciled where
  "no_result = \<lparr>rc_hits = 0, rc_misses = 0, rc_pending = 0\<rparr>"

text \<open>Anything unconfirmed for too long is a miss too.\<close>

definition stale_check :: "instant \<Rightarrow> predictor \<times> reconciled \<Rightarrow> predictor \<times> reconciled" where
  "stale_check now st = (if oldest_waited now STALE (fst st) then count_miss now st else st)"

definition on_frame :: "screen \<Rightarrow> nat \<Rightarrow> nat \<Rightarrow> instant \<Rightarrow> predictor \<Rightarrow> predictor \<times> reconciled" where
  "on_frame scr input_ack epoch now p =
    (let previous = pd_numbering p;
         p = frame_start scr input_ack epoch p
     in if (case previous of None \<Rightarrow> False | Some e \<Rightarrow> e \<noteq> epoch) then (hold_until (pd_sent p) p, no_result)
        else case reconcile scr input_ack now (p, no_result) of
          (st, agreed) \<Rightarrow>
            (case stale_check now (if agreed then st else count_miss now st) of
               (p, out) \<Rightarrow> (redraw p, out\<lparr>rc_pending := length (pd_guesses p)\<rparr>)))"

end
