(* ===== verification/Predict_Runs.thy ===== *)
theory Predict_Runs
  imports Predict
begin

text \<open>
  Every run of the local-echo predictor: keys, frames, pastes and settings in any order. What a key that cannot be
  followed hides, what is drawn, what a key's guess does to the row, and what an echo confirms.
\<close>

section \<open>Runs\<close>

datatype pd_event = KeyE key_event cursor nat "16 word" instant | FrameE screen nat nat instant | FlushE | InterruptE
  | PolicyE policy | RttE "duration option" | RefreshE duration

fun pd_step :: "pd_event \<Rightarrow> predictor \<Rightarrow> predictor" where
  "pd_step (KeyE key cu cols modes now) p = fst (on_key key cu cols modes now p)"
| "pd_step (FrameE scr ack epoch now) p = fst (on_frame scr ack epoch now p)"
| "pd_step FlushE p = flush p"
| "pd_step InterruptE p = interrupt p"
| "pd_step (PolicyE pol) p = set_policy pol p"
| "pd_step (RttE rtt) p = set_rtt rtt p"
| "pd_step (RefreshE period) p = set_refresh period p"

fun pd_run :: "pd_event list \<Rightarrow> predictor \<Rightarrow> predictor" where
  "pd_run [] p = p"
| "pd_run (e # es) p = pd_run es (pd_step e p)"

text \<open>A frame that confirms a guess is the only event that ends a tentative epoch.\<close>

fun confirms :: "pd_event \<Rightarrow> predictor \<Rightarrow> bool" where
  "confirms (FrameE scr ack epoch now) p \<longleftrightarrow> rc_hits (snd (on_frame scr ack epoch now p)) > 0"
| "confirms _ p = False"

fun unconfirmed :: "pd_event list \<Rightarrow> predictor \<Rightarrow> bool" where
  "unconfirmed [] p = True"
| "unconfirmed (e # es) p = (\<not> confirms e p \<and> unconfirmed es (pd_step e p))"

subsection \<open>What ending an epoch leaves\<close>

lemma flush_sel [simp]:
  "pd_guesses (flush p) = []" "pd_drawn (flush p) = []" "pd_tentative (flush p) = pd_tentative p"
  "pd_acked (flush p) = pd_acked p" "pd_sent (flush p) = pd_sent p" "pd_row (flush p) = pd_row p"
  by (simp_all add: flush_def)

lemma hold_until_sel [simp]:
  "pd_guesses (hold_until seq p) = []" "pd_drawn (hold_until seq p) = []" "pd_tentative (hold_until seq p)"
  "pd_acked (hold_until seq p) = pd_acked p" "pd_sent (hold_until seq p) = pd_sent p"
  "pd_barrier (hold_until seq p) = Some seq"
  by (simp_all add: hold_until_def)

lemma miss_sel [simp]:
  "pd_guesses (miss now p) = []" "pd_drawn (miss now p) = []" "pd_tentative (miss now p)"
  "pd_acked (miss now p) = pd_acked p" "pd_sent (miss now p) = pd_sent p" "pd_barrier (miss now p) = Some (pd_sent p)"
  by (simp_all add: miss_def Let_def)

lemma redraw_sel [simp]:
  "pd_guesses (redraw p) = pd_guesses p" "pd_tentative (redraw p) = pd_tentative p" "pd_acked (redraw p) = pd_acked p"
  "pd_sent (redraw p) = pd_sent p" "pd_barrier (redraw p) = pd_barrier p" "pd_row (redraw p) = pd_row p"
  by (simp_all add: redraw_def)

lemma add_guess_sel [simp]:
  "pd_guesses (add_guess e s g p) = pd_guesses p @ [g]" "pd_tentative (add_guess e s g p) = pd_tentative p"
  "pd_acked (add_guess e s g p) = pd_acked p" "pd_sent (add_guess e s g p) = pd_sent p"
  "pd_barrier (add_guess e s g p) = pd_barrier p"
  by (simp_all add: add_guess_def Let_def)

lemma learn_sel [simp]:
  "pd_guesses (learn_right_prompt cu cols p) = pd_guesses p" "pd_tentative (learn_right_prompt cu cols p) = pd_tentative p"
  "pd_acked (learn_right_prompt cu cols p) = pd_acked p" "pd_sent (learn_right_prompt cu cols p) = pd_sent p"
  "pd_barrier (learn_right_prompt cu cols p) = pd_barrier p" "pd_row (learn_right_prompt cu cols p) = pd_row p"
  "pd_origin (learn_right_prompt cu cols p) = pd_origin p" "pd_origin_cursor (learn_right_prompt cu cols p) = pd_origin_cursor p"
  "pd_base (learn_right_prompt cu cols p) = pd_base p" "pd_numbering (learn_right_prompt cu cols p) = pd_numbering p"
  by (auto simp: learn_right_prompt_def Let_def split: option.splits)

lemma take_base_sel [simp]:
  "pd_guesses (take_base scr p) = pd_guesses p" "pd_tentative (take_base scr p) = pd_tentative p"
  "pd_acked (take_base scr p) = pd_acked p" "pd_sent (take_base scr p) = pd_sent p"
  "pd_barrier (take_base scr p) = pd_barrier p" "pd_row (take_base scr p) = pd_row p"
  "pd_origin (take_base scr p) = pd_origin p" "pd_origin_cursor (take_base scr p) = pd_origin_cursor p"
  "pd_numbering (take_base scr p) = pd_numbering p"
  by (simp_all add: take_base_def Let_def)

lemma sat_add_pos [simp]: "0 < sat_add 32 n (Suc 0)" "sat_add 32 n (Suc 0) \<noteq> 0"
  using umax_pos [of 32] by (simp_all add: sat_add_def min_def)

text \<open>What every confirmation leaves alone.\<close>

definition kept :: "predictor \<Rightarrow> predictor \<Rightarrow> bool" where
  "kept p q \<longleftrightarrow> pd_acked q = pd_acked p \<and> pd_sent q = pd_sent p \<and> pd_barrier q = pd_barrier p \<and> pd_row q = pd_row p"

lemma kept_refl [simp]: "kept p p"
  by (simp add: kept_def)

lemma confirm_one:
  "confirm_guess now g (p, out) = (p', out') \<Longrightarrow> kept p p' \<and> pd_guesses p' = pd_guesses p \<and>
    (0 < rc_hits out \<longrightarrow> 0 < rc_hits out') \<and> (pd_tentative p \<longrightarrow> pd_tentative p' \<or> 0 < rc_hits out')"
  by (auto simp: confirm_guess_def kept_def split: if_splits)

lemma confirm_fold:
  "fold (confirm_guess now) gs (p, out) = (p', out') \<Longrightarrow> kept p p' \<and> pd_guesses p' = pd_guesses p \<and>
    (0 < rc_hits out \<longrightarrow> 0 < rc_hits out') \<and> (pd_tentative p \<longrightarrow> pd_tentative p' \<or> 0 < rc_hits out')"
proof (induction gs arbitrary: p out)
  case (Cons g gs)
  obtain q o2 where q: "confirm_guess now g (p, out) = (q, o2)" by fastforce
  then have "fold (confirm_guess now) gs (q, o2) = (p', out')" using Cons.prems by simp
  from Cons.IH [OF this] confirm_one [OF q] show ?case by (auto simp: kept_def)
qed simp

lemma settled_keeps:
  assumes "settle sh n now (p, out) = (p', out')"
  shows "kept p p' \<and> pd_guesses p' = drop n (pd_guesses p) \<and> (pd_tentative p \<longrightarrow> pd_tentative p' \<or> 0 < rc_hits out')"
proof -
  obtain q o2 where q: "fold (confirm_guess now) (take n (pd_guesses p)) (p, out) = (q, o2)" by fastforce
  show ?thesis using assms q confirm_fold [OF q] by (auto simp: settle_def kept_def Let_def split: if_splits)
qed

lemma reconcile_keeps:
  assumes "reconcile scr ack now (p, out) = ((p', out'), agreed)"
  shows "kept p p' \<and> (pd_tentative p \<longrightarrow> pd_tentative p' \<or> 0 < rc_hits out') \<and> (pd_guesses p = [] \<longrightarrow> p' = p \<and> agreed)"
  using assms settled_keeps [of "frame_shows scr p" _ now p out p' out']
  by (auto simp: reconcile_def Let_def split: if_splits option.splits)

lemma frame_start_sel [simp]:
  "pd_guesses (frame_start scr ack epoch p) = pd_guesses p" "pd_tentative (frame_start scr ack epoch p) = pd_tentative p"
  "pd_acked (frame_start scr ack epoch p) = max (pd_acked p) ack" "pd_sent (frame_start scr ack epoch p) = pd_sent p"
  "pd_barrier (frame_start scr ack epoch p) = pd_barrier p" "pd_row (frame_start scr ack epoch p) = pd_row p"
  "pd_origin (frame_start scr ack epoch p) = pd_origin p" "pd_origin_cursor (frame_start scr ack epoch p) = pd_origin_cursor p"
  by (simp_all add: frame_start_def Let_def)

text \<open>The two ways a frame ends.\<close>

lemma on_frame_cases:
  obtains (renumbered) "on_frame scr ack epoch now p = (hold_until (pd_sent p) (frame_start scr ack epoch p), no_result)"
  | (checked) p1 o1 agreed p2 o2 where
      "reconcile scr ack now (frame_start scr ack epoch p, no_result) = ((p1, o1), agreed)"
      "stale_check now (if agreed then (p1, o1) else count_miss now (p1, o1)) = (p2, o2)"
      "on_frame scr ack epoch now p = (redraw p2, o2\<lparr>rc_pending := length (pd_guesses p2)\<rparr>)"
proof (cases "case pd_numbering p of None \<Rightarrow> False | Some e \<Rightarrow> e \<noteq> epoch")
  case True
  show ?thesis by (rule renumbered) (use True in \<open>simp add: on_frame_def Let_def\<close>)
next
  case False
  obtain p1 o1 agreed where r: "reconcile scr ack now (frame_start scr ack epoch p, no_result) = ((p1, o1), agreed)"
    by (metis prod.collapse)
  obtain p2 o2 where t: "stale_check now (if agreed then (p1, o1) else count_miss now (p1, o1)) = (p2, o2)" by fastforce
  have "on_frame scr ack epoch now p = (redraw p2, o2\<lparr>rc_pending := length (pd_guesses p2)\<rparr>)"
    using r t False by (simp add: on_frame_def Let_def)
  then show ?thesis using checked r t by blast
qed

subsection \<open>A key that cannot be followed\<close>

lemma on_key_tentative: "pd_tentative p \<Longrightarrow> pd_tentative (fst (on_key key cu cols modes now p))"
  by (auto simp: on_key_def Let_def split: option.splits)

lemma stale_check_tentative:
  "stale_check now (p, out) = (p', out') \<Longrightarrow> rc_hits out' = rc_hits out \<and> (pd_tentative p \<longrightarrow> pd_tentative p')"
  by (auto simp: stale_check_def count_miss_def split: if_splits)

lemma on_frame_tentative:
  assumes "pd_tentative p" and "rc_hits (snd (on_frame scr ack epoch now p)) = 0"
  shows "pd_tentative (fst (on_frame scr ack epoch now p))"
proof (cases rule: on_frame_cases [of scr ack epoch now p])
  case (checked p1 o1 agreed p2 o2)
  have "pd_tentative p1 \<or> 0 < rc_hits o1" using reconcile_keeps [OF checked(1)] assms(1) by simp
  moreover obtain q oq where q: "(if agreed then (p1, o1) else count_miss now (p1, o1)) = (q, oq)" by fastforce
  moreover have "rc_hits o2 = 0" using assms(2) checked(3) by simp
  ultimately have "pd_tentative p2"
    using stale_check_tentative [OF checked(2) [unfolded q]] by (auto simp: count_miss_def split: if_splits)
  then show ?thesis by (simp add: checked(3))
qed simp

lemma step_tentative: "pd_tentative p \<Longrightarrow> \<not> confirms ev p \<Longrightarrow> pd_tentative (pd_step ev p)"
  by (cases ev) (simp_all add: on_key_tentative on_frame_tentative interrupt_def set_policy_def set_rtt_def set_refresh_def)

lemma run_tentative: "pd_tentative p \<Longrightarrow> unconfirmed es p \<Longrightarrow> pd_tentative (pd_run es p)"
  by (induction es p rule: unconfirmed.induct) (simp_all add: step_tentative)

text \<open>Held for a key: nothing guessed, and nothing until that key, or a later one, is acknowledged.\<close>

definition held_for :: "nat \<Rightarrow> predictor \<Rightarrow> bool" where
  "held_for seq p \<longleftrightarrow> pd_guesses p = [] \<and> (case pd_barrier p of None \<Rightarrow> False | Some b \<Rightarrow> seq \<le> b) \<and>
     pd_acked p < seq \<and> seq \<le> pd_sent p"

fun before_ack :: "nat \<Rightarrow> pd_event \<Rightarrow> bool" where
  "before_ack seq (KeyE key cu cols modes now) \<longleftrightarrow> seq \<le> ke_seq key"
| "before_ack seq (FrameE scr ack epoch now) \<longleftrightarrow> ack < seq"
| "before_ack seq _ = True"

lemma flush_held: "held_for seq p \<Longrightarrow> held_for seq (flush p)"
  by (auto simp: held_for_def flush_def split: option.splits)

lemma hold_until_held: "held_for seq p \<Longrightarrow> seq \<le> s \<Longrightarrow> held_for seq (hold_until s p)"
  by (simp add: held_for_def)

lemma on_key_held:
  assumes "held_for seq p" and "seq \<le> ke_seq key"
  shows "held_for seq (fst (on_key key cu cols modes now p))"
proof -
  define q where "q = p\<lparr>pd_sent := max (pd_sent p) (ke_seq key)\<rparr>"
  have q: "held_for seq q" and barrier: "case pd_barrier q of None \<Rightarrow> False | Some b \<Rightarrow> pd_acked q < b"
    using assms by (auto simp: q_def held_for_def split: option.splits)
  have "held_for seq (q\<lparr>pd_interrupted := False\<rparr>)" using q by (simp add: held_for_def)
  then show ?thesis using q barrier assms hold_until_held
    by (auto simp: on_key_def Let_def simp flip: q_def split: option.splits) (simp add: held_for_def)
qed

lemma on_frame_held:
  assumes "held_for seq p" and "ack < seq"
  shows "held_for seq (fst (on_frame scr ack epoch now p))"
proof -
  have start: "held_for seq (frame_start scr ack epoch p)" using assms by (simp add: held_for_def)
  show ?thesis
  proof (cases rule: on_frame_cases [of scr ack epoch now p])
    case renumbered
    then show ?thesis using hold_until_held [OF start, of "pd_sent p"] assms by (simp add: held_for_def)
  next
    case (checked p1 o1 agreed p2 o2)
    have "p1 = frame_start scr ack epoch p \<and> agreed"
      using reconcile_keeps [OF checked(1)] assms(1) by (simp add: held_for_def)
    then have "p2 = frame_start scr ack epoch p"
      using checked(2) assms(1) by (auto simp: stale_check_def oldest_waited_def held_for_def split: if_splits)
    then show ?thesis using start by (simp add: checked(3) held_for_def)
  qed
qed

lemma step_held: "held_for seq p \<Longrightarrow> before_ack seq ev \<Longrightarrow> held_for seq (pd_step ev p)"
proof (cases ev)
  case InterruptE
  assume "held_for seq p"
  from flush_held [OF this] show ?thesis by (simp add: InterruptE interrupt_def held_for_def)
qed (simp_all add: on_key_held on_frame_held flush_held, simp_all add: held_for_def set_policy_def set_rtt_def set_refresh_def)

lemma run_held: "held_for seq p \<Longrightarrow> list_all (before_ack seq) es \<Longrightarrow> held_for seq (pd_run es p)"
  by (induction es p rule: pd_run.induct) (simp_all add: step_held)

text \<open>
  C10. What is typed where nothing has echoed yet is not shown on trust: once a key the predictor cannot follow goes
  out (Enter, above all), then whatever keys, frames, pastes and settings follow, no guess is drawn until a frame confirms one; and
  until the worker acknowledges that key, none is even made.
\<close>

theorem held_key_hides_guesses:
  assumes "pd_policy p \<noteq> PolicyNever" and "ke_action key \<noteq> Release" and "stroke_of key = None" and "pd_acked p < ke_seq key"
  shows "(unconfirmed es (fst (on_key key cu cols modes now p)) \<longrightarrow>
        \<not> visible t (pd_run es (fst (on_key key cu cols modes now p)))) \<and>
     (list_all (before_ack (ke_seq key)) es \<longrightarrow> pd_guesses (pd_run es (fst (on_key key cu cols modes now p))) = [])"
proof -
  have held: "pd_tentative (fst (on_key key cu cols modes now p)) \<and> held_for (ke_seq key) (fst (on_key key cu cols modes now p))"
    using assms by (simp add: on_key_def Let_def held_for_def)
  show ?thesis
    using run_tentative [of "fst (on_key key cu cols modes now p)" es] run_held [of "ke_seq key" _ es] held
    by (auto simp: visible_def held_for_def)
qed

subsection \<open>The overlay\<close>

lemma apply_changes_last:
  "i < length cells \<Longrightarrow> apply_changes chs cells ! i =
     (case find (\<lambda>ch. ch_col ch = i) (rev chs) of None \<Rightarrow> cells ! i | Some ch \<Rightarrow> ch_cell ch)"
  by (induction chs rule: rev_induct) (auto simp: nth_list_update)

text \<open>The cells placed are, per column, the last one.\<close>

lemma place_last:
  "distinct (map pn_col (fold place ps [])) \<and>
   (\<forall>x. x \<in> set (fold place ps []) \<longleftrightarrow> find (\<lambda>y. pn_col y = pn_col x) (rev ps) = Some x)"
proof (induction ps rule: rev_induct)
  case (snoc x ps)
  define drawn where "drawn = fold place ps []"
  have IH: "distinct (map pn_col drawn)" "\<And>y. y \<in> set drawn \<longleftrightarrow> find (\<lambda>z. pn_col z = pn_col y) (rev ps) = Some y"
    using snoc by (simp_all add: drawn_def)
  have cols: "map pn_col (map (\<lambda>p. if pn_col p = pn_col x then x else p) drawn) = map pn_col drawn" by (induction drawn) simp_all
  have "distinct (map pn_col (place x drawn))"
    using IH(1) unfolding place_def by (cases "list_ex (\<lambda>p. pn_col p = pn_col x) drawn") (simp_all only: cols if_True if_False, auto simp: list_ex_iff)
  moreover have "y \<in> set (place x drawn) \<longleftrightarrow> (if pn_col y = pn_col x then y = x else y \<in> set drawn)" for y
    by (auto simp: place_def list_ex_iff)
  ultimately show ?case using IH(2) by (auto simp: drawn_def)
qed simp

definition drawn_in_sync :: "predictor \<Rightarrow> bool" where
  "drawn_in_sync p \<longleftrightarrow> pd_drawn p = pd_drawn (redraw p)"

lemma sync_empty: "pd_guesses p = [] \<Longrightarrow> pd_drawn p = [] \<Longrightarrow> drawn_in_sync p"
  by (simp add: drawn_in_sync_def redraw_def)

lemma sync_redraw: "drawn_in_sync (redraw p)"
  by (simp add: drawn_in_sync_def redraw_def)

lemma sync_same: "pd_guesses q = pd_guesses p \<Longrightarrow> pd_drawn q = pd_drawn p \<Longrightarrow> pd_row q = pd_row p \<Longrightarrow> drawn_in_sync q = drawn_in_sync p"
  by (simp add: drawn_in_sync_def redraw_def)

lemma sync_on_key: "drawn_in_sync p \<Longrightarrow> drawn_in_sync (fst (on_key key cu cols modes now p))"
proof -
  assume p: "drawn_in_sync p"
  have "drawn_in_sync (add_guess e s g q)" for e s g q by (simp add: add_guess_def Let_def sync_redraw)
  moreover have "drawn_in_sync (p\<lparr>pd_sent := n, pd_barrier := b\<rparr>)" for n b
    by (rule sync_same [THEN iffD2, OF _ _ _ p]) simp_all
  moreover have "drawn_in_sync (flush q)" "drawn_in_sync (hold_until n q)" for n q by (simp_all add: sync_empty)
  ultimately show ?thesis using p by (auto simp: on_key_def Let_def split: option.splits)
qed

lemma sync_on_frame: "drawn_in_sync (fst (on_frame scr ack epoch now p))"
  by (cases rule: on_frame_cases [of scr ack epoch now p]) (simp_all add: sync_empty sync_redraw)

lemma sync_settings [simp]:
  "drawn_in_sync (set_policy pol p) = drawn_in_sync p" "drawn_in_sync (set_rtt rtt p) = drawn_in_sync p"
  "drawn_in_sync (set_refresh period p) = drawn_in_sync p"
  by (simp_all add: drawn_in_sync_def redraw_def set_policy_def set_rtt_def set_refresh_def)

lemma sync_step: "drawn_in_sync p \<Longrightarrow> drawn_in_sync (pd_step ev p)"
  by (cases ev) (simp_all add: sync_on_key sync_on_frame sync_empty interrupt_def)

lemma sync_run: "drawn_in_sync p \<Longrightarrow> drawn_in_sync (pd_run es p)"
  by (induction es p rule: pd_run.induct) (simp_all add: sync_step)

lemma find_SomeD': "find P xs = Some x \<Longrightarrow> x \<in> set xs \<and> P x"
  by (induction xs) (auto split: if_splits)

lemma find_map: "find P (map f xs) = map_option f (find (\<lambda>x. P (f x)) xs)"
  by (induction xs) simp_all

text \<open>Every drawn cell with its change.\<close>

definition flat_changes :: "guess list \<Rightarrow> (guess \<times> change) list" where
  "flat_changes gs = concat (map (\<lambda>g. map (Pair g) (gu_changes g)) gs)"

definition cell_of :: "nat \<Rightarrow> guess \<times> change \<Rightarrow> prediction" where
  "cell_of row gc = (case gc of (g, ch) \<Rightarrow> \<lparr>pn_seq = gu_seq g, pn_row = row, pn_col = ch_col ch, pn_text = drawn_text (ch_cell ch), pn_at = gu_at g\<rparr>)"

lemma flat_changes_maps:
  "concat (map (guess_cells row) gs) = map (cell_of row) (flat_changes gs)"
  "concat (map gu_changes gs) = map snd (flat_changes gs)"
  by (induction gs) (simp_all add: flat_changes_def guess_cells_def cell_of_def comp_def)

text \<open>
  C11. What the predictor draws is what its guesses do: after any run, the cells drawn stand left to right, one to a column,
  at exactly the columns the guesses in flight change; each shows what the row would read there with all the
  guesses applied in order.
\<close>

theorem drawn_is_the_overlay:
  "sorted_wrt (<) (map pn_col (pd_drawn (pd_run es (predictor_new pol)))) \<and>
   pn_col ` set (pd_drawn (pd_run es (predictor_new pol))) = ch_col ` set (all_changes (pd_run es (predictor_new pol))) \<and>
   (\<forall>x \<in> set (pd_drawn (pd_run es (predictor_new pol))). pn_col x < length row \<longrightarrow>
      pn_text x = drawn_text (apply_changes (all_changes (pd_run es (predictor_new pol))) row ! pn_col x))"
proof -
  define p where "p = pd_run es (predictor_new pol)"
  define ps where "ps = concat (map (guess_cells (pd_row p)) (pd_guesses p))"
  have "drawn_in_sync p" unfolding p_def by (rule sync_run) (simp add: sync_empty predictor_new_def)
  then have drawn: "pd_drawn p = sort_key pn_col (fold place ps [])" by (simp add: drawn_in_sync_def redraw_def ps_def)
  note placed = place_last [of ps]
  have "sorted_wrt (<) (map pn_col (pd_drawn p))"
    using placed by (simp add: drawn strict_sorted_iff distinct_map)
  moreover have mem: "x \<in> set (pd_drawn p) \<longleftrightarrow> find (\<lambda>y. pn_col y = pn_col x) (rev ps) = Some x" for x
    using placed by (simp add: drawn)
  moreover have ps: "ps = map (cell_of (pd_row p)) (flat_changes (pd_guesses p))" "all_changes p = map snd (flat_changes (pd_guesses p))"
    by (simp_all add: ps_def all_changes_def flat_changes_maps)
  have cols: "pn_col (cell_of r gc) = ch_col (snd gc)" for r gc by (simp add: cell_of_def split: prod.splits)
  have "pn_text x = drawn_text (apply_changes (all_changes p) row ! pn_col x)" if "x \<in> set (pd_drawn p)" "pn_col x < length row" for x
  proof -
    have "find (\<lambda>y. pn_col y = pn_col x) (rev ps) = Some x" using that(1) mem by blast
    then have "map_option (cell_of (pd_row p)) (find (\<lambda>gc. ch_col (snd gc) = pn_col x) (rev (flat_changes (pd_guesses p)))) = Some x"
      by (simp only: ps(1) rev_map find_map cols)
    then obtain gc where gc: "find (\<lambda>gc. ch_col (snd gc) = pn_col x) (rev (flat_changes (pd_guesses p))) = Some gc" "x = cell_of (pd_row p) gc"
      unfolding map_option_eq_Some by blast
    then have "find (\<lambda>ch. ch_col ch = pn_col x) (rev (all_changes p)) = Some (snd gc)" by (simp add: ps rev_map find_map)
    then show ?thesis using that(2) gc(2) by (simp add: apply_changes_last cell_of_def split: prod.splits)
  qed
  moreover have "pn_col ` set (pd_drawn p) = ch_col ` set (all_changes p)"
  proof -
    have "pn_col ` set (pd_drawn p) = pn_col ` set ps"
    proof (intro equalityI subsetI)
      fix c assume "c \<in> pn_col ` set ps"
      then obtain y where "find (\<lambda>y. pn_col y = c) (rev ps) = Some y" by (cases "find (\<lambda>y. pn_col y = c) (rev ps)") (auto simp: find_None_iff)
      then have "pn_col y = c" "y \<in> set (pd_drawn p)" by (auto simp: mem dest: find_SomeD')
      then show "c \<in> pn_col ` set (pd_drawn p)" by auto
    qed (auto simp: mem dest!: find_SomeD')
    then show ?thesis by (simp add: ps image_image cols)
  qed
  ultimately show ?thesis by (simp add: p_def)
qed

subsection \<open>A key's guess\<close>

lemma right_shown_bound:
  "right_shown base row cur from_col cols p = Some (s, t) \<Longrightarrow> \<exists>b. base = Some b \<and> s \<le> length (ln_cells (br_line b)) \<and> cur < s"
  using right_prompt_bound right_prompt_on_bound
  by (auto simp: right_shown_def Let_def split: option.splits if_splits)

lemma blanked: "col \<in> set cols \<Longrightarrow> col < length cells \<Longrightarrow> apply_changes (map blank_change cols) cells ! col = BLANK"
proof (induction cols rule: rev_induct)
  case (snoc x xs)
  then show ?case by (cases "x = col") (simp_all add: nth_list_update_neq)
qed simp

lemma right_fit_ok:
  assumes "length cells = cols" and "\<And>s t. shown = Some (s, t) \<Longrightarrow> cur < s \<and> s \<le> cols"
    and fit: "right_fit shown cols cells p = (limit, hidden, cells')"
  shows "length cells' = cols \<and> limit \<le> cols \<and> (\<forall>col \<in> set hidden. col < length cells' \<longrightarrow> cells' ! col = BLANK) \<and>
    (limit < cols \<longrightarrow> cur < limit \<and> blank (cells' ! (limit - 1)))"
proof (cases shown)
  case None
  then show ?thesis using assms by (simp add: right_fit_def)
next
  case (Some st)
  obtain s t where st: "st = (s, t)" by fastforce
  have b: "cur < s" "s \<le> cols" using assms(2) Some st by auto
  then have get: "vec_get cells (s - Suc 0) = Some (cells ! (s - Suc 0))" using assms(1) by (simp add: vec_get_def)
  show ?thesis
  proof (cases "blank (cells ! (s - 1))")
    case True
    then show ?thesis using fit assms(1) b by (auto simp: right_fit_def Some st get)
  next
    case False
    then have "limit = cols" "cells' = apply_changes (map blank_change hidden) cells"
      using fit b by (auto simp: right_fit_def Some st get Let_def)
    then show ?thesis using assms(1) by (auto simp: blanked)
  qed
qed

lemma edit_line_ok:
  assumes "cols \<le> MAX_COLS" and base: "\<And>b. pd_base p = Some b \<Longrightarrow> length (ln_cells (br_line b)) = cols"
  shows "ed_ok (edit_line cu cols p)"
proof -
  define row cur where "row = edit_row cu p" and "cur = edit_cursor cu p"
  define eb where "eb = edit_base row p"
  define input where "input = (case eb of None \<Rightarrow> None | Some b \<Rightarrow> input_col (ln_mark (br_line b)))"
  define shown where "shown = right_shown eb row cur (opt_or input (cu_col cu)) cols p"
  obtain limit hidden cells where fit: "right_fit shown cols (edit_cells cols eb p) p = (limit, hidden, cells)"
    by (metis prod_cases3)
  have start: "cur < s \<and> s \<le> cols" if shown: "shown = Some (s, t)" for s t
  proof -
    obtain b where "eb = Some b" "s \<le> length (ln_cells (br_line b))" "cur < s"
      using right_shown_bound [OF shown [unfolded shown_def]] by blast
    then show ?thesis using base by (auto simp: eb_def edit_base_def split: option.splits if_splits)
  qed
  have "edit_line cu cols p = \<lparr>ed_row = row, ed_cursor = cur, ed_cols = cols, ed_limit = limit, ed_right_end = last_text cells limit,
             ed_hidden = hidden, ed_cells = cells, ed_base = map_option br_line eb, ed_input = input,
             ed_wrapped_below = (case eb of None \<Rightarrow> False | Some b \<Rightarrow> br_wrapped_below b)\<rparr>"
    unfolding edit_line_def Let_def row_def [symmetric] cur_def [symmetric] eb_def [symmetric] input_def [symmetric] shown_def [symmetric]
    by (simp add: fit)
  moreover have "length (edit_cells cols eb p) = cols" by (simp add: edit_cells_def)
  ultimately show ?thesis using right_fit_ok [OF _ start fit] assms(1) by (simp add: ed_ok_def)
qed

lemma edit_parts_sent [simp]:
  "edit_row cu (p\<lparr>pd_sent := n\<rparr>) = edit_row cu p" "edit_cursor cu (p\<lparr>pd_sent := n\<rparr>) = edit_cursor cu p"
  "edit_base row (p\<lparr>pd_sent := n\<rparr>) = edit_base row p" "edit_cells cols base (p\<lparr>pd_sent := n\<rparr>) = edit_cells cols base p"
  "right_shown base row cur from_col cols (p\<lparr>pd_sent := n\<rparr>) = right_shown base row cur from_col cols p"
  "right_fit sh cols cells (p\<lparr>pd_sent := n\<rparr>) = right_fit sh cols cells p"
proof -
  have same: "all_changes (p\<lparr>pd_sent := n\<rparr>) = all_changes p" by (simp add: all_changes_def)
  show "edit_row cu (p\<lparr>pd_sent := n\<rparr>) = edit_row cu p" "edit_cursor cu (p\<lparr>pd_sent := n\<rparr>) = edit_cursor cu p"
    "edit_base row (p\<lparr>pd_sent := n\<rparr>) = edit_base row p" "edit_cells cols base (p\<lparr>pd_sent := n\<rparr>) = edit_cells cols base p"
    by (simp_all add: edit_row_def edit_cursor_def edit_base_def edit_cells_def same)
  show "right_shown base row cur from_col cols (p\<lparr>pd_sent := n\<rparr>) = right_shown base row cur from_col cols p"
    by (cases base) (simp_all add: right_shown_def Let_def)
  show "right_fit sh cols cells (p\<lparr>pd_sent := n\<rparr>) = right_fit sh cols cells p" unfolding right_fit_def same by (rule refl)
qed

lemma edit_line_sent: "edit_line cu cols (p\<lparr>pd_sent := n\<rparr>) = edit_line cu cols p"
  by (simp only: edit_line_def edit_parts_sent)

lemma on_key_guess:
  assumes "pd_guesses (fst (on_key key cu cols modes now p)) = pd_guesses p @ [g]"
  obtains s where "stroke_of key = Some s" "edit_apply (edit_line cu cols p) s (ke_seq key) now modes (pd_floor p) = Some g"
    "length (pd_guesses p) < MAX_PENDING"
  using assms by (auto simp: on_key_def Let_def edit_line_sent split: option.splits if_splits)

text \<open>
  C8. A guess is what the line editor does: the cells a key's guess changes turn the text of the
  row, with the guesses before it applied, into the text the editor leaves, with the character inserted at the
  cursor, the one before it deleted, or only the cursor moved; past the text's new end every
  cell is as it was or blank; the cursor is where the editor puts it; and no editing key reaches left of
  where the input starts.
\<close>

theorem key_guess_is_the_edit:
  assumes "cols \<le> MAX_COLS" and "\<And>b. pd_base p = Some b \<Longrightarrow> length (ln_cells (br_line b)) = cols"
    and "pd_guesses (fst (on_key key cu cols modes now p)) = pd_guesses p @ [g]"
  shows "let e = edit_line cu cols p; line = (take (text_end e) (ed_cells e), ed_cursor e) in
     \<exists>s. stroke_of key = Some s \<and> edits_to e (gu_changes g) (fst (editor s line)) \<and> gu_cursor g = snd (editor s line) \<and>
       (s = SLeft \<longrightarrow> (\<exists>start. editing e modes = Some start \<and> start \<le> gu_cursor g)) \<and>
       (s = SErase \<longrightarrow> (\<exists>start. erase_floor e modes (pd_floor p) = Some start \<and> start \<le> gu_cursor g))"
proof -
  obtain s where s: "stroke_of key = Some s" "edit_apply (edit_line cu cols p) s (ke_seq key) now modes (pd_floor p) = Some g"
    using on_key_guess [OF assms(3)] by blast
  show ?thesis unfolding Let_def using guess_is_the_edit [OF edit_line_ok [OF assms(1,2)] s(2)] s(1) by blast
qed

subsection \<open>An echo confirms its guesses\<close>

definition guesses_ok :: "predictor \<Rightarrow> bool" where
  "guesses_ok p \<longleftrightarrow> length (pd_guesses p) \<le> MAX_PENDING \<and> (\<forall>g \<in> set (pd_guesses p). typed_plain (gu_changes g))"

lemma guesses_ok_none: "pd_guesses p = [] \<Longrightarrow> guesses_ok p"
  by (simp add: guesses_ok_def)

lemma on_key_guesses_ok: "guesses_ok p \<Longrightarrow> guesses_ok (fst (on_key key cu cols modes now p))"
  by (auto simp: on_key_def Let_def guesses_ok_def edit_apply_plain split: option.splits)

lemma reconcile_guesses:
  assumes "reconcile scr ack now (p, out) = ((p', out'), agreed)"
  shows "\<exists>n. pd_guesses p' = drop n (pd_guesses p)"
proof -
  consider "p' = p" | n where "settle (frame_shows scr p) n now (p, out) = (p', out')"
    using assms by (auto simp: reconcile_def Let_def split: if_splits option.splits)
  then show ?thesis
  proof cases
    case 1
    then show ?thesis by (metis drop_0)
  next
    case (2 n)
    then show ?thesis using settled_keeps by blast
  qed
qed

lemma on_frame_guesses_ok: "guesses_ok p \<Longrightarrow> guesses_ok (fst (on_frame scr ack epoch now p))"
proof (cases rule: on_frame_cases [of scr ack epoch now p])
  case (checked p1 o1 agreed p2 o2)
  assume ok: "guesses_ok p"
  obtain n where "pd_guesses p1 = drop n (pd_guesses p)" using reconcile_guesses [OF checked(1)] by auto
  then have "pd_guesses p2 = drop n (pd_guesses p) \<or> pd_guesses p2 = []"
    using checked(2) by (auto simp: stale_check_def count_miss_def split: if_splits)
  then show ?thesis using ok set_drop_subset [of n "pd_guesses p"] by (auto simp: checked(3) guesses_ok_def)
qed (simp add: guesses_ok_none)

lemma step_guesses_ok: "guesses_ok p \<Longrightarrow> guesses_ok (pd_step ev p)"
  by (cases ev) (simp_all add: on_key_guesses_ok on_frame_guesses_ok guesses_ok_none interrupt_def,
      simp_all add: guesses_ok_def set_policy_def set_rtt_def set_refresh_def)

lemma run_guesses_ok: "guesses_ok p \<Longrightarrow> guesses_ok (pd_run es p)"
  by (induction es p rule: pd_run.induct) (simp_all add: step_guesses_ok)

text \<open>The changes to a column, of all the guesses due, in order.\<close>

lemma col_changes_split:
  "map snd (col_changes due col) = filter (\<lambda>c. ch_col c = col) (concat (map gu_changes due))"
  "\<forall>x \<in> set (col_changes due col). fst x < length due"
proof -
  have "map snd (concat (map (\<lambda>(i, g). map (Pair i) (filter (\<lambda>c. ch_col c = col) (gu_changes g))) (enumerate n due)))
      = filter (\<lambda>c. ch_col c = col) (concat (map gu_changes due))" for n
    by (induction due arbitrary: n) (simp_all add: comp_def)
  then show "map snd (col_changes due col) = filter (\<lambda>c. ch_col c = col) (concat (map gu_changes due))"
    by (simp add: col_changes_def)
  show "\<forall>x \<in> set (col_changes due col). fst x < length due"
    by (auto simp: col_changes_def in_set_enumerate_eq)
qed

lemma find_all: "\<forall>x \<in> set xs. P x \<Longrightarrow> find P xs = (case xs of [] \<Rightarrow> None | x # _ \<Rightarrow> Some x)"
  by (cases xs) simp_all

lemma find_filter: "find P xs = (case filter P xs of [] \<Rightarrow> None | x # _ \<Rightarrow> Some x)"
  by (induction xs) simp_all

lemma last_change:
  assumes "find (\<lambda>ch. ch_col ch = col) (rev (concat (map gu_changes due))) = Some ch"
  shows "\<exists>i. find (\<lambda>(i, _). i < length due) (rev (col_changes due col)) = Some (i, ch)"
proof -
  have all: "\<forall>x \<in> set (rev (col_changes due col)). (\<lambda>(i, _). i < length due) x" using col_changes_split(2) [of due col] by auto
  have "map snd (rev (col_changes due col)) = filter (\<lambda>ch. ch_col ch = col) (rev (concat (map gu_changes due)))"
    by (simp add: rev_map [symmetric] col_changes_split(1) rev_filter)
  then show ?thesis
    using assms unfolding find_all [OF all] find_filter [of _ "rev (concat (map gu_changes due))"]
    by (auto split: list.splits)
qed

lemma evidence_col: "col \<in> set (evidence_cols due) \<Longrightarrow> \<exists>ch \<in> set (concat (map gu_changes due)). ch_col ch = col"
  by (auto simp: evidence_cols_def)

lemma hits_fold:
  "rc_hits out + length (filter evidence gs) \<le> umax 32 \<Longrightarrow>
     rc_hits (snd (fold (confirm_guess now) gs (p, out))) = rc_hits out + length (filter evidence gs)"
proof (induction gs arbitrary: p out)
  case (Cons g gs)
  show ?case
  proof (cases "evidence g")
    case False
    then show ?thesis using Cons by (simp add: confirm_guess_def)
  next
    case True
    then obtain q where q: "confirm_guess now g (p, out) = (q, out\<lparr>rc_hits := rc_hits out + 1\<rparr>)"
      using Cons.prems by (auto simp: confirm_guess_def sat_add_exact)
    then show ?thesis using Cons.IH [of "out\<lparr>rc_hits := rc_hits out + 1\<rparr>" q] Cons.prems True by simp
  qed
qed simp

lemma misses_fold: "rc_misses (snd (fold (confirm_guess now) gs (p, out))) = rc_misses out"
proof (induction gs arbitrary: p out)
  case (Cons g gs)
  obtain q o2 where q: "confirm_guess now g (p, out) = (q, o2)" by fastforce
  then have "rc_misses o2 = rc_misses out" by (auto simp: confirm_guess_def split: if_splits)
  then show ?case using Cons.IH [of q o2] q by simp
qed simp

text \<open>
  What a frame does with the guesses it acknowledges, when it shows the row with exactly their changes applied and the
  cursor where they leave it.
\<close>

lemma reconcile_confirms:
  assumes ok: "guesses_ok p" and due: "due = takeWhile (\<lambda>g. gu_seq g \<le> ack) (pd_guesses p)" "due \<noteq> []"
    and row: "screen_line scr (pd_row p) = Some l" "ln_cells l = apply_changes (concat (map gu_changes due)) row"
    and inside: "\<forall>ch \<in> set (concat (map gu_changes due)). ch_col ch < length row"
    and cursor: "sc_cursor scr = cu" "cu_row cu = pd_row p" "cu_col cu = gu_cursor (last due)"
  shows "case reconcile scr ack now (p, no_result) of ((q, out), agreed) \<Rightarrow>
     agreed \<and> pd_guesses q = drop (length due) (pd_guesses p) \<and> rc_hits out = length (filter evidence due) \<and> rc_misses out = 0"
proof -
  define n where "n = length due"
  have n: "0 < n" using due(2) by (simp add: n_def)
  have prefix: "due = take n (pd_guesses p)" unfolding n_def due(1) by (rule takeWhile_eq_take)
  have plain: "typed_plain (gu_changes g)" if "g \<in> set due" for g
    using ok that unfolding prefix guesses_ok_def by (auto dest: in_set_takeD)
  have "cursor_after p n = gu_cursor (last due)"
  proof -
    have "n - 1 < length due" using n by (simp add: n_def)
    then have "n - 1 < length (pd_guesses p)" "due ! (n - 1) = pd_guesses p ! (n - 1)"
      unfolding due(1) by (simp_all add: takeWhile_nth less_le_trans [OF _ length_takeWhile_le])
    then show ?thesis using n due(2) by (simp add: cursor_after_def vec_get_def last_conv_nth n_def)
  qed
  moreover have found: "\<exists>i ch. find (\<lambda>(i, _). i < n) (rev (col_changes due col)) = Some (i, ch) \<and> reads_change (frame_shows scr p col) ch"
    if col: "col \<in> set (evidence_cols due)" for col
  proof -
    define chs where "chs = concat (map gu_changes due)"
    obtain c where c: "c \<in> set chs" "ch_col c = col" using evidence_col [OF col] by (auto simp: chs_def)
    then have "find (\<lambda>ch. ch_col ch = col) (rev chs) \<noteq> None" by (auto simp: find_None_iff)
    then obtain ch where ch: "find (\<lambda>ch. ch_col ch = col) (rev chs) = Some ch" by blast
    then have "ch \<in> set chs" "ch_col ch = col" using find_SomeD' by fastforce+
    have "col < length row" using inside c by (auto simp: chs_def)
    then have "frame_shows scr p col = Some (ch_cell ch)"
      using row ch by (simp add: frame_shows_def vec_get_def apply_changes_last chs_def)
    moreover have "ch_check ch = CheckTyped \<longrightarrow> \<not> ghost (ch_cell ch)"
      using \<open>ch \<in> set chs\<close> plain by (auto simp: chs_def typed_plain_def)
    ultimately have "reads_change (frame_shows scr p col) ch"
      by (auto simp: reads_change_def same_text_def split: check.splits)
    then show ?thesis using last_change [OF ch [unfolded chs_def]] by (auto simp: n_def)
  qed
  have "list_all (\<lambda>col. case find (\<lambda>(i, _). i < n) (rev (col_changes due col)) of
          Some (_, ch) \<Rightarrow> reads_change (frame_shows scr p col) ch
        | None \<Rightarrow> (case (col_origin p col, frame_shows scr p col) of (Some t, Some s) \<Rightarrow> same_text (cl_text s) t | _ \<Rightarrow> False))
       (evidence_cols due)"
    unfolding list_all_iff
  proof
    fix col assume "col \<in> set (evidence_cols due)"
    then obtain i ch where "find (\<lambda>(i, _). i < n) (rev (col_changes due col)) = Some (i, ch)" "reads_change (frame_shows scr p col) ch"
      using found by blast
    then show "case find (\<lambda>(i, _). i < n) (rev (col_changes due col)) of
          Some (_, ch) \<Rightarrow> reads_change (frame_shows scr p col) ch
        | None \<Rightarrow> (case (col_origin p col, frame_shows scr p col) of (Some t, Some s) \<Rightarrow> same_text (cl_text s) t | _ \<Rightarrow> False)"
      by simp
  qed
  ultimately have "reads_as (frame_shows scr p) (frame_cursor scr p) due p n"
    using cursor by (simp add: reads_as_def frame_cursor_def)
  then have "find (reads_as (frame_shows scr p) (frame_cursor scr p) due p) (rev [0..<n + 1]) = Some n" by simp
  then have r: "reconcile scr ack now (p, no_result) = (settle (frame_shows scr p) n now (p, no_result), True)"
    using due by (simp add: reconcile_def Let_def n_def)
  obtain q out where q: "settle (frame_shows scr p) n now (p, no_result) = (q, out)" by fastforce
  have "length (filter evidence due) \<le> umax 32"
    using ok length_filter_le [of evidence due] unfolding prefix guesses_ok_def by (simp add: MAX_PENDING_def umax_def)
  then have "rc_hits (snd (fold (confirm_guess now) due (p, no_result))) = length (filter evidence due)"
    using hits_fold [of no_result due now p] by (simp add: no_result_def)
  moreover have same: "snd (settle (frame_shows scr p) n now (p, no_result)) = snd (fold (confirm_guess now) due (p, no_result))"
    by (simp add: settle_def prefix [symmetric] Let_def split: prod.splits)
  ultimately have "rc_hits out = length (filter evidence due)" by (simp add: q)
  moreover have "rc_misses out = 0"
  proof -
    have "rc_misses no_result = 0" by (simp add: no_result_def)
    then show ?thesis using same misses_fold [of now due p no_result] by (simp add: q)
  qed
  ultimately show ?thesis using settled_keeps [OF q] unfolding n_def [symmetric] by (simp add: r q)
qed

text \<open>
  C9. A right guess is confirmed and never counted as a miss: after any run, when a frame of the same numbering
  acknowledges keys and shows the row with exactly their guesses applied and the cursor where they leave it, and the oldest
  key still in flight is not stale, then every one of those guesses leaves the keys in flight, the rest stay as they are
  and are what the frame reports as pending, each guess with evidence counts as a hit, and there is no miss.
\<close>

theorem echo_confirms_its_guesses:
  fixes es pol
  defines "p \<equiv> pd_run es (predictor_new pol)"
  assumes due: "due = takeWhile (\<lambda>g. gu_seq g \<le> ack) (pd_guesses p)" "due \<noteq> []"
    and row: "screen_line scr (pd_row p) = Some l" "ln_cells l = apply_changes (concat (map gu_changes due)) row"
    and inside: "\<forall>ch \<in> set (concat (map gu_changes due)). ch_col ch < length row"
    and cursor: "sc_cursor scr = cu" "cu_row cu = pd_row p" "cu_col cu = gu_cursor (last due)"
    and numbering: "pd_numbering p = None \<or> pd_numbering p = Some epoch"
    and waited: "case drop (length due) (pd_guesses p) of [] \<Rightarrow> True | g # _ \<Rightarrow> since now (gu_at g) \<le> STALE"
  shows "case on_frame scr ack epoch now p of (q, out) \<Rightarrow>
     pd_guesses q = drop (length due) (pd_guesses p) \<and> rc_hits out = length (filter evidence due) \<and> rc_misses out = 0 \<and>
     rc_pending out = length (pd_guesses q)"
proof -
  let ?s = "frame_start scr ack epoch p"
  have "guesses_ok p" unfolding p_def by (rule run_guesses_ok) (simp add: guesses_ok_def predictor_new_def)
  then have ok: "guesses_ok ?s" by (simp add: guesses_ok_def)
  obtain q out where r: "reconcile scr ack now (?s, no_result) = ((q, out), True)"
    and q: "pd_guesses q = drop (length due) (pd_guesses p)" "rc_hits out = length (filter evidence due)" "rc_misses out = 0"
    using reconcile_confirms [OF ok, of due ack scr l row cu now] due row inside cursor
    by (auto split: prod.splits)
  have "\<not> oldest_waited now STALE q" using waited by (auto simp: oldest_waited_def q(1) split: list.splits)
  then have "on_frame scr ack epoch now p = (redraw q, out\<lparr>rc_pending := length (pd_guesses q)\<rparr>)"
    using numbering r by (auto simp: on_frame_def Let_def stale_check_def)
  then show ?thesis using q by simp
qed

section \<open>Witnesses\<close>

text \<open>One key typed on an empty row of three columns, before any frame.\<close>

definition demo_cursor :: cursor where
  "demo_cursor = cursor_default\<lparr>cu_visible := True\<rparr>"

definition demo_key :: "ustring option \<Rightarrow> nat \<Rightarrow> key_event" where
  "demo_key t seq = \<lparr>ke_seq = seq, ke_action = Press, ke_code = OtherKey 1, ke_mods = 0, ke_consumed_mods = 0, ke_text = t,
     ke_unshifted = None, ke_composing = False, ke_option_as_alt = False\<rparr>"

definition demo_guess :: guess where
  "demo_guess = \<lparr>gu_seq = 1, gu_at = 0, gu_cursor = 1, gu_moves = False,
     gu_changes = [\<lparr>ch_col = 0, ch_cell = cell_narrow 97 STYLE_DEFAULT, ch_check = CheckText\<rparr>]\<rparr>"

lemma demo_stroke: "stroke_of (demo_key (Some [97]) seq) = Some (SType 97)" "stroke_of (demo_key None seq) = None"
  by (simp_all add: stroke_of_def printable_def demo_key_def flags_intersect_def is_control_def)

lemma demo_modes: "prediction_allowed 0"
  by (simp add: prediction_allowed_def flags_contain_def flags_intersect_def ECHO_OFF_def CANONICAL_def)

lemma demo_edit_line: "edit_line demo_cursor 3 (predictor_new pol) =
  \<lparr>ed_row = 0, ed_cursor = 0, ed_cols = 3, ed_limit = 3, ed_right_end = 3, ed_hidden = [], ed_cells = [BLANK, BLANK, BLANK],
   ed_base = None, ed_input = None, ed_wrapped_below = False\<rparr>"
  by (simp add: edit_line_def edit_row_def edit_cursor_def edit_base_def edit_cells_def right_shown_def right_fit_def
      predictor_new_def all_changes_def vec_resize_def demo_cursor_def cursor_default_def numeral_3_eq_3)

lemma demo_apply: "edit_apply (edit_line demo_cursor 3 (predictor_new pol)) (SType 97) 1 0 0 None = Some demo_guess"
proof -
  have blank: "blank BLANK" "\<not> ghost BLANK" by (simp_all add: blank_def ghost_def BLANK_def trims_empty_def)
  then have "text_end (edit_line demo_cursor 3 (predictor_new pol)) = 0"
    by (simp add: demo_edit_line text_end_def get_range_def rposition_def)
  moreover have "\<not> same_text (cl_text BLANK) [97]" "\<not> blank (cell_narrow 97 STYLE_DEFAULT)"
    by (simp_all add: same_text_def BLANK_def blank_def cell_narrow_def trims_empty_def is_whitespace_def)
  ultimately show ?thesis
    using blank by (simp add: edit_apply_def type_guess_def ed_cell_def vec_get_def sat_add_def umax_def demo_guess_def
        demo_edit_line Let_def cell_narrow_def) (simp add: BLANK_def)
qed

lemma demo_sel:
  "pd_policy (predictor_new pol) = pol" "pd_guesses (predictor_new pol) = []" "pd_interrupted (predictor_new pol) = False"
  "pd_barrier (predictor_new pol) = None" "pd_floor (predictor_new pol) = None" "pd_acked (predictor_new pol) = 0"
  "pd_base (predictor_new pol) = None"
  "pd_numbering (predictor_new pol) = None" "ke_seq (demo_key t seq) = seq" "ke_action (demo_key t seq) = Press" "cu_visible demo_cursor"
  by (simp_all add: predictor_new_def demo_key_def demo_cursor_def)

definition typed_run :: "pd_event list" where
  "typed_run = [KeyE (demo_key (Some [97]) 1) demo_cursor 3 0 0]"

lemma demo_typed:
  "pd_guesses (pd_run typed_run (predictor_new PolicyAlways)) = [demo_guess]"
  "pd_row (pd_run typed_run (predictor_new PolicyAlways)) = 0"
  "pd_guesses (fst (on_key (demo_key (Some [97]) 1) demo_cursor 3 0 0 (predictor_new PolicyAlways))) = [demo_guess]"
  "pd_numbering (pd_run typed_run (predictor_new PolicyAlways)) = None"
proof -
  have key: "fst (on_key (demo_key (Some [97]) 1) demo_cursor 3 0 0 (predictor_new PolicyAlways)) =
      add_guess (edit_line demo_cursor 3 (predictor_new PolicyAlways)) (SType 97) demo_guess
        ((predictor_new PolicyAlways)\<lparr>pd_sent := max (pd_sent (predictor_new PolicyAlways)) 1\<rparr>)"
    using demo_apply [of PolicyAlways]
    by (simp add: on_key_def Let_def demo_stroke demo_modes edit_line_sent demo_sel MAX_PENDING_def)
  then show guesses: "pd_guesses (fst (on_key (demo_key (Some [97]) 1) demo_cursor 3 0 0 (predictor_new PolicyAlways))) = [demo_guess]"
    by (simp add: demo_sel)
  then show "pd_guesses (pd_run typed_run (predictor_new PolicyAlways)) = [demo_guess]" by (simp add: typed_run_def)
  show "pd_row (pd_run typed_run (predictor_new PolicyAlways)) = 0"
    using key by (simp add: typed_run_def add_guess_def Let_def demo_sel demo_edit_line)
  show "pd_numbering (pd_run typed_run (predictor_new PolicyAlways)) = None"
    using key by (simp add: typed_run_def add_guess_def Let_def demo_sel demo_edit_line redraw_def)
qed

theorem held_key_hides_guesses_witness:
  "\<not> visible 0 (pd_run [KeyE (demo_key (Some [97]) 2) demo_cursor 3 0 0]
     (fst (on_key (demo_key None 1) demo_cursor 3 0 0 (predictor_new PolicyAlways))))"
  using held_key_hides_guesses [of "predictor_new PolicyAlways" "demo_key None 1" "[KeyE (demo_key (Some [97]) 2) demo_cursor 3 0 0]"
      demo_cursor 3 0 0 0]
  by (simp add: demo_stroke demo_sel)

theorem drawn_is_the_overlay_witness: "pn_col ` set (pd_drawn (pd_run typed_run (predictor_new PolicyAlways))) = {0}"
  using drawn_is_the_overlay [of typed_run PolicyAlways "[]"] by (simp add: demo_typed all_changes_def demo_guess_def)

theorem key_guess_is_the_edit_witness: "gu_cursor demo_guess = 1"
  using key_guess_is_the_edit [of 3 "predictor_new PolicyAlways" "demo_key (Some [97]) 1" demo_cursor 0 0 demo_guess]
  by (simp add: demo_typed(3) [unfolded One_nat_def] demo_sel MAX_COLS_def demo_stroke demo_edit_line Let_def)

definition echo_frame :: screen where
  "echo_frame = \<lparr>sc_cols = 3, sc_rows = 1,
     sc_lines = [(line_blank 3)\<lparr>ln_cells := [cell_narrow 97 STYLE_DEFAULT, BLANK, BLANK]\<rparr>],
     sc_cursor = demo_cursor\<lparr>cu_col := 1\<rparr>, sc_modes = 0\<rparr>"

theorem echo_confirms_its_guesses_witness:
  "case on_frame echo_frame 1 0 0 (pd_run typed_run (predictor_new PolicyAlways)) of (q, out) \<Rightarrow>
     pd_guesses q = [] \<and> rc_hits out = 1 \<and> rc_misses out = 0"
  using echo_confirms_its_guesses [of "[demo_guess]" 1 typed_run PolicyAlways echo_frame
      "(line_blank 3)\<lparr>ln_cells := [cell_narrow 97 STYLE_DEFAULT, BLANK, BLANK]\<rparr>" "[BLANK, BLANK, BLANK]" "demo_cursor\<lparr>cu_col := 1\<rparr>" 0 0]
  by (simp add: demo_typed demo_guess_def echo_frame_def screen_line_def demo_cursor_def cursor_default_def evidence_def
      split: prod.splits)

end
