(* ===== verification/Framing.thy ===== *)
theory Framing
  imports Grid
begin

text \<open>
  Messages on a stream (\<open>slopty-proto/src/codec.rs\<close>, \<open>slopty-net/src/framed.rs\<close>): each behind its length, four
  bytes little-endian, and read back from whatever pieces the transport hands over. The serializer (crate
  \<open>postcard\<close>) is a parameter of both ends: \<open>ser\<close> gives a message's bytes, \<open>de\<close> reads them within a budget of
  terminal cells. The locale \<open>length_prefix\<close> is what both this framing and that of NAL units rest on.
\<close>

section \<open>A length before its bytes\<close>

locale length_prefix =
  fixes put :: "nat \<Rightarrow> byte list" and get :: "byte list \<Rightarrow> nat" and size :: nat and bound :: nat
  assumes put_length: "length (put n) = size"
    and get_put: "n < bound \<Longrightarrow> get (put n) = n"
    and put_get: "length bs = size \<Longrightarrow> put (get bs) = bs"
    and get_bound: "length bs = size \<Longrightarrow> get bs < bound"
begin

definition framed :: "byte list \<Rightarrow> byte list" where
  "framed body = put (length body) @ body"

lemma framed_length: "length (framed body) = size + length body"
  by (simp add: framed_def put_length)

lemma framed_head:
  assumes "length body < bound"
  shows "get (take size (framed body @ rest)) = length body" "drop size (framed body @ rest) = body @ rest"
  using assms by (simp_all add: framed_def put_length get_put)

text \<open>The length is there as soon as its own bytes are, however much of the body follows.\<close>

lemma framed_part:
  assumes "length body < bound" and "part @ tl_bytes = framed body @ rest" and "size \<le> length part"
  shows "get (take size part) = length body"
proof -
  have "take size part = take size (part @ tl_bytes)" using assms(3) by simp
  then show ?thesis using framed_head(1) [OF assms(1)] assms(2) by simp
qed

lemma framed_of_head:
  assumes "size \<le> length bs" and "size + get (take size bs) \<le> length bs"
  shows "framed (take (get (take size bs)) (drop size bs)) @ drop (size + get (take size bs)) bs = bs"
proof -
  have "put (get (take size bs)) = take size bs" using assms(1) by (intro put_get) simp
  moreover have "length (take (get (take size bs)) (drop size bs)) = get (take size bs)" using assms(2) by simp
  moreover have "take size bs @ take n (drop size bs) @ drop (size + n) bs = bs" for n
    by (metis add.commute append_take_drop_id drop_drop)
  ultimately show ?thesis by (simp add: framed_def)
qed

lemma framed_inject:
  assumes "length a < bound" and "length b < bound" and "framed a @ x = framed b @ y"
  shows "a = b \<and> x = y"
proof -
  have "length a = length b" using framed_head(1) [OF assms(1), of x] framed_head(1) [OF assms(2), of y] assms(3) by simp
  then show ?thesis using assms(3) by (simp add: framed_def)
qed

end

interpretation le4: length_prefix "le_bytes 4" le_nat 4 "2 ^ 32"
proof unfold_locales
  show "le_nat (le_bytes 4 n) = n" if "n < 2 ^ 32" for n using that by (simp add: le_nat_le_bytes)
  show "le_bytes 4 (le_nat bs) = bs" if "length bs = 4" for bs using that le_bytes_le_nat [of bs] by simp
  show "le_nat bs < 2 ^ 32" if "length bs = 4" for bs using that le_nat_bound [of bs] by simp
qed simp

interpretation be4: length_prefix "be_bytes 4" be_nat 4 "2 ^ 32"
proof unfold_locales
  show "be_nat (be_bytes 4 n) = n" if "n < 2 ^ 32" for n using that by (simp add: be_nat_be_bytes)
  show "be_bytes 4 (be_nat bs) = bs" if "length bs = 4" for bs
    using that le_bytes_le_nat [of "rev bs"] by (simp add: be_bytes_def be_nat_def)
  show "be_nat bs < 2 ^ 32" if "length bs = 4" for bs using that be_nat_bound [of bs] by simp
qed simp

section \<open>Encoding a message\<close>

definition MAX_FRAME_BYTES :: nat where "MAX_FRAME_BYTES = 16 * 1024 * 1024"

definition PREFIX_BYTES :: nat where "PREFIX_BYTES = 4"

definition MAX_FETCH_LINES :: nat where "MAX_FETCH_LINES = 4096"

definition MAX_DECODED_CELLS :: nat where "MAX_DECODED_CELLS = MAX_FETCH_LINES * MAX_COLS"

definition SCRATCH_KEEP_BYTES :: nat where "SCRATCH_KEEP_BYTES = 64 * 1024"

lemmas frame_sizes = MAX_FRAME_BYTES_def PREFIX_BYTES_def

datatype 'pe codec_error = Encode 'pe | Decode 'pe | TooLarge nat nat

text \<open>
  \<open>encode_in\<close> serializes behind a reserved prefix into the thread's scratch buffer, which is empty while it works.
  What the allocator made of the grown buffer, \<open>capacity\<close>, decides whether the buffer is kept.
\<close>

definition encode_in ::
  "('m \<Rightarrow> 'pe + byte list) \<Rightarrow> (byte list \<Rightarrow> nat) \<Rightarrow> byte list \<Rightarrow> 'm \<Rightarrow> byte list \<times> ('pe codec_error + byte list)" where
  "encode_in ser capacity scratch msg =
    (case ser msg of
       Inl e \<Rightarrow> ([], Inl (Encode e))
     | Inr bytes \<Rightarrow>
       let out = replicate PREFIX_BYTES 0 @ bytes;
           len = length out - PREFIX_BYTES
       in if len > MAX_FRAME_BYTES then ([], Inl (TooLarge len MAX_FRAME_BYTES))
          else let out = le_bytes PREFIX_BYTES (to_width 32 len) @ drop PREFIX_BYTES out
               in if capacity out > SCRATCH_KEEP_BYTES then ([], Inr out) else (out, Inr out))"

definition encode_body :: "('m \<Rightarrow> 'pe + byte list) \<Rightarrow> 'm \<Rightarrow> 'pe codec_error + byte list" where
  "encode_body ser msg = (case ser msg of Inl e \<Rightarrow> Inl (Encode e) | Inr bytes \<Rightarrow> Inr bytes)"

section \<open>Taking frames from a buffer\<close>

definition decode_body ::
  "(byte list \<Rightarrow> nat option \<Rightarrow> nat option \<times> ('pe + 'm)) \<Rightarrow> byte list \<Rightarrow> 'pe codec_error + 'm" where
  "decode_body de body =
    (case fst (snd (with_cell_budget MAX_DECODED_CELLS (de body) None)) of Inl e \<Rightarrow> Inl (Decode e) | Inr m \<Rightarrow> Inr m)"

definition try_take :: "byte list \<Rightarrow> byte list \<times> ('pe codec_error + byte list option)" where
  "try_take buf =
    (if length buf < PREFIX_BYTES then (buf, Inr None)
     else let len = le_nat (take PREFIX_BYTES buf)
          in if len > MAX_FRAME_BYTES then (buf, Inl (TooLarge len MAX_FRAME_BYTES))
             else if length buf < PREFIX_BYTES + len then (buf, Inr None)
             else let buf = drop PREFIX_BYTES buf in (drop len buf, Inr (Some (take len buf))))"

definition try_decode ::
  "(byte list \<Rightarrow> nat option \<Rightarrow> nat option \<times> ('pe + 'm)) \<Rightarrow> byte list \<Rightarrow> byte list \<times> ('pe codec_error + 'm option)" where
  "try_decode de buf =
    (case try_take buf of
       (buf, Inl e) \<Rightarrow> (buf, Inl e)
     | (buf, Inr None) \<Rightarrow> (buf, Inr None)
     | (buf, Inr (Some body)) \<Rightarrow> (buf, case decode_body de body of Inl e \<Rightarrow> Inl e | Inr m \<Rightarrow> Inr (Some m)))"

section \<open>Receiving\<close>

text \<open>
  What the transport will hand over, read by read: bytes, none of them at the end of the stream, or an error. When nothing
  more is listed the stream has ended.
\<close>

datatype 'te read = Got "byte list" | ReadFailed 'te

datatype ('pe, 'te) net_error = Codec "'pe codec_error" | StreamError 'te | Closed

record 'te framed_recv =
  fr_stream :: "'te read list"
  fr_buf :: "byte list"

definition read_bytes :: "'te read \<Rightarrow> byte list" where
  "read_bytes r = (case r of Got bs \<Rightarrow> bs | ReadFailed _ \<Rightarrow> [])"

lemma try_take_shrinks:
  assumes "try_take buf = (buf', Inr (Some body))"
  shows "length buf' < length buf"
  using assms by (auto simp: try_take_def Let_def frame_sizes split: if_splits)

function recv_unless ::
  "(byte list \<Rightarrow> nat option \<Rightarrow> nat option \<times> ('pe + 'm)) \<Rightarrow> (byte list \<Rightarrow> bool) \<Rightarrow> 'te framed_recv
     \<Rightarrow> 'te framed_recv \<times> (('pe, 'te) net_error + 'm)" where
  "recv_unless de skip r =
    (case try_take (fr_buf r) of
       (buf, Inl e) \<Rightarrow> (r\<lparr>fr_buf := buf\<rparr>, Inl (Codec e))
     | (buf, Inr (Some body)) \<Rightarrow>
         if skip body then recv_unless de skip (r\<lparr>fr_buf := buf\<rparr>)
         else (r\<lparr>fr_buf := buf\<rparr>, case decode_body de body of Inl e \<Rightarrow> Inl (Codec e) | Inr m \<Rightarrow> Inr m)
     | (buf, Inr None) \<Rightarrow>
         (case fr_stream r of
            [] \<Rightarrow> (r\<lparr>fr_buf := buf\<rparr>, Inl Closed)
          | ReadFailed e # reads \<Rightarrow> (r\<lparr>fr_buf := buf, fr_stream := reads\<rparr>, Inl (StreamError e))
          | Got bs # reads \<Rightarrow>
              if bs = [] then (r\<lparr>fr_buf := buf, fr_stream := reads\<rparr>, Inl Closed)
              else recv_unless de skip (r\<lparr>fr_buf := buf @ bs, fr_stream := reads\<rparr>)))"
  by pat_completeness auto

text \<open>Every round takes a frame out of the buffer or a read off the stream, so the loop ends.\<close>

termination
proof (relation "measures [\<lambda>(_, _, r). length (fr_buf r) + sum_list (map (length \<circ> read_bytes) (fr_stream r)),
    \<lambda>(_, _, r). length (fr_stream r)]", simp, goal_cases)
  case (1 de skip r x)
  then have "length x = length (fr_buf r)" by (auto simp: try_take_def Let_def split: if_splits)
  with 1 show ?case by (auto simp: read_bytes_def)
next
  case (2 de skip r x)
  then have "length x < length (fr_buf r)" by (metis try_take_shrinks)
  then show ?case by simp
qed

declare recv_unless.simps [simp del]

definition recv where
  "recv de r = recv_unless de (\<lambda>_. False) r"

section \<open>A frame, however it was cut\<close>

lemma encode_in_frame:
  assumes "snd (encode_in ser capacity scratch msg) = Inr frame"
  obtains bytes where "ser msg = Inr bytes" "length bytes \<le> MAX_FRAME_BYTES" "frame = le4.framed bytes"
  using assms by (auto simp: encode_in_def Let_def le4.framed_def PREFIX_BYTES_def MAX_FRAME_BYTES_def to_width_def umax_def
      split: sum.splits if_splits)

lemma try_take_frame:
  assumes "length body \<le> MAX_FRAME_BYTES"
  shows "try_take (le4.framed body @ rest) = (rest, Inr (Some body))"
proof -
  have "length body < 2 ^ 32" using assms by (simp add: MAX_FRAME_BYTES_def)
  note head = le4.framed_head [OF this, of rest]
  show ?thesis using assms head unfolding try_take_def PREFIX_BYTES_def
    by (simp add: le4.framed_length del: append_eq_append_conv)
qed

lemma try_take_part:
  assumes "length body \<le> MAX_FRAME_BYTES" and "part @ tl_bytes = le4.framed body @ rest"
    and "length part < 4 + length body"
  shows "try_take part = (part, Inr None)"
proof -
  have "length body < 2 ^ 32" using assms(1) by (simp add: MAX_FRAME_BYTES_def)
  then show ?thesis using assms le4.framed_part [OF _ assms(2)]
    by (auto simp: try_take_def PREFIX_BYTES_def Let_def)
qed

definition chunked :: "byte list \<Rightarrow> byte list list \<Rightarrow> 'te framed_recv" where
  "chunked buf chunks = \<lparr>fr_stream = map Got chunks, fr_buf = buf\<rparr>"

text \<open>The bytes a receiver still has to hand out: those in its buffer, then those on their way, none of the reads empty.\<close>

definition pending :: "'te framed_recv \<Rightarrow> byte list \<Rightarrow> bool" where
  "pending r bytes \<longleftrightarrow> (\<exists>buf chunks. r = chunked buf chunks \<and> [] \<notin> set chunks \<and> buf @ concat chunks = bytes)"

lemma pendingI: "[] \<notin> set chunks \<Longrightarrow> buf @ concat chunks = bytes \<Longrightarrow> pending (chunked buf chunks) bytes"
  unfolding pending_def by blast

lemma recv_whole:
  assumes "length body \<le> MAX_FRAME_BYTES"
  shows "recv_unless de skip (chunked (le4.framed body @ buf) chunks) =
    (if skip body then recv_unless de skip (chunked buf chunks)
     else (chunked buf chunks, case decode_body de body of Inl e \<Rightarrow> Inl (Codec e) | Inr m \<Rightarrow> Inr m))"
  by (subst recv_unless.simps) (simp add: chunked_def try_take_frame [OF assms])

lemma recv_next:
  assumes "length body \<le> MAX_FRAME_BYTES" and "pending r (le4.framed body @ rest)"
  shows "\<exists>r'. pending r' rest \<and> recv_unless de skip r =
    (if skip body then recv_unless de skip r'
     else (r', case decode_body de body of Inl e \<Rightarrow> Inl (Codec e) | Inr m \<Rightarrow> Inr m))"
proof -
  obtain buf chunks where r: "r = chunked buf chunks" "[] \<notin> set chunks" "buf @ concat chunks = le4.framed body @ rest"
    using assms(2) by (auto simp: pending_def)
  show ?thesis using r
  proof (induction chunks arbitrary: buf r)
    case Nil
    then have "r = chunked (le4.framed body @ rest) []" "pending (chunked rest []) rest" by (auto intro: pendingI)
    then show ?case using recv_whole [OF assms(1)] by metis
  next
    case (Cons c chunks)
    show ?case
    proof (cases "length buf < 4 + length body")
      case True
      have "recv_unless de skip r = recv_unless de skip (chunked (buf @ c) chunks)"
        using Cons.prems(1,2) by (subst recv_unless.simps) (auto simp: chunked_def try_take_part [OF assms(1) Cons.prems(3) True])
      then show ?thesis using Cons.IH [of "chunked (buf @ c) chunks" "buf @ c"] Cons.prems by simp
    next
      case False
      have "take (length (le4.framed body)) (buf @ concat (c # chunks)) = le4.framed body" by (simp only: Cons.prems(3)) simp
      then have "take (length (le4.framed body)) buf = le4.framed body" using False by (simp add: le4.framed_length)
      then obtain more_bytes where buf: "buf = le4.framed body @ more_bytes" by (metis append_take_drop_id)
      then have "pending (chunked more_bytes (c # chunks)) rest" using Cons.prems by (intro pendingI) auto
      then show ?thesis using Cons.prems(1) recv_whole [OF assms(1)] unfolding buf by metis
    qed
  qed
qed

lemma recv_end:
  assumes "pending r []"
  shows "recv_unless de skip r = (r, Inl Closed)"
proof -
  have "r = chunked [] []" using assms by (auto simp: pending_def) (metis ex_in_conv set_empty2)
  then show ?thesis by (subst recv_unless.simps) (simp add: chunked_def try_take_def PREFIX_BYTES_def)
qed

section \<open>A conversation\<close>

text \<open>Messages encoded one after another through the same scratch buffer, and received one after another.\<close>

fun encode_run ::
  "('m \<Rightarrow> 'pe + byte list) \<Rightarrow> (byte list \<Rightarrow> nat) \<Rightarrow> byte list \<Rightarrow> 'm list \<Rightarrow> 'pe codec_error + byte list list" where
  "encode_run ser capacity scratch [] = Inr []"
| "encode_run ser capacity scratch (m # ms) =
    (case encode_in ser capacity scratch m of
       (_, Inl e) \<Rightarrow> Inl e
     | (scratch, Inr frame) \<Rightarrow> (case encode_run ser capacity scratch ms of Inl e \<Rightarrow> Inl e | Inr frames \<Rightarrow> Inr (frame # frames)))"

fun recv_run :: "(byte list \<Rightarrow> nat option \<Rightarrow> nat option \<times> ('pe + 'm)) \<Rightarrow> (byte list \<Rightarrow> bool) \<Rightarrow> nat \<Rightarrow> 'te framed_recv
    \<Rightarrow> (('pe, 'te) net_error + 'm) list" where
  "recv_run de skip 0 r = []"
| "recv_run de skip (Suc n) r = (case recv_unless de skip r of (r, x) \<Rightarrow> x # recv_run de skip n r)"

definition passes :: "('m \<Rightarrow> 'pe + byte list) \<Rightarrow> (byte list \<Rightarrow> bool) \<Rightarrow> 'm \<Rightarrow> bool" where
  "passes ser skip m \<longleftrightarrow> (case ser m of Inl _ \<Rightarrow> False | Inr body \<Rightarrow> \<not> skip body)"

lemma encode_run_Cons:
  assumes "encode_run ser capacity scratch (m # ms) = Inr frames"
  obtains body frames' scratch' where "ser m = Inr body" "length body \<le> MAX_FRAME_BYTES"
    "frames = le4.framed body # frames'" "encode_run ser capacity scratch' ms = Inr frames'"
proof -
  obtain scratch' frame frames' where enc: "encode_in ser capacity scratch m = (scratch', Inr frame)"
    "encode_run ser capacity scratch' ms = Inr frames'" "frames = frame # frames'"
    using assms by (auto split: sum.splits prod.splits)
  have "snd (encode_in ser capacity scratch m) = Inr frame" using enc(1) by simp
  from encode_in_frame [OF this] show thesis using that enc by metis
qed

lemma recv_run_pending:
  assumes "\<And>m body. ser m = Inr body \<Longrightarrow> decode_body de body = Inr m"
    and "encode_run ser capacity scratch ms = Inr frames" and "pending r (concat frames)"
  shows "recv_run de skip (Suc (length (filter (passes ser skip) ms))) r =
    map Inr (filter (passes ser skip) ms) @ [Inl Closed]"
  using assms(2,3)
proof (induction ms arbitrary: scratch frames r)
  case Nil
  then show ?case by (simp add: recv_end)
next
  case (Cons m ms)
  obtain body frames' scratch' where body: "ser m = Inr body" "length body \<le> MAX_FRAME_BYTES"
    and frames: "frames = le4.framed body # frames'" "encode_run ser capacity scratch' ms = Inr frames'"
    using encode_run_Cons [OF Cons.prems(1)] by blast
  have "pending r (le4.framed body @ concat frames')" using Cons.prems(2) frames(1) by simp
  then obtain r' where r': "pending r' (concat frames')" "recv_unless de skip r =
    (if skip body then recv_unless de skip r' else (r', Inr m))"
    using recv_next [OF body(2), of r "concat frames'" de skip] assms(1) [OF body(1)] by auto
  show ?case using Cons.IH [OF frames(2) r'(1)] r'(2) body(1) by (simp add: passes_def)
qed

text \<open>
  C15. Messages survive any cut of the stream: what a sender encodes, one message after another through its reused
  buffer, a receiver reads back in order, each message once, from whatever pieces the transport hands over, passing
  over exactly the messages its filter names; after the last it reports the end of the stream.
\<close>

theorem messages_survive_any_cut:
  assumes "\<And>m body. ser m = Inr body \<Longrightarrow> snd (de body (Some MAX_DECODED_CELLS)) = Inr m"
    and "encode_run ser capacity scratch ms = Inr frames"
    and "concat chunks = concat frames" and "[] \<notin> set chunks"
  shows "recv_run de skip (Suc (length (filter (passes ser skip) ms))) \<lparr>fr_stream = map Got chunks, fr_buf = []\<rparr> =
    map Inr (filter (passes ser skip) ms) @ [Inl Closed]"
proof -
  have "decode_body de body = Inr m" if "ser m = Inr body" for m body
    using assms(1) [OF that] by (auto simp: decode_body_def with_cell_budget_def Let_def split: prod.splits)
  moreover have "pending \<lparr>fr_stream = map Got chunks, fr_buf = []\<rparr> (concat frames)"
    using assms(3,4) pendingI [of chunks "[]"] by (simp add: chunked_def)
  ultimately show ?thesis using assms(2) by (intro recv_run_pending)
qed

lemma le_bytes_4: "le_bytes 4 x = [of_nat x, of_nat (x div 256), of_nat (x div 256 div 256), of_nat (x div 256 div 256 div 256)]"
proof -
  have four: "(4 :: nat) = Suc (Suc (Suc (Suc 0)))" by simp
  show ?thesis by (simp only: four le_bytes.simps)
qed

theorem messages_survive_any_cut_witness:
  "recv_run (\<lambda>body b. (b, Inr body :: unit + byte list)) (\<lambda>body. body = [9]) 3
     \<lparr>fr_stream = map Got [[2], [0, 0], [0, 7, 8, 1, 0, 0, 0, 9, 1, 0], [0, 0, 5]], fr_buf = []\<rparr>
   = [Inr [7, 8], Inr [5], Inl Closed :: (unit, unit) net_error + byte list]"
proof -
  have "encode_run Inr length [] [[7, 8], [9], [5 :: byte]]
      = (Inr [[2, 0, 0, 0, 7, 8], [1, 0, 0, 0, 9], [1, 0, 0, 0, 5]] :: unit codec_error + byte list list)"
    by (simp add: encode_in_def PREFIX_BYTES_def MAX_FRAME_BYTES_def SCRATCH_KEEP_BYTES_def to_width_def umax_def le_bytes_4 Let_def)
  note messages_survive_any_cut [OF _ this, where skip = "\<lambda>body. body = [9]" and de = "\<lambda>body b. (b, Inr body)"
      and chunks = "[[2], [0, 0], [0, 7, 8, 1, 0, 0, 0, 9, 1, 0], [0, 0, 5]]"]
  then show ?thesis by (simp add: passes_def numeral_3_eq_3)
qed

end
