(* ===== verification/Nal.thy ===== *)
theory Nal
  imports Framing
begin

text \<open>
  The framing of access units (\<open>slopty-codec/src/nal.rs\<close>): each NAL unit behind its length, four bytes big-endian;
  a keyframe's parameter sets in front, so that a decoder can be built from any keyframe. Offsets are taken within one
  buffer, whose length a \<open>usize\<close> holds.
\<close>

section \<open>Kinds of NAL units\<close>

definition VPS :: byte where "VPS = 32"
definition SPS :: byte where "SPS = 33"
definition PPS :: byte where "PPS = 34"

definition nal_type :: "byte list \<Rightarrow> byte option" where
  "nal_type nal = (case nal of [] \<Rightarrow> None | b # _ \<Rightarrow> Some (drop_bit 1 b AND 0x3f))"

definition is_parameter_set :: "byte list \<Rightarrow> bool" where
  "is_parameter_set nal \<longleftrightarrow> nal_type nal = Some VPS \<or> nal_type nal = Some SPS \<or> nal_type nal = Some PPS"

definition h264_SPS :: byte where "h264_SPS = 7"
definition h264_PPS :: byte where "h264_PPS = 8"

definition h264_nal_type :: "byte list \<Rightarrow> byte option" where
  "h264_nal_type nal = (case nal of [] \<Rightarrow> None | b # _ \<Rightarrow> Some (b AND 0x1f))"

definition h264_is_parameter_set :: "byte list \<Rightarrow> bool" where
  "h264_is_parameter_set nal \<longleftrightarrow> h264_nal_type nal = Some h264_SPS \<or> h264_nal_type nal = Some h264_PPS"

section \<open>Walking an access unit\<close>

definition PREFIX :: nat where "PREFIX = 4"

datatype nal_error = MalformedNal nat

definition split_first :: "byte list \<Rightarrow> unit + (byte list \<times> byte list) option" where
  "split_first bytes =
    (if bytes = [] then Inr None
     else if length bytes < PREFIX then Inl ()
     else let rest = drop PREFIX bytes; len = be_nat (take PREFIX bytes)
          in if len = 0 then Inl ()
             else if len > length rest then Inl ()
             else Inr (Some (take len rest, drop len rest)))"

lemma split_first_shrinks: "split_first bytes = Inr (Some (u, rest)) \<Longrightarrow> length rest < length bytes"
  by (auto simp: split_first_def Let_def split: if_splits)

function units :: "byte list \<Rightarrow> byte list list" where
  "units rest = (case split_first rest of Inr (Some (u, rest')) \<Rightarrow> u # units rest' | _ \<Rightarrow> [])"
  by pat_completeness auto

termination
  by (relation "measure length") (auto dest: split_first_shrinks)

function check_from :: "nat \<Rightarrow> byte list \<Rightarrow> nal_error + unit" where
  "check_from whole rest =
    (case split_first rest of
       Inr (Some (_, next_rest)) \<Rightarrow> check_from whole next_rest
     | Inr None \<Rightarrow> Inr ()
     | Inl _ \<Rightarrow> Inl (MalformedNal (whole - length rest)))"
  by pat_completeness auto

termination
  by (relation "measure (length \<circ> snd)") (auto dest: split_first_shrinks)

definition check_unit :: "byte list \<Rightarrow> nal_error + unit" where
  "check_unit access_unit = check_from (length access_unit) access_unit"

definition push_nal :: "byte list \<Rightarrow> byte list \<Rightarrow> nal_error + byte list" where
  "push_nal out nal =
    (if length nal > umax 32 then Inl (MalformedNal (length out))
     else if length nal = 0 then Inl (MalformedNal (length out))
     else Inr (out @ be_bytes 4 (length nal) @ nal))"

record access_unit =
  au_parameter_sets :: "byte list list"
  au_picture :: nat

function parse_from :: "(byte list \<Rightarrow> bool) \<Rightarrow> nat \<Rightarrow> byte list list \<Rightarrow> nat option \<Rightarrow> byte list \<Rightarrow> nal_error + access_unit" where
  "parse_from is_set whole sets picture rest =
    (case split_first rest of
       Inr (Some (u, next_rest)) \<Rightarrow>
         if picture = None then
           (if is_set u then parse_from is_set whole (sets @ [u]) None next_rest
            else parse_from is_set whole sets (Some (whole - length rest)) next_rest)
         else parse_from is_set whole sets picture next_rest
     | Inr None \<Rightarrow> Inr \<lparr>au_parameter_sets = sets, au_picture = opt_or picture whole\<rparr>
     | Inl _ \<Rightarrow> Inl (MalformedNal (whole - length rest)))"
  by pat_completeness auto

termination
  by (relation "measure (\<lambda>(_, _, _, _, rest). length rest)") (auto dest: split_first_shrinks)

definition parse_unit :: "byte list \<Rightarrow> (byte list \<Rightarrow> bool) \<Rightarrow> nal_error + access_unit" where
  "parse_unit access_unit is_set = parse_from is_set (length access_unit) [] None access_unit"

declare units.simps [simp del] check_from.simps [simp del] parse_from.simps [simp del]

section \<open>What a walk finds\<close>

definition nal_ok :: "byte list \<Rightarrow> bool" where
  "nal_ok nal \<longleftrightarrow> nal \<noteq> [] \<and> length nal < 2 ^ 32"

lemma split_first_framed:
  assumes "nal_ok nal"
  shows "split_first (be4.framed nal @ rest) = Inr (Some (nal, rest))"
proof -
  have "length nal < 2 ^ 32" "nal \<noteq> []" using assms by (simp_all add: nal_ok_def)
  note head = be4.framed_head [OF this(1), of rest] this(2)
  have "be4.framed nal @ rest \<noteq> []" using be4.framed_length [of nal] by (metis append_is_Nil_conv list.size(3) add_is_0 zero_neq_numeral)
  moreover have "\<not> length (be4.framed nal @ rest) < 4" by (simp add: be4.framed_length)
  ultimately show ?thesis unfolding split_first_def PREFIX_def Let_def head(1,2) using head(3) by simp
qed

lemma split_first_SomeD:
  assumes "split_first bytes = Inr (Some (u, rest))"
  shows "nal_ok u \<and> bytes = be4.framed u @ rest"
proof -
  let ?n = "be_nat (take 4 bytes)"
  have len: "4 \<le> length bytes" "0 < ?n" "4 + ?n \<le> length bytes"
    and u: "u = take ?n (drop 4 bytes)" "rest = drop (4 + ?n) bytes"
    using assms by (auto simp: split_first_def PREFIX_def Let_def add.commute split: if_splits)
  have "?n < 2 ^ 32" using be4.get_bound [of "take 4 bytes"] len(1) by simp
  then show ?thesis using be4.framed_of_head [OF len(1,3)] len u by (auto simp: nal_ok_def)
qed

lemma split_first_NoneD: "split_first bytes = Inr None \<longleftrightarrow> bytes = []"
  by (auto simp: split_first_def Let_def)

text \<open>Every buffer is units, each behind its length, and then either nothing or bytes that are no unit.\<close>

lemma units_spec:
  obtains junk where "bytes = concat (map be4.framed (units bytes)) @ junk" "list_all nal_ok (units bytes)"
    "junk = [] \<or> split_first junk = Inl ()"
proof -
  have "\<exists>junk. bytes = concat (map be4.framed (units bytes)) @ junk \<and> list_all nal_ok (units bytes) \<and>
    (junk = [] \<or> split_first junk = Inl ())"
  proof (induction bytes rule: units.induct)
    case (1 rest)
    show ?case
    proof (cases "split_first rest")
      case (Inl a)
      then show ?thesis by (intro exI [of _ rest]) (simp add: units.simps [of rest])
    next
      case (Inr x)
      show ?thesis
      proof (cases x)
        case None
        then have "rest = []" using Inr by (simp add: split_first_NoneD)
        then show ?thesis by (simp add: units.simps [of "[]"] split_first_def)
      next
        case (Some p)
        obtain u rest' where p: "p = (u, rest')" by fastforce
        have split: "split_first rest = Inr (Some (u, rest'))" using Inr Some p by simp
        then have "units rest = u # units rest'" by (simp add: units.simps [of rest])
        then show ?thesis using 1 [OF split refl refl] split_first_SomeD [OF split] by auto
      qed
    qed
  qed
  then show thesis using that by blast
qed

lemma units_framed:
  assumes "list_all nal_ok ns" and "junk = [] \<or> split_first junk = Inl ()"
  shows "units (concat (map be4.framed ns) @ junk) = ns"
  using assms
proof (induction ns)
  case Nil
  then show ?case using split_first_NoneD [of junk] by (auto simp: units.simps [of junk])
next
  case (Cons n ns)
  then show ?case by (simp add: units.simps [of "be4.framed n @ _"] split_first_framed)
qed

lemma check_framed:
  assumes "list_all nal_ok ns" and "junk = [] \<or> split_first junk = Inl ()"
  shows "check_from whole (concat (map be4.framed ns) @ junk) =
    (if junk = [] then Inr () else Inl (MalformedNal (whole - length junk)))"
  using assms
proof (induction ns)
  case Nil
  then show ?case using split_first_NoneD [of junk] by (auto simp: check_from.simps [of _ junk])
next
  case (Cons n ns)
  then show ?case by (simp add: check_from.simps [of _ "be4.framed n @ _"] split_first_framed)
qed

lemma parse_found:
  assumes "list_all nal_ok ns" and "junk = [] \<or> split_first junk = Inl ()"
  shows "parse_from is_set whole sets (Some p) (concat (map be4.framed ns) @ junk) =
    (if junk = [] then Inr \<lparr>au_parameter_sets = sets, au_picture = p\<rparr> else Inl (MalformedNal (whole - length junk)))"
  using assms
proof (induction ns)
  case Nil
  then show ?case using split_first_NoneD [of junk] by (auto simp: parse_from.simps [of _ _ _ _ junk])
next
  case (Cons n ns)
  then show ?case by (simp add: parse_from.simps [of _ _ _ _ "be4.framed n @ _"] split_first_framed)
qed

lemma parse_framed:
  assumes "list_all nal_ok ns" and "junk = [] \<or> split_first junk = Inl ()"
    and "whole = done_bytes + length (concat (map be4.framed ns) @ junk)"
  shows "parse_from is_set whole sets None (concat (map be4.framed ns) @ junk) =
    (if junk = [] then Inr \<lparr>au_parameter_sets = sets @ takeWhile is_set ns,
       au_picture = done_bytes + length (concat (map be4.framed (takeWhile is_set ns)))\<rparr>
     else Inl (MalformedNal (whole - length junk)))"
  using assms
proof (induction ns arbitrary: sets done_bytes)
  case Nil
  then show ?case using split_first_NoneD [of junk] by (auto simp: parse_from.simps [of _ _ _ _ junk])
next
  case (Cons n ns)
  then have ok: "nal_ok n" "list_all nal_ok ns" by simp_all
  show ?case
  proof (cases "is_set n")
    case True
    then show ?thesis using Cons.IH [OF ok(2) Cons.prems(2), of "done_bytes + length (be4.framed n)" "sets @ [n]"] Cons.prems(3)
      by (simp add: parse_from.simps [of _ _ _ _ "be4.framed n @ _"] split_first_framed [OF ok(1)])
  next
    case False
    then show ?thesis using parse_found [OF ok(2) Cons.prems(2)] Cons.prems(3)
      by (simp add: parse_from.simps [of _ _ _ _ "be4.framed n @ _"] split_first_framed [OF ok(1)])
  qed
qed

lemma push_nal_framed: "push_nal out nal = (if nal_ok nal then Inr (out @ be4.framed nal) else Inl (MalformedNal (length out)))"
  by (auto simp: push_nal_def nal_ok_def be4.framed_def umax_def)


text \<open>
  C19. The walk over an access unit always ends, after at most one round for every five bytes, and is exact: a parse succeeds exactly when the check does. Then the bytes are
  the units one after another, each behind its length; the parameter sets are the ones in front, in order; and from the offset of
  the picture on, the bytes are again an access unit, of the remaining units. Otherwise the offset reported is that of the
  first length that leads nowhere: all before it is whole units, and no unit starts there.
\<close>

theorem access_unit_walk:
  "5 * length (units au) \<le> length au \<and> (case parse_unit au is_set of
     Inr a \<Rightarrow> check_unit au = Inr () \<and> au = concat (map (\<lambda>u. be_bytes 4 (length u) @ u) (units au)) \<and>
       au_parameter_sets a = takeWhile is_set (units au) \<and>
       units (take (au_picture a) au) = takeWhile is_set (units au) \<and> check_unit (take (au_picture a) au) = Inr () \<and>
       units (drop (au_picture a) au) = dropWhile is_set (units au) \<and> check_unit (drop (au_picture a) au) = Inr ()
   | Inl (MalformedNal off) \<Rightarrow> check_unit au = Inl (MalformedNal off) \<and> off < length au \<and>
       take off au = concat (map (\<lambda>u. be_bytes 4 (length u) @ u) (units au)) \<and> split_first (drop off au) = Inl ())"
proof -
  obtain junk where au: "au = concat (map be4.framed (units au)) @ junk" "list_all nal_ok (units au)"
    "junk = [] \<or> split_first junk = Inl ()" by (rule units_spec)
  let ?ns = "units au" and ?sets = "takeWhile is_set (units au)" and ?rest = "dropWhile is_set (units au)"
  have framed: "be4.framed = (\<lambda>u. be_bytes 4 (length u) @ u)" by (simp add: be4.framed_def fun_eq_iff)
  have len: "length au = length (concat (map be4.framed ?ns)) + length junk" using arg_cong [OF au(1), of length] by simp
  have parse: "parse_unit au is_set = (if junk = [] then Inr \<lparr>au_parameter_sets = ?sets,
       au_picture = length (concat (map be4.framed ?sets))\<rparr> else Inl (MalformedNal (length au - length junk)))"
    using parse_framed [OF au(2,3), of "length au" 0 is_set "[]"] au(1) by (simp add: parse_unit_def flip: au(1))
  have check: "check_unit au = (if junk = [] then Inr () else Inl (MalformedNal (length au - length junk)))"
    using check_framed [OF au(2,3), of "length au"] by (simp add: check_unit_def flip: au(1))
  have parts: "concat (map be4.framed ?ns) = concat (map be4.framed ?sets) @ concat (map be4.framed ?rest)"
    by (metis concat_append map_append takeWhile_dropWhile_id)
  have ok: "list_all nal_ok ?sets" "list_all nal_ok ?rest"
    using au(2) by (auto simp: list_all_iff dest: set_takeWhileD set_dropWhileD)
  have "5 * length ns \<le> length (concat (map be4.framed ns))" if "list_all nal_ok ns" for ns
    using that
  proof (induction ns)
    case (Cons n ns)
    then have "1 \<le> length n" by (cases n) (simp_all add: nal_ok_def)
    then show ?case using Cons by (simp add: be4.framed_length)
  qed simp
  from this [OF au(2)] have rounds: "5 * length ?ns \<le> length au" using len by simp
  show ?thesis
  proof (cases "junk = []")
    case True
    then have "au = concat (map be4.framed ?sets) @ concat (map be4.framed ?rest)" using au(1) parts by simp
    then have cut: "take (length (concat (map be4.framed ?sets))) au = concat (map be4.framed ?sets)"
      "drop (length (concat (map be4.framed ?sets))) au = concat (map be4.framed ?rest)"
      by (metis append_eq_conv_conj)+
    show ?thesis using rounds True parse check au(1) cut units_framed [OF ok(1), of "[]"] units_framed [OF ok(2), of "[]"]
        check_framed [OF ok(1), of "[]"] check_framed [OF ok(2), of "[]"]
      by (simp add: check_unit_def framed)
  next
    case False
    then have "split_first junk = Inl ()" using au(3) by simp
    moreover have "take (length au - length junk) au = concat (map be4.framed ?ns)" "drop (length au - length junk) au = junk"
      using len au(1) by (metis add_diff_cancel_right' append_eq_conv_conj)+
    ultimately show ?thesis using rounds False parse check len by (simp add: framed)
  qed
qed

fun push_all :: "byte list \<Rightarrow> byte list list \<Rightarrow> nal_error + byte list" where
  "push_all out [] = Inr out"
| "push_all out (n # ns) = (case push_nal out n of Inl e \<Rightarrow> Inl e | Inr out \<Rightarrow> push_all out ns)"

lemma push_all_framed: "push_all out ns = Inr au \<Longrightarrow> list_all nal_ok ns \<and> au = out @ concat (map be4.framed ns)"
  by (induction ns arbitrary: out) (auto simp: push_nal_framed split: if_splits, fastforce)

lemma pushed_units: "push_all [] ns = Inr au \<Longrightarrow> units au = ns \<and> check_unit au = Inr ()"
  using push_all_framed [of "[]" ns au] units_framed [of ns "[]"] check_framed [of ns "[]"]
  by (auto simp: check_unit_def)

end
