(* ===== verification/Sps.thy ===== *)
theory Sps
  imports Nal "HOL-Library.Monad_Syntax"
begin

text \<open>
  The conformance window of a sequence parameter set (\<open>slopty-codec/src/conformance.rs\<close>): an SPS read bit by bit up to
  its window, the window set so that a decoder shows the top left of the coded picture, and every other bit copied. A reading
  function takes the bytes and the bit it starts at, and gives what it read and the bit after it, or \<open>None\<close>.
\<close>

section \<open>Reading bits\<close>

definition checked :: "nat \<Rightarrow> nat \<Rightarrow> nat option" where
  "checked w x = (if x \<le> umax w then Some x else None)"

definition bit_at :: "byte list \<Rightarrow> nat \<Rightarrow> bool option" where
  "bit_at bytes i =
    (if i div 8 < length bytes then Some (drop_bit (7 - i mod 8) (bytes ! (i div 8)) AND 1 = 1) else None)"

type_synonym 'a reader = "byte list \<Rightarrow> nat \<Rightarrow> ('a \<times> nat) option"

text \<open>One reading after another, as the source's methods do on their shared position.\<close>

definition and_then :: "'a reader \<Rightarrow> ('a \<Rightarrow> 'b reader) \<Rightarrow> 'b reader" where
  "and_then f g = (\<lambda>bytes i. case f bytes i of None \<Rightarrow> None | Some (x, j) \<Rightarrow> g x bytes j)"

definition give :: "'a \<Rightarrow> 'a reader" where
  "give x = (\<lambda>bytes i. Some (x, i))"

definition from_option :: "'a option \<Rightarrow> 'a reader" where
  "from_option x = (\<lambda>bytes i. case x of None \<Rightarrow> None | Some y \<Rightarrow> Some (y, i))"

definition read_flag :: "bool reader" where
  "read_flag = (\<lambda>bytes i. do { b \<leftarrow> bit_at bytes i; j \<leftarrow> checked 64 (i + 1); Some (b, j) })"

fun read_acc :: "nat \<Rightarrow> nat \<Rightarrow> nat reader" where
  "read_acc acc 0 = give acc"
| "read_acc acc (Suc n) = and_then read_flag (\<lambda>b. read_acc ((2 * acc + of_bool b) mod 2 ^ 32) n)"

definition read_bits :: "nat \<Rightarrow> nat reader" where
  "read_bits n = read_acc 0 n"

definition skip_bits :: "nat \<Rightarrow> unit reader" where
  "skip_bits n = (\<lambda>bytes i. do {
     j \<leftarrow> checked 64 (i + n);
     most \<leftarrow> checked 64 (length bytes * 8);
     if j \<le> most then Some ((), j) else None })"

function ue_zeros :: "nat \<Rightarrow> nat reader" where
  "ue_zeros zeros = and_then read_flag (\<lambda>b. if b then give zeros
     else if zeros + 1 < 32 then ue_zeros (zeros + 1) else (\<lambda>_ _. None))"
  by pat_completeness auto

termination
  by (relation "measure (\<lambda>zeros. 32 - zeros)") auto

declare ue_zeros.simps [simp del]

definition read_ue :: "nat reader" where
  "read_ue = and_then (ue_zeros 0) (\<lambda>zeros. and_then (read_bits zeros) (\<lambda>v. from_option (checked 32 (2 ^ zeros - 1 + v))))"

section \<open>The head of an SPS\<close>

record sps_head =
  hd_chroma_format_idc :: nat
  hd_separate_colour_plane :: bool
  hd_width :: nat
  hd_height :: nat
  hd_window :: "(nat \<times> nat \<times> nat \<times> nat) option"
  hd_bit_depth :: nat
  hd_window_at :: nat
  hd_after_window :: nat

definition head_units :: "sps_head \<Rightarrow> nat \<times> nat" where
  "head_units h = (if hd_chroma_format_idc h = 1 then (2, 2) else if hd_chroma_format_idc h = 2 then (2, 1) else (1, 1))"

definition checked_sub :: "nat \<Rightarrow> nat \<Rightarrow> nat option" where
  "checked_sub a b = (if b \<le> a then Some (a - b) else None)"

definition head_shown :: "sps_head \<Rightarrow> (nat \<times> nat) option" where
  "head_shown h =
    (case opt_or (hd_window h) (0, 0, 0, 0) of (left, right, upper, lower) \<Rightarrow> case head_units h of (sw, sh) \<Rightarrow> do {
       lr \<leftarrow> checked 32 (left + right); across \<leftarrow> checked 32 (lr * sw);
       tb \<leftarrow> checked 32 (upper + lower); down \<leftarrow> checked 32 (tb * sh);
       w \<leftarrow> checked_sub (hd_width h) across; h \<leftarrow> checked_sub (hd_height h) down;
       Some (w, h) })"

fun read_present :: "nat \<Rightarrow> (bool \<times> bool) list reader" where
  "read_present 0 = give []"
| "read_present (Suc n) = and_then read_flag (\<lambda>profile. and_then read_flag (\<lambda>level.
     and_then (read_present n) (\<lambda>ls. give ((profile, level) # ls))))"

fun skip_layers :: "(bool \<times> bool) list \<Rightarrow> unit reader" where
  "skip_layers [] = give ()"
| "skip_layers ((profile, level) # ls) =
    and_then (if profile then skip_bits 88 else give ()) (\<lambda>_.
    and_then (if level then skip_bits 8 else give ()) (\<lambda>_. skip_layers ls))"

text \<open>Everything before the window, the window, and what follows it, in the order of the source.\<close>

definition read_profile :: "unit reader" where
  "read_profile =
     and_then (skip_bits 4) (\<lambda>_. and_then (read_bits 3) (\<lambda>sub_layers. and_then (skip_bits 1) (\<lambda>_. and_then (skip_bits 96) (\<lambda>_.
     and_then (read_present sub_layers) (\<lambda>present.
     and_then (if sub_layers > 0 then skip_bits (2 * (8 - sub_layers)) else give ()) (\<lambda>_. skip_layers present))))))"

definition read_format :: "(nat \<times> bool \<times> nat \<times> nat) reader" where
  "read_format =
     and_then read_ue (\<lambda>_. and_then read_ue (\<lambda>chroma_format_idc.
     and_then (if chroma_format_idc = 3 then read_flag else give False) (\<lambda>separate_colour_plane.
     and_then read_ue (\<lambda>width. and_then read_ue (\<lambda>height. give (chroma_format_idc, separate_colour_plane, width, height))))))"

definition read_window :: "(nat \<times> nat \<times> nat \<times> nat) option reader" where
  "read_window = and_then read_flag (\<lambda>b. if b then
     and_then read_ue (\<lambda>left. and_then read_ue (\<lambda>right. and_then read_ue (\<lambda>upper. and_then read_ue (\<lambda>lower.
       give (Some (left, right, upper, lower))))))
   else give None)"

definition read_depth :: "nat reader" where
  "read_depth = and_then read_ue (\<lambda>v. from_option (checked 32 (v + 8)))"

definition position :: "nat reader" where
  "position = (\<lambda>bytes i. Some (i, i))"

definition read_head :: "sps_head reader" where
  "read_head =
     and_then read_profile (\<lambda>_. and_then read_format (\<lambda>(chroma_format_idc, separate_colour_plane, width, height).
     and_then position (\<lambda>window_at. and_then read_window (\<lambda>window. and_then position (\<lambda>after_window.
     and_then read_depth (\<lambda>bit_depth.
       give \<lparr>hd_chroma_format_idc = chroma_format_idc, hd_separate_colour_plane = separate_colour_plane,
         hd_width = width, hd_height = height, hd_window = window, hd_bit_depth = bit_depth,
         hd_window_at = window_at, hd_after_window = after_window\<rparr>))))))"

definition head_of :: "byte list \<Rightarrow> sps_head option" where
  "head_of rbsp = map_option fst (read_head rbsp 0)"

section \<open>Escapes\<close>

definition zeros_after :: "nat \<Rightarrow> byte \<Rightarrow> nat" where
  "zeros_after zeros b = (if b = 0 then sat_add 8 zeros 1 else 0)"

fun unescape_from :: "nat \<Rightarrow> byte list \<Rightarrow> byte list" where
  "unescape_from zeros [] = []"
| "unescape_from zeros (b # bs) =
    (if zeros \<ge> 2 \<and> b = 3 then unescape_from 0 bs else b # unescape_from (zeros_after zeros b) bs)"

definition unescape :: "byte list \<Rightarrow> byte list" where
  "unescape escaped = unescape_from 0 escaped"

fun escape_from :: "nat \<Rightarrow> byte list \<Rightarrow> byte list" where
  "escape_from zeros [] = []"
| "escape_from zeros (b # bs) =
    (if zeros \<ge> 2 \<and> b \<le> 3 then 3 # b # escape_from (zeros_after 0 b) bs
     else b # escape_from (zeros_after zeros b) bs)"

definition escape_into :: "byte list \<Rightarrow> byte list \<Rightarrow> byte list" where
  "escape_into rbsp out = out @ escape_from 0 rbsp"

definition head :: "byte list \<Rightarrow> sps_head option" where
  "head nal = do {
     t \<leftarrow> nal_type nal;
     if t \<noteq> SPS then None
     else do { payload \<leftarrow> get_range nal 2 (length nal); head_of (unescape payload) } }"

definition sample_format :: "byte list \<Rightarrow> (nat \<times> nat) option" where
  "sample_format nal = map_option (\<lambda>h. (hd_chroma_format_idc h, hd_bit_depth h)) (head nal)"

definition shown_size :: "byte list \<Rightarrow> (nat \<times> nat) option" where
  "shown_size nal = do { h \<leftarrow> head nal; head_shown h }"

section \<open>Writing bits\<close>

record writer =
  wr_bytes :: "byte list"
  wr_used :: nat

definition writer_default :: writer where
  "writer_default = \<lparr>wr_bytes = [], wr_used = 0\<rparr>"

definition write_bit :: "bool \<Rightarrow> writer \<Rightarrow> writer" where
  "write_bit b w =
    (let bytes = (if wr_used w = 0 then wr_bytes w @ [0] else wr_bytes w);
         bytes = (if b \<and> bytes \<noteq> [] then butlast bytes @ [last bytes OR drop_bit (wr_used w) 0x80] else bytes)
     in \<lparr>wr_bytes = bytes, wr_used = (wr_used w + 1) mod 8\<rparr>)"

text \<open>\<open>64 - code.leading_zeros()\<close>.\<close>

fun bit_length :: "nat \<Rightarrow> nat" where
  "bit_length n = (if n = 0 then 0 else Suc (bit_length (n div 2)))"

declare bit_length.simps [simp del]

definition write_ue :: "nat \<Rightarrow> writer \<Rightarrow> writer" where
  "write_ue v w =
    (let code = v + 1; len = bit_length code
     in fold write_bit (map (\<lambda>i. code div 2 ^ i mod 2 = 1) (rev [0..<len])) (fold write_bit (replicate (len - 1) False) w))"

fun write_copy :: "byte list \<Rightarrow> nat \<Rightarrow> nat \<Rightarrow> writer \<Rightarrow> writer option" where
  "write_copy src i 0 w = Some w"
| "write_copy src i (Suc n) w = do { b \<leftarrow> bit_at src i; write_copy src (i + 1) n (write_bit b w) }"

section \<open>Cropping\<close>

definition crop_offset :: "nat \<Rightarrow> nat \<Rightarrow> nat \<Rightarrow> nat option" where
  "crop_offset coded shown unit_size = do {
     cut \<leftarrow> checked_sub coded shown;
     if unit_size \<noteq> 0 \<and> cut mod unit_size = 0 \<and> shown > 0 then Some (cut div unit_size) else None }"

text \<open>The last byte that is not zero, and in it the last bit that is set: \<open>rbsp_stop_one_bit\<close>.\<close>

fun last_nonzero :: "byte list \<Rightarrow> nat option" where
  "last_nonzero [] = None"
| "last_nonzero (b # bs) =
    (case last_nonzero bs of Some k \<Rightarrow> Some (Suc k) | None \<Rightarrow> if b \<noteq> 0 then Some 0 else None)"

definition trailing_zeros :: "byte \<Rightarrow> nat" where
  "trailing_zeros b = length (takeWhile (\<lambda>i. \<not> bit b i) [0..<8])"

definition stop_bit :: "byte list \<Rightarrow> nat option" where
  "stop_bit rbsp = do {
     k \<leftarrow> last_nonzero rbsp;
     p \<leftarrow> checked 64 (k * 8);
     q \<leftarrow> checked 64 (p + 7);
     checked_sub q (trailing_zeros (rbsp ! k)) }"

definition write_window :: "nat \<Rightarrow> nat \<Rightarrow> writer \<Rightarrow> writer" where
  "write_window right bottom w =
    (if right = 0 \<and> bottom = 0 then write_bit False w
     else fold write_ue [0, right, 0, bottom] (write_bit True w))"

definition crop_sps :: "byte list \<Rightarrow> nat \<times> nat \<Rightarrow> byte list option" where
  "crop_sps sps shown = do {
     t \<leftarrow> nal_type sps;
     if t \<noteq> SPS then None
     else do {
       header \<leftarrow> get_range sps 0 2;
       payload \<leftarrow> get_range sps 2 (length sps);
       let rbsp = unescape payload;
       h \<leftarrow> head_of rbsp;
       let (sw, sh) = head_units h;
       right \<leftarrow> crop_offset (hd_width h) (fst shown) sw;
       bottom \<leftarrow> crop_offset (hd_height h) (snd shown) sh;
       stop \<leftarrow> stop_bit rbsp;
       w \<leftarrow> write_copy rbsp 0 (hd_window_at h) writer_default;
       let w = write_window right bottom w;
       q \<leftarrow> checked 64 (stop + 1);
       n \<leftarrow> checked_sub q (hd_after_window h);
       w \<leftarrow> write_copy rbsp (hd_after_window h) n w;
       let nal = escape_into (wr_bytes w) header;
       h' \<leftarrow> head nal;
       if head_shown h' = Some shown then Some nal else None } }"

section \<open>Cropping an access unit\<close>

text \<open>Where each of a run of units starts in the buffer, past its length.\<close>

fun placed_units :: "nat \<Rightarrow> byte list list \<Rightarrow> (nat \<times> byte list) list" where
  "placed_units pos [] = []"
| "placed_units pos (u # us) = (pos + PREFIX, u) # placed_units (pos + PREFIX + length u) us"

fun crop_spans :: "nat \<times> nat \<Rightarrow> (nat \<times> byte list) list \<Rightarrow> nal_error + (nat \<times> nat \<times> byte list) list" where
  "crop_spans shown [] = Inr []"
| "crop_spans shown ((start, nal) # us) =
    (if nal_type nal \<noteq> Some SPS then crop_spans shown us
     else case crop_sps nal shown of
       None \<Rightarrow> Inl (MalformedNal start)
     | Some cropped \<Rightarrow>
       (case push_nal [] cropped of
          Inl e \<Rightarrow> Inl e
        | Inr unit_bytes \<Rightarrow>
          if start < 4 then Inl (MalformedNal start)
          else case crop_spans shown us of
            Inl e \<Rightarrow> Inl e
          | Inr spans \<Rightarrow> Inr ((start - 4, start + length nal, unit_bytes) # spans)))"

definition splice_span :: "nat \<times> nat \<times> byte list \<Rightarrow> byte list \<Rightarrow> byte list" where
  "splice_span span data = (case span of (start, stop, unit_bytes) \<Rightarrow> take start data @ unit_bytes @ drop stop data)"

definition crop_access_unit :: "byte list \<Rightarrow> nat \<times> nat \<Rightarrow> byte list \<times> (nal_error + unit)" where
  "crop_access_unit data shown =
    (case crop_spans shown (placed_units 0 (takeWhile is_parameter_set (units data))) of
       Inl e \<Rightarrow> (data, Inl e)
     | Inr spans \<Rightarrow> (fold splice_span (rev spans) data, Inr ()))"

end
