(* ===== verification/Sps_Bits.thy ===== *)
theory Sps_Bits
  imports Sps
begin

text \<open>
  Lemmas on the bits of a parameter set: escapes are undone and leave no start code, what a reader gives depends on the
  bits it passes and not on where they stand, what a writer holds, and that Exp-Golomb codes read back.
\<close>

section \<open>Escapes\<close>

lemma unescape_escape: "unescape_from z (escape_from z bs) = bs"
  by (induction bs arbitrary: z) (auto simp: zeros_after_def)

fun no_start :: "nat \<Rightarrow> byte list \<Rightarrow> bool" where
  "no_start z [] \<longleftrightarrow> True"
| "no_start z (b # bs) \<longleftrightarrow> \<not> (z \<ge> 2 \<and> b \<le> 2) \<and> no_start (zeros_after z b) bs"

lemma escape_no_start: "no_start z (escape_from z bs)"
proof (induction bs arbitrary: z)
  case (Cons b bs)
  have "\<not> (3 :: byte) \<le> 2" by simp
  moreover have "b \<le> 2 \<Longrightarrow> b \<le> 3" using order_trans [of b 2 3] by simp
  ultimately show ?case using Cons by (auto simp: zeros_after_def)
qed simp

lemma no_start_code:
  assumes "no_start z (xs @ [0, 0, b] @ ys)"
  shows "\<not> b \<le> 2"
  using assms
proof (induction xs arbitrary: z)
  case Nil
  have "2 \<le> zeros_after (zeros_after z 0) 0" by (simp add: zeros_after_def sat_add_def umax_def)
  then show ?case using Nil by simp
qed auto

section \<open>What a reader depends on\<close>

lemma bit_at_bit: "bit_at bytes i = (if i div 8 < length bytes then Some (bit (bytes ! (i div 8)) (7 - i mod 8)) else None)"
  by (simp add: bit_at_def bit_iff_odd_drop_bit and_one_eq mod_2_eq_odd)

lemma bit_at_Some_iff: "(\<exists>b. bit_at bytes i = Some b) \<longleftrightarrow> i < 8 * length bytes"
  by (auto simp: bit_at_def)

definition agrees :: "byte list \<Rightarrow> nat \<Rightarrow> byte list \<Rightarrow> nat \<Rightarrow> nat \<Rightarrow> bool" where
  "agrees bytes i bytes' i' n \<longleftrightarrow> i' + n \<le> 8 * length bytes' \<and> 8 * length bytes' \<le> umax 64 \<and>
     (\<forall>k < n. bit_at bytes' (i' + k) = bit_at bytes (i + k))"

definition local_reader :: "'a reader \<Rightarrow> bool" where
  "local_reader f \<longleftrightarrow> (\<forall>bytes i x j. f bytes i = Some (x, j) \<longrightarrow>
     i \<le> j \<and> (i \<le> 8 * length bytes \<longrightarrow> j \<le> 8 * length bytes) \<and>
     (\<forall>bytes' i'. agrees bytes i bytes' i' (j - i) \<longrightarrow> f bytes' i' = Some (x, i' + (j - i))))"

named_theorems readers \<open>readings that depend only on the bits they pass\<close>

lemma local_readerD:
  assumes "local_reader f" and "f bytes i = Some (x, j)"
  shows "i \<le> j" "i \<le> 8 * length bytes \<Longrightarrow> j \<le> 8 * length bytes"
    "agrees bytes i bytes' i' (j - i) \<Longrightarrow> f bytes' i' = Some (x, i' + (j - i))"
  using assms unfolding local_reader_def by blast+

lemma agrees_split:
  assumes "agrees bytes i bytes' i' (m + n)"
  shows "agrees bytes i bytes' i' m" "agrees bytes (i + m) bytes' (i' + m) n"
  using assms unfolding agrees_def by (auto simp: add.assoc)

lemma local_and_then [readers]:
  assumes "local_reader f" and "\<And>x. local_reader (g x)"
  shows "local_reader (and_then f g)"
  unfolding local_reader_def
proof (intro allI impI)
  fix bytes i y k
  assume "and_then f g bytes i = Some (y, k)"
  then obtain x j where f: "f bytes i = Some (x, j)" and g: "g x bytes j = Some (y, k)"
    by (auto simp: and_then_def split: option.splits)
  note f' = local_readerD [OF assms(1) f] and g' = local_readerD [OF assms(2) g]
  have "and_then f g bytes' i' = Some (y, i' + (k - i))" if "agrees bytes i bytes' i' (k - i)" for bytes' i'
  proof -
    have "agrees bytes i bytes' i' ((j - i) + (k - j))" using that f'(1) g'(1) by simp
    from agrees_split [OF this] have "f bytes' i' = Some (x, i' + (j - i))"
      "g x bytes' (i' + (j - i)) = Some (y, i' + (j - i) + (k - j))"
      using f'(3) [of bytes' i'] g'(3) [of bytes' "i' + (j - i)"] f'(1) by simp_all
    then show ?thesis using f'(1) g'(1) by (simp add: and_then_def)
  qed
  then show "i \<le> k \<and> (i \<le> 8 * length bytes \<longrightarrow> k \<le> 8 * length bytes) \<and>
      (\<forall>bytes' i'. agrees bytes i bytes' i' (k - i) \<longrightarrow> and_then f g bytes' i' = Some (y, i' + (k - i)))"
    using f'(1,2) g'(1,2) by auto
qed

lemma local_give [readers]: "local_reader (give x)"
  by (simp add: local_reader_def give_def agrees_def)

lemma local_fail [readers]: "local_reader (\<lambda>_ _. None)"
  by (simp add: local_reader_def)

lemma local_from_option [readers]: "local_reader (from_option x)"
  by (auto simp: local_reader_def from_option_def split: option.splits)

lemma local_flag [readers]: "local_reader read_flag"
  unfolding local_reader_def
proof (intro allI impI)
  fix bytes i x j
  assume "read_flag bytes i = Some (x, j)"
  then have b: "bit_at bytes i = Some x" and j: "j = i + 1" by (auto simp: read_flag_def checked_def bind_eq_Some_conv split: if_splits)
  show "i \<le> j \<and> (i \<le> 8 * length bytes \<longrightarrow> j \<le> 8 * length bytes) \<and>
      (\<forall>bytes' i'. agrees bytes i bytes' i' (j - i) \<longrightarrow> read_flag bytes' i' = Some (x, i' + (j - i)))"
    using b j bit_at_Some_iff [of bytes i] by (auto simp: agrees_def read_flag_def checked_def)
qed

lemma local_skip [readers]: "local_reader (skip_bits n)"
  by (auto simp: local_reader_def skip_bits_def checked_def agrees_def bind_eq_Some_conv split: if_splits)

lemma local_if [readers]: "local_reader f \<Longrightarrow> local_reader g \<Longrightarrow> local_reader (if b then f else g)"
  by simp

lemma local_read_acc [readers]: "local_reader (read_acc acc n)"
  by (induction n arbitrary: acc) (auto intro!: readers)

lemma local_read_bits [readers]: "local_reader (read_bits n)"
  by (simp add: read_bits_def local_read_acc)

lemma local_ue_zeros [readers]: "local_reader (ue_zeros n)"
proof (induction n rule: ue_zeros.induct)
  case (1 zeros)
  have "local_reader (ue_zeros (zeros + 1))" if "zeros + 1 < 32" using 1 [of False] that by simp
  then show ?case by (subst ue_zeros.simps) (auto intro!: readers)
qed

lemma local_ue [readers]: "local_reader read_ue"
  unfolding read_ue_def by (intro readers)

lemma local_present [readers]: "local_reader (read_present n)"
  by (induction n) (auto intro!: readers)

lemma local_layers [readers]: "local_reader (skip_layers ls)"
  by (induction ls rule: skip_layers.induct) (auto intro!: readers)

lemma local_profile [readers]: "local_reader read_profile"
  unfolding read_profile_def by (intro readers)

lemma local_format [readers]: "local_reader read_format"
  unfolding read_format_def by (intro readers)

lemma local_window [readers]: "local_reader read_window"
  unfolding read_window_def by (intro readers)

lemma local_depth [readers]: "local_reader read_depth"
  unfolding read_depth_def by (intro readers)

text \<open>Two readings of bits that agree as far as the shorter goes give the same.\<close>

lemma local_reader_same:
  assumes "local_reader f" and f: "f bytes i = Some (x, j)" "f bytes' i' = Some (x', j')"
    and "\<And>k. k < j - i \<Longrightarrow> k < j' - i' \<Longrightarrow> bit_at bytes' (i' + k) = bit_at bytes (i + k)"
    and "i \<le> 8 * length bytes" "i' \<le> 8 * length bytes'" "8 * length bytes \<le> umax 64" "8 * length bytes' \<le> umax 64"
  shows "x' = x \<and> j' - i' = j - i"
proof (cases "j - i \<le> j' - i'")
  case True
  note D = local_readerD [OF assms(1) f(1)] local_readerD [OF assms(1) f(2)]
  have "agrees bytes i bytes' i' (j - i)" using True assms D unfolding agrees_def by auto
  then show ?thesis using D(3) f(2) by auto
next
  case False
  note D = local_readerD [OF assms(1) f(1)] local_readerD [OF assms(1) f(2)]
  have "agrees bytes' i' bytes i (j' - i')" using False assms D unfolding agrees_def by auto
  then show ?thesis using D(6) f(1) by auto
qed

section \<open>Reading bits that are there\<close>

definition has_bits :: "byte list \<Rightarrow> nat \<Rightarrow> bool list \<Rightarrow> bool" where
  "has_bits bytes i bs \<longleftrightarrow> (\<forall>k < length bs. bit_at bytes (i + k) = Some (bs ! k))"

lemma has_bits_append: "has_bits bytes i (as @ bs) \<longleftrightarrow> has_bits bytes i as \<and> has_bits bytes (i + length as) bs"
proof
  assume h: "has_bits bytes i (as @ bs)"
  have "bit_at bytes (i + length as + k) = Some (bs ! k)" if "k < length bs" for k
    using h that unfolding has_bits_def by (metis add.assoc length_append nat_add_left_cancel_less nth_append_length_plus)
  moreover have "bit_at bytes (i + k) = Some (as ! k)" if "k < length as" for k
    using h that unfolding has_bits_def by (metis length_append nth_append trans_less_add1)
  ultimately show "has_bits bytes i as \<and> has_bits bytes (i + length as) bs" by (simp add: has_bits_def)
next
  assume h: "has_bits bytes i as \<and> has_bits bytes (i + length as) bs"
  show "has_bits bytes i (as @ bs)" unfolding has_bits_def
  proof (intro allI impI)
    fix k assume k: "k < length (as @ bs)"
    show "bit_at bytes (i + k) = Some ((as @ bs) ! k)"
    proof (cases "k < length as")
      case True
      then show ?thesis using h by (simp add: has_bits_def nth_append)
    next
      case False
      then have "k - length as < length bs" "i + length as + (k - length as) = i + k" using k by auto
      then have "bit_at bytes (i + k) = Some (bs ! (k - length as))" using h unfolding has_bits_def by metis
      then show ?thesis using False by (simp add: nth_append)
    qed
  qed
qed

lemma has_bits_Cons: "has_bits bytes i (b # bs) \<longleftrightarrow> bit_at bytes i = Some b \<and> has_bits bytes (i + 1) bs"
  using has_bits_append [of bytes i "[b]" bs] by (simp add: has_bits_def)

lemma has_bits_fit: "has_bits bytes i bs \<Longrightarrow> bs \<noteq> [] \<Longrightarrow> i + length bs \<le> 8 * length bytes"
  using bit_at_Some_iff [of bytes "i + (length bs - 1)"] unfolding has_bits_def
  by (cases "length bs") (auto simp: add.commute)

lemma read_flag_has:
  assumes "has_bits bytes i (b # bs)" and "8 * length bytes \<le> umax 64"
  shows "read_flag bytes i = Some (b, i + 1)"
proof -
  have "i < 8 * length bytes" using assms(1) bit_at_Some_iff [of bytes i] by (auto simp: has_bits_Cons)
  then show ?thesis using assms by (simp add: has_bits_Cons read_flag_def checked_def)
qed

lemma read_acc_has:
  assumes "has_bits bytes i bs" and "8 * length bytes \<le> umax 64"
  shows "read_acc acc (length bs) bytes i = Some (foldl (\<lambda>acc b. (2 * acc + of_bool b) mod 2 ^ 32) acc bs, i + length bs)"
  using assms
proof (induction bs arbitrary: acc i)
  case (Cons b bs)
  then show ?case using read_flag_has [OF Cons.prems] by (simp add: and_then_def has_bits_Cons)
qed (simp add: give_def)

definition digits :: "nat \<Rightarrow> nat \<Rightarrow> bool list" where
  "digits code n = map (\<lambda>i. code div 2 ^ i mod 2 = 1) (rev [0..<n])"

lemma digits_simps [simp]: "digits code 0 = []" "digits code (Suc n) = (code div 2 ^ n mod 2 = 1) # digits code n"
  "length (digits code n) = n"
  by (simp_all add: digits_def)

lemma horner_digits:
  assumes "acc * 2 ^ n + code mod 2 ^ n < 2 ^ 32"
  shows "foldl (\<lambda>acc b. (2 * acc + of_bool b) mod 2 ^ 32) acc (digits code n) = acc * 2 ^ n + code mod 2 ^ n"
  using assms
proof (induction n arbitrary: acc)
  case (Suc n)
  define d where "d = code div 2 ^ n mod 2"
  have "d < 2" by (simp add: d_def)
  then have d: "of_bool (d = 1) = d" by (auto simp: less_2_cases_iff)
  have split: "code mod 2 ^ Suc n = 2 ^ n * d + code mod 2 ^ n" 
    using mod_mult2_eq [of code "2 ^ n" 2] by (simp add: d_def mult.commute del: mod_mult2_eq)
  then have eq: "acc * 2 ^ Suc n + code mod 2 ^ Suc n = (2 * acc + d) * 2 ^ n + code mod 2 ^ n" by (simp add: algebra_simps)
  then have lt: "(2 * acc + d) * 2 ^ n + code mod 2 ^ n < 2 ^ 32" using Suc.prems by simp
  have "(2 * acc + d) * 1 \<le> (2 * acc + d) * 2 ^ n" by (intro mult_le_mono2) simp
  then have "2 * acc + d \<le> (2 * acc + d) * 2 ^ n + code mod 2 ^ n" unfolding mult_1_right by (rule trans_le_add1)
  then have "2 * acc + d < 2 ^ 32" using lt by (rule le_less_trans)
  then show ?case using Suc.IH [OF lt] eq d by (simp flip: d_def)
qed simp

lemma bit_length_bounds: "0 < n \<Longrightarrow> 2 ^ (bit_length n - 1) \<le> n \<and> n < 2 ^ bit_length n \<and> 0 < bit_length n"
proof (induction n rule: bit_length.induct)
  case (1 n)
  show ?case
  proof (cases "n div 2 = 0")
    case True
    then have "n = 1" using 1 by auto
    then show ?thesis by (simp add: bit_length.simps [of "Suc 0"] bit_length.simps [of 0])
  next
    case False
    then have ih: "2 ^ (bit_length (n div 2) - 1) \<le> n div 2" "n div 2 < 2 ^ bit_length (n div 2)" "0 < bit_length (n div 2)"
      using 1 by simp_all
    obtain m where m: "bit_length (n div 2) = Suc m" using ih(3) by (cases "bit_length (n div 2)") auto
    have "2 * 2 ^ m \<le> n" "n < 2 * 2 ^ Suc m" using ih(1,2) unfolding m by auto
    then show ?thesis using 1(2) m by (simp add: bit_length.simps [of n])
  qed
qed

definition ue_bits :: "nat \<Rightarrow> bool list" where
  "ue_bits v = replicate (bit_length (v + 1) - 1) False @ digits (v + 1) (bit_length (v + 1))"

lemma ue_zeros_has:
  assumes "has_bits bytes i (replicate n False @ True # bs)" and "8 * length bytes \<le> umax 64" and "z + n < 32"
  shows "ue_zeros z bytes i = Some (z + n, i + n + 1)"
  using assms
proof (induction n arbitrary: z i)
  case 0
  then show ?case by (subst ue_zeros.simps) (simp add: and_then_def read_flag_has give_def)
next
  case (Suc n)
  then have "read_flag bytes i = Some (False, i + 1)" by (intro read_flag_has) auto
  then show ?case using Suc.prems Suc.IH [of "i + 1" "z + 1"]
    by (subst ue_zeros.simps) (simp add: and_then_def has_bits_Cons)
qed

text \<open>An Exp-Golomb code reads back as what it codes, wherever it stands and whatever follows.\<close>

lemma read_ue_has:
  assumes "has_bits bytes i (ue_bits v)" and "8 * length bytes \<le> umax 64" and "v \<le> 2 ^ 32 - 2"
  shows "read_ue bytes i = Some (v, i + length (ue_bits v))"
proof -
  obtain m where len: "bit_length (v + 1) = Suc m" and bounds: "2 ^ m \<le> v + 1" "v + 1 < 2 ^ Suc m"
    using bit_length_bounds [of "v + 1"] by (cases "bit_length (v + 1)") auto
  have "v + 1 < (2 :: nat) ^ 32" using assms(3) by simp
  then have "(2 :: nat) ^ m < 2 ^ 32" using bounds(1) by (rule le_less_trans [rotated])
  then have m: "m < 32" by (rule power_less_imp_less_exp [rotated]) simp
  have "(v + 1) div 2 ^ m = 1" using bounds by (simp add: div_nat_eqI)
  then have bits: "ue_bits v = replicate m False @ True # digits (v + 1) m" 
    using len by (simp add: ue_bits_def)
  have md: "(v + 1) mod 2 ^ m = v + 1 - 2 ^ m"
    using bounds by (simp add: mod_if le_mod_geq)
  have tail: "has_bits bytes (i + m + 1) (digits (v + 1) m)"
    using assms(1) unfolding bits by (simp add: has_bits_append has_bits_Cons)
  have "read_bits m bytes (i + m + 1) = Some (v + 1 - 2 ^ m, i + m + 1 + m)"
    using read_acc_has [OF tail assms(2), of 0] horner_digits [of 0 m "v + 1"] md assms(3)
    by (simp add: read_bits_def)
  then show ?thesis
    using ue_zeros_has [of bytes i m "digits (v + 1) m" 0] assms bits m bounds
    by (auto simp: read_ue_def and_then_def from_option_def checked_def umax_def)
qed

section \<open>What a writer holds\<close>

definition holds :: "writer \<Rightarrow> bool list \<Rightarrow> bool" where
  "holds w bs \<longleftrightarrow> wr_used w = length bs mod 8 \<and> length (wr_bytes w) = (length bs + 7) div 8 \<and>
     (\<forall>i < 8 * length (wr_bytes w). bit_at (wr_bytes w) i = Some (i < length bs \<and> bs ! i))"

lemma holds_default: "holds writer_default []"
  by (simp add: holds_def writer_default_def)

lemma bit_at_append: "bit_at (xs @ ys) i = (if i < 8 * length xs then bit_at xs i else bit_at ys (i - 8 * length xs))"
proof (cases "i < 8 * length xs")
  case True
  then have "i div 8 < length xs" by linarith
  then show ?thesis using True by (simp add: bit_at_bit nth_append)
next
  case False
  define j where "j = i - 8 * length xs"
  have i: "i = 8 * length xs + j" using False by (simp add: j_def)
  show ?thesis unfolding i by (simp add: bit_at_bit nth_append)
qed

lemma bit_at_update:
  assumes "m < length xs"
  shows "bit_at (xs[m := x]) i = (if i div 8 = m then Some (bit x (7 - i mod 8)) else bit_at xs i)"
  using assms by (auto simp: bit_at_bit nth_list_update)

lemma last_update: "xs \<noteq> [] \<Longrightarrow> butlast xs @ [f (last xs)] = xs[length xs - 1 := f (xs ! (length xs - 1))]"
  by (cases xs rule: rev_cases) (simp_all add: nth_append)

lemma bit_mask_128: "bit (drop_bit u (0x80 :: byte)) k \<longleftrightarrow> u + k = 7"
proof -
  have mask: "(0x80 :: byte) = 2 ^ 7" by simp
  show ?thesis unfolding mask bit_drop_bit_eq comp_def bit_exp_iff by auto
qed

lemma holds_bit:
  assumes "holds w bs"
  shows "holds (write_bit b w) (bs @ [b])"
proof -
  define n where "n = length bs"
  define bytes where "bytes = (if wr_used w = 0 then wr_bytes w @ [0] else wr_bytes w)"
  have used: "wr_used w = n mod 8" and len: "length (wr_bytes w) = (n + 7) div 8"
    and bits: "\<And>i. i < 8 * length (wr_bytes w) \<Longrightarrow> bit_at (wr_bytes w) i = Some (i < n \<and> bs ! i)"
    using assms by (simp_all add: holds_def n_def)
  have lb: "length bytes = n div 8 + 1"
  proof (cases "n mod 8 = 0")
    case True
    then have "(n + 7) div 8 = n div 8" by presburger
    then show ?thesis using True used len by (simp add: bytes_def)
  next
    case False
    then have "(n + 7) div 8 = n div 8 + 1" by presburger
    then show ?thesis using False used len by (simp add: bytes_def)
  qed
  have old: "bit_at bytes i = Some (i < n \<and> bs ! i)" if "i < 8 * length bytes" for i
  proof (cases "wr_used w = 0")
    case True
    then have "(n + 7) div 8 * 8 = n" using used by presburger
    then have n: "8 * length (wr_bytes w) = n" using len by simp
    have "bit_at [0 :: byte] (i - n) = Some False" if "n \<le> i" using that n True \<open>i < 8 * length bytes\<close>
      by (simp add: bytes_def bit_at_bit)
    then show ?thesis using True bits [of i] n by (auto simp: bytes_def bit_at_append)
  next
    case False
    then show ?thesis using that bits [of i] by (simp add: bytes_def)
  qed
  define out where "out = (if b then bytes[n div 8 := bytes ! (n div 8) OR drop_bit (n mod 8) 0x80] else bytes)"
  have "bytes \<noteq> []" using lb by auto
  then have out: "write_bit b w = \<lparr>wr_bytes = out, wr_used = (n mod 8 + 1) mod 8\<rparr>"
    using last_update [of bytes "\<lambda>x. x OR drop_bit (n mod 8) 0x80"] lb used
    by (auto simp: write_bit_def out_def bytes_def Let_def)
  have "bit_at out i = Some (i < length (bs @ [b]) \<and> (bs @ [b]) ! i)" if i: "i < 8 * length out" for i
  proof -
    have "i < 8 * length bytes" using i by (simp add: out_def split: if_splits)
    note old' = old [OF this]
    have here: "bit (bytes ! (n div 8)) (7 - i mod 8) = (i < n \<and> bs ! i)" if "i div 8 = n div 8"
      using old' that lb by (simp add: bit_at_bit)
    have pos: "n mod 8 + (7 - i mod 8) = 7 \<and> i div 8 = n div 8 \<longleftrightarrow> i = n"
    proof -
      have "i mod 8 < 8" "n mod 8 < 8" by simp_all
      then have "n mod 8 + (7 - i mod 8) = 7 \<longleftrightarrow> i mod 8 = n mod 8" by linarith
      then show ?thesis by (metis div_mult_mod_eq)
    qed
    show ?thesis
    proof (cases b)
      case True
      then have "bit_at out i = (if i div 8 = n div 8 then Some (bit (bytes ! (n div 8) OR drop_bit (n mod 8) 0x80) (7 - i mod 8)) else bit_at bytes i)"
        using lb by (simp add: out_def bit_at_update)
      then show ?thesis using True here old' pos by (auto simp: bit_or_iff bit_mask_128 nth_append n_def)
    next
      case False
      then show ?thesis using old' by (auto simp: out_def nth_append n_def)
    qed
  qed
  moreover have "length out = (length (bs @ [b]) + 7) div 8" using lb by (simp add: out_def n_def)
  moreover have "(n mod 8 + 1) mod 8 = length (bs @ [b]) mod 8" by (simp add: n_def mod_simps)
  ultimately show ?thesis unfolding out holds_def by simp
qed

lemma holds_bits: "holds w bs \<Longrightarrow> holds (fold write_bit cs w) (bs @ cs)"
  by (induction cs arbitrary: w bs) (simp, metis append.assoc append_Cons append_Nil fold_simps(2) holds_bit)

lemma holds_ue: "holds w bs \<Longrightarrow> holds (write_ue v w) (bs @ ue_bits v)"
  unfolding write_ue_def ue_bits_def digits_def Let_def append_assoc [symmetric] by (intro holds_bits)

lemma holds_copy:
  assumes "holds w bs" and "write_copy src i n w = Some w'"
  obtains cs where "holds w' (bs @ cs)" "length cs = n" "has_bits src i cs"
proof -
  have "\<exists>cs. holds w' (bs @ cs) \<and> length cs = n \<and> has_bits src i cs"
    using assms
  proof (induction n arbitrary: w bs i)
    case 0
    then show ?case by (auto simp: has_bits_def)
  next
    case (Suc n)
    then obtain b where b: "bit_at src i = Some b" "write_copy src (i + 1) n (write_bit b w) = Some w'"
      by (auto simp: bind_eq_Some_conv)
    from Suc.IH [OF holds_bit [OF Suc.prems(1)] b(2)] obtain cs where
      "holds w' ((bs @ [b]) @ cs)" "length cs = n" "has_bits src (i + 1) cs" by blast
    then show ?case using b(1) by (intro exI [of _ "b # cs"]) (simp add: has_bits_Cons)
  qed
  then show thesis using that by blast
qed

lemma copy_Some:
  assumes "i + n \<le> 8 * length src"
  shows "\<exists>w'. write_copy src i n w = Some w'"
  using assms
proof (induction n arbitrary: i w)
  case (Suc n)
  then obtain b where "bit_at src i = Some b" using bit_at_Some_iff [of src i] by auto
  then show ?case using Suc by simp
qed simp

definition window_bits :: "nat \<Rightarrow> nat \<Rightarrow> bool list" where
  "window_bits right bottom = (if right = 0 \<and> bottom = 0 then [False]
     else True # ue_bits 0 @ ue_bits right @ ue_bits 0 @ ue_bits bottom)"

lemma holds_window: "holds w bs \<Longrightarrow> holds (write_window right bottom w) (bs @ window_bits right bottom)"
  using holds_ue [OF holds_ue [OF holds_ue [OF holds_ue [OF holds_bit [of w bs True]]]], of bottom 0 right 0] holds_bit [of w bs False]
  by (simp add: write_window_def window_bits_def)

lemma read_window_has:
  assumes "has_bits bytes i (window_bits right bottom)" and "8 * length bytes \<le> umax 64" and "right \<le> 2 ^ 32 - 2" "bottom \<le> 2 ^ 32 - 2"
  shows "read_window bytes i = Some (if right = 0 \<and> bottom = 0 then None else Some (0, right, 0, bottom),
     i + length (window_bits right bottom))"
proof (cases "right = 0 \<and> bottom = 0")
  case True
  then show ?thesis using read_flag_has [of bytes i False "[]"] assms
    by (simp add: read_window_def window_bits_def and_then_def give_def)
next
  case False
  have bits: "has_bits bytes i (True # ue_bits 0 @ ue_bits right @ ue_bits 0 @ ue_bits bottom)"
    using assms(1) False by (auto simp: window_bits_def)
  then have parts: "has_bits bytes (i + 1) (ue_bits 0)" "has_bits bytes (i + 1 + length (ue_bits 0)) (ue_bits right)"
    "has_bits bytes (i + 1 + length (ue_bits 0) + length (ue_bits right)) (ue_bits 0)"
    "has_bits bytes (i + 1 + length (ue_bits 0) + length (ue_bits right) + length (ue_bits 0)) (ue_bits bottom)"
    by (simp_all add: has_bits_Cons has_bits_append)
  show ?thesis
    using False read_flag_has [OF bits assms(2)] read_ue_has [OF parts(1) assms(2)] read_ue_has [OF parts(2) assms(2,3)]
      read_ue_has [OF parts(3) assms(2)] read_ue_has [OF parts(4) assms(2,4)]
    by (auto simp: read_window_def and_then_def give_def window_bits_def add.assoc)
qed

end
