(* ===== verification/Sps_Crop.thy ===== *)
theory Sps_Crop
  imports Sps_Bits
begin

text \<open>
  What cropping does to a parameter set and to the access unit that carries it: only the conformance window changes, the
  decoder shows what was asked for, and cropping refuses only what cannot be shown.
\<close>

section \<open>The stop bit\<close>

lemma last_nonzero_spec:
  "last_nonzero bs = Some k \<Longrightarrow> k < length bs \<and> bs ! k \<noteq> 0 \<and> (\<forall>j. k < j \<and> j < length bs \<longrightarrow> bs ! j = 0)"
  "last_nonzero bs = None \<Longrightarrow> \<forall>j < length bs. bs ! j = 0"
proof (induction bs arbitrary: k)
  case (Cons b bs)
  {
    case 1
    then show ?case using Cons by (auto simp: nth_Cons split: option.splits nat.splits if_splits)
  next
    case 2
    then show ?case using Cons by (auto simp: nth_Cons split: option.splits nat.splits if_splits)
  }
qed simp_all

lemma trailing_zeros_spec:
  assumes "b \<noteq> 0"
  shows "trailing_zeros b < 8 \<and> bit b (trailing_zeros b) \<and> (\<forall>i < trailing_zeros b. \<not> bit b i)"
proof -
  let ?z = "takeWhile (\<lambda>i. \<not> bit b i) [0..<8]"
  obtain i where i: "bit b i" using assms by (auto simp: bit_eq_iff)
  then have "i < 8" using bit_imp_le_length [of b i] by simp
  then have "?z \<noteq> [0..<8]" using i by (metis atLeastLessThan_iff le0 set_takeWhileD set_upt)
  then have len: "length ?z < length [0..<8 :: nat]"
    by (metis le_neq_implies_less length_takeWhile_le takeWhile_eq_take take_all_iff order.refl)
  then have "bit b ([0..<8] ! length ?z)" using nth_length_takeWhile [OF len] by blast
  moreover have "\<not> bit b k" if "k < length ?z" for k
    using that len takeWhile_nth [OF that] set_takeWhileD [OF nth_mem [OF that]] by simp
  ultimately show ?thesis using len by (simp add: trailing_zeros_def)
qed

lemma stop_bit_spec:
  assumes "stop_bit rbsp = Some stop"
  shows "bit_at rbsp stop = Some True" "stop < 8 * length rbsp" "\<And>i. stop < i \<Longrightarrow> i < 8 * length rbsp \<Longrightarrow> bit_at rbsp i = Some False"
proof -
  obtain k where k: "last_nonzero rbsp = Some k" and stop: "stop = k * 8 + 7 - trailing_zeros (rbsp ! k)"
    using assms by (auto simp: stop_bit_def bind_eq_Some_conv checked_def checked_sub_def split: if_splits)
  note byte = last_nonzero_spec(1) [OF k]
  then have tz: "trailing_zeros (rbsp ! k) < 8" "bit (rbsp ! k) (trailing_zeros (rbsp ! k))"
    "\<And>i. i < trailing_zeros (rbsp ! k) \<Longrightarrow> \<not> bit (rbsp ! k) i" using trailing_zeros_spec [of "rbsp ! k"] by auto
  define t where "t = trailing_zeros (rbsp ! k)"
  have stop': "stop = k * 8 + (7 - t)" "t < 8" using stop tz(1) by (simp_all add: t_def)
  have "7 - t < 8" by simp
  then have dm: "stop div 8 = k" "stop mod 8 = 7 - t" unfolding stop'(1) by (simp_all only: div_mult_self3 mod_mult_self3) simp_all
  show "bit_at rbsp stop = Some True" using byte dm tz(2) \<open>t < 8\<close> by (simp add: bit_at_bit flip: t_def)
  then show "stop < 8 * length rbsp" using bit_at_Some_iff [of rbsp stop] by auto
  fix i assume i: "stop < i" "i < 8 * length rbsp"
  then have "i div 8 < length rbsp" by linarith
  moreover have "\<not> bit (rbsp ! (i div 8)) (7 - i mod 8)"
  proof (cases "i div 8 = k")
    case True
    then have "i = k * 8 + i mod 8" by (metis div_mult_mod_eq)
    then have "7 - i mod 8 < t" using i(1) stop' by linarith
    then show ?thesis using True tz(3) by (simp add: t_def)
  next
    case False
    then have "k < i div 8" using i(1) dm(1) div_le_mono [of stop i 8] by linarith
    then show ?thesis using byte \<open>i div 8 < length rbsp\<close> by simp
  qed
  ultimately show "bit_at rbsp i = Some False" by (simp add: bit_at_bit)
qed

section \<open>The parts of a head\<close>

definition read_intro :: "(nat \<times> bool \<times> nat \<times> nat) reader" where
  "read_intro = and_then read_profile (\<lambda>_. read_format)"

lemma local_intro [readers]: "local_reader read_intro"
  unfolding read_intro_def by (intro readers)

lemma read_head_iff:
  "read_head bytes i = Some (h, e) \<longleftrightarrow>
     read_intro bytes i = Some ((hd_chroma_format_idc h, hd_separate_colour_plane h, hd_width h, hd_height h), hd_window_at h) \<and>
     read_window bytes (hd_window_at h) = Some (hd_window h, hd_after_window h) \<and>
     read_depth bytes (hd_after_window h) = Some (hd_bit_depth h, e)"
  by (cases h) (auto simp: read_head_def read_intro_def and_then_def position_def give_def split: option.splits)

lemma and_then_Some: "and_then f g bytes i = Some (y, k) \<longleftrightarrow> (\<exists>x j. f bytes i = Some (x, j) \<and> g x bytes j = Some (y, k))"
  by (auto simp: and_then_def split: option.splits)

lemma read_acc_bound: "read_acc acc n bytes i = Some (v, j) \<Longrightarrow> v < (acc + 1) * 2 ^ n"
proof (induction n arbitrary: acc i)
  case (Suc n)
  then obtain b k where "read_acc ((2 * acc + of_bool b) mod 2 ^ 32) n bytes k = Some (v, j)"
    by (auto simp: and_then_def split: option.splits)
  from Suc.IH [OF this] have "v < ((2 * acc + of_bool b) mod 2 ^ 32 + 1) * 2 ^ n" .
  also have "\<dots> \<le> (2 * acc + of_bool b + 1) * 2 ^ n" by (intro mult_le_mono1 add_le_mono1 mod_less_eq_dividend)
  also have "\<dots> \<le> (2 * acc + 2) * 2 ^ n" by (intro mult_le_mono1) auto
  finally show ?case by (simp add: algebra_simps)
qed (simp add: give_def)

lemma ue_zeros_bound: "ue_zeros z bytes i = Some (n, j) \<Longrightarrow> z < 32 \<Longrightarrow> n < 32"
proof (induction z arbitrary: i rule: ue_zeros.induct)
  case (1 z)
  from 1(2) obtain b k where "(if b then give z else if z + 1 < 32 then ue_zeros (z + 1) else (\<lambda>_ _. None)) bytes k = Some (n, j)"
    unfolding ue_zeros.simps [of z] and_then_Some by blast
  then show ?case using 1(1) [of b k] 1(3) by (auto simp: give_def split: if_splits)
qed

lemma read_ue_bound:
  assumes "read_ue bytes i = Some (v, j)"
  shows "v \<le> 2 ^ 32 - 2"
proof -
  obtain z u k l where z: "ue_zeros 0 bytes i = Some (z, k)" and u: "read_bits z bytes k = Some (u, l)" and v: "v = 2 ^ z - 1 + u"
    using assms by (auto simp: read_ue_def and_then_def from_option_def checked_def split: option.splits if_splits)
  have "z \<le> 31" using ue_zeros_bound [OF z] by simp
  then have "(2 :: nat) ^ z \<le> 2 ^ 31" by (intro power_increasing) simp_all
  moreover have "u < 2 ^ z" using read_acc_bound [of 0 z] u by (simp add: read_bits_def)
  ultimately show ?thesis using v by simp
qed

lemma read_format_bound:
  assumes "read_format bytes i = Some ((c, s, w, ht), j)"
  shows "w \<le> 2 ^ 32 - 2" "ht \<le> 2 ^ 32 - 2"
proof -
  have "\<exists>i j. read_ue bytes i = Some (w, j)" "\<exists>i j. read_ue bytes i = Some (ht, j)"
    using assms unfolding read_format_def and_then_Some give_def by blast+
  then show "w \<le> 2 ^ 32 - 2" "ht \<le> 2 ^ 32 - 2" by (blast dest: read_ue_bound)+
qed

lemma read_head_size:
  assumes "read_head bytes 0 = Some (h, e)"
  shows "8 * length bytes \<le> umax 64" "hd_window_at h \<le> hd_after_window h" "hd_after_window h \<le> e" "e \<le> 8 * length bytes"
    "hd_width h \<le> 2 ^ 32 - 2" "hd_height h \<le> 2 ^ 32 - 2"
proof -
  note parts = assms [unfolded read_head_iff]
  have "\<exists>i. skip_bits 4 bytes 0 = Some ((), i)" using parts
    by (auto simp: read_intro_def read_profile_def and_then_Some)
  then show "8 * length bytes \<le> umax 64"
    by (auto simp: skip_bits_def checked_def bind_eq_Some_conv mult.commute split: if_splits)
  have p: "read_intro bytes 0 =
      Some ((hd_chroma_format_idc h, hd_separate_colour_plane h, hd_width h, hd_height h), hd_window_at h)"
    "read_window bytes (hd_window_at h) = Some (hd_window h, hd_after_window h)"
    "read_depth bytes (hd_after_window h) = Some (hd_bit_depth h, e)" using parts by blast+
  note D = local_readerD(1,2) [OF local_intro p(1)] local_readerD(1,2) [OF local_window p(2)] local_readerD(1,2) [OF local_depth p(3)]
  show "hd_window_at h \<le> hd_after_window h" "hd_after_window h \<le> e" "e \<le> 8 * length bytes" using D by simp_all
  obtain i where fmt: "read_format bytes i =
      Some ((hd_chroma_format_idc h, hd_separate_colour_plane h, hd_width h, hd_height h), hd_window_at h)"
    using parts unfolding read_intro_def and_then_Some by blast
  show "hd_width h \<le> 2 ^ 32 - 2" "hd_height h \<le> 2 ^ 32 - 2"
    using fmt read_format_bound by blast+
qed

section \<open>The rewritten bits\<close>

text \<open>What the writer ends with: the bits before the window, the new window, the bits after the old one up to the stop bit.\<close>

definition rewritten :: "byte list \<Rightarrow> sps_head \<Rightarrow> nat \<Rightarrow> nat \<Rightarrow> nat \<Rightarrow> byte list \<Rightarrow> bool" where
  "rewritten rbsp h stop right bottom bytes \<longleftrightarrow>
     (\<forall>k < hd_window_at h. bit_at bytes k = bit_at rbsp k) \<and>
     has_bits bytes (hd_window_at h) (window_bits right bottom) \<and>
     (\<forall>k. hd_after_window h + k \<le> stop \<longrightarrow>
        bit_at bytes (hd_window_at h + length (window_bits right bottom) + k) = bit_at rbsp (hd_after_window h + k)) \<and>
     (\<forall>k. stop < hd_after_window h + k \<longrightarrow> hd_window_at h + length (window_bits right bottom) + k < 8 * length bytes \<longrightarrow>
        bit_at bytes (hd_window_at h + length (window_bits right bottom) + k) = Some False) \<and>
     8 * length bytes \<le> hd_window_at h + length (window_bits right bottom) + (stop + 1 - hd_after_window h) + 7"

lemma holds_has_bits: "holds w bs \<Longrightarrow> has_bits (wr_bytes w) 0 bs"
  by (auto simp: holds_def has_bits_def)

lemma crop_rewritten:
  assumes "write_copy rbsp 0 (hd_window_at h) writer_default = Some w1"
    and "write_copy rbsp (hd_after_window h) (stop + 1 - hd_after_window h) (write_window right bottom w1) = Some w2"
    and "hd_after_window h \<le> stop + 1"
  shows "rewritten rbsp h stop right bottom (wr_bytes w2)"
proof -
  obtain as where as: "holds w1 ([] @ as)" "length as = hd_window_at h" "has_bits rbsp 0 as"
    using holds_copy [OF holds_default assms(1)] by blast
  obtain cs where cs: "holds w2 ((as @ window_bits right bottom) @ cs)" "length cs = stop + 1 - hd_after_window h"
      "has_bits rbsp (hd_after_window h) cs"
    using holds_copy [OF holds_window assms(2), of as] as(1) by auto
  have bits: "has_bits (wr_bytes w2) 0 as" "has_bits (wr_bytes w2) (hd_window_at h) (window_bits right bottom)"
    "has_bits (wr_bytes w2) (hd_window_at h + length (window_bits right bottom)) cs"
    using holds_has_bits [OF cs(1)] as(2) by (simp_all add: has_bits_append)
  have pad: "bit_at (wr_bytes w2) i = Some False"
    if "hd_window_at h + length (window_bits right bottom) + length cs \<le> i" "i < 8 * length (wr_bytes w2)" for i
    using cs(1) that as(2) by (auto simp: holds_def)
  have "8 * length (wr_bytes w2) \<le> length ((as @ window_bits right bottom) @ cs) + 7" using cs(1) by (simp add: holds_def)
  moreover have "bit_at (wr_bytes w2) k = bit_at rbsp k" if "k < hd_window_at h" for k
    using bits(1) as(2,3) that by (simp add: has_bits_def)
  moreover have "bit_at (wr_bytes w2) (hd_window_at h + length (window_bits right bottom) + k) = bit_at rbsp (hd_after_window h + k)"
    if "hd_after_window h + k \<le> stop" for k
    using bits(3) cs(2,3) that by (simp add: has_bits_def)
  ultimately show ?thesis using bits(2) pad as(2) cs(2) assms(3) by (simp add: rewritten_def)
qed

definition cropped_head :: "nat \<Rightarrow> nat \<Rightarrow> sps_head \<Rightarrow> sps_head" where
  "cropped_head right bottom h =
    h\<lparr>hd_window := (if right = 0 \<and> bottom = 0 then None else Some (0, right, 0, bottom)),
      hd_after_window := hd_window_at h + length (window_bits right bottom)\<rparr>"

lemma window_bits_ne: "window_bits right bottom \<noteq> []"
  by (simp add: window_bits_def)

lemma rewritten_front:
  assumes head: "read_head rbsp 0 = Some (h, e)" and re: "rewritten rbsp h stop right bottom bytes"
    and size: "8 * length bytes \<le> umax 64" and small: "right \<le> 2 ^ 32 - 2" "bottom \<le> 2 ^ 32 - 2"
  shows "read_intro bytes 0 = Some ((hd_chroma_format_idc h, hd_separate_colour_plane h, hd_width h, hd_height h), hd_window_at h)"
    "read_window bytes (hd_window_at h) = Some (if right = 0 \<and> bottom = 0 then None else Some (0, right, 0, bottom),
       hd_window_at h + length (window_bits right bottom))"
    "hd_window_at h + length (window_bits right bottom) \<le> 8 * length bytes"
proof -
  have win: "has_bits bytes (hd_window_at h) (window_bits right bottom)" using re by (simp add: rewritten_def)
  show fit: "hd_window_at h + length (window_bits right bottom) \<le> 8 * length bytes"
    by (rule has_bits_fit [OF win window_bits_ne])
  have "agrees rbsp 0 bytes 0 (hd_window_at h - 0)" using re fit size by (simp add: agrees_def rewritten_def)
  from local_readerD(3) [OF local_intro _ this] head
  show "read_intro bytes 0 = Some ((hd_chroma_format_idc h, hd_separate_colour_plane h, hd_width h, hd_height h), hd_window_at h)"
    by (simp add: read_head_iff)
  show "read_window bytes (hd_window_at h) = Some (if right = 0 \<and> bottom = 0 then None else Some (0, right, 0, bottom),
       hd_window_at h + length (window_bits right bottom))"
    by (rule read_window_has [OF win size small])
qed

text \<open>If the rewritten set reads at all, it reads as the old one but for the window.\<close>

lemma rewritten_head:
  assumes head: "read_head rbsp 0 = Some (h, e)" and re: "rewritten rbsp h stop right bottom bytes"
    and stop: "stop_bit rbsp = Some stop" and small: "right \<le> 2 ^ 32 - 2" "bottom \<le> 2 ^ 32 - 2"
    and head': "read_head bytes 0 = Some (h', e')"
  shows "h' = cropped_head right bottom h"
proof -
  note size = read_head_size(1) [OF head'] and old = read_head_size [OF head]
  note front = rewritten_front [OF head re size small]
  have h': "hd_chroma_format_idc h' = hd_chroma_format_idc h" "hd_separate_colour_plane h' = hd_separate_colour_plane h"
    "hd_width h' = hd_width h" "hd_height h' = hd_height h" "hd_window_at h' = hd_window_at h"
    "hd_window h' = (if right = 0 \<and> bottom = 0 then None else Some (0, right, 0, bottom))"
    "hd_after_window h' = hd_window_at h + length (window_bits right bottom)"
    using head' front unfolding read_head_iff by auto
  have depth: "read_depth rbsp (hd_after_window h) = Some (hd_bit_depth h, e)"
    "read_depth bytes (hd_after_window h') = Some (hd_bit_depth h', e')"
    using head head' by (simp_all add: read_head_iff)
  have "bit_at bytes (hd_after_window h' + k) = bit_at rbsp (hd_after_window h + k)"
    if "k < e - hd_after_window h" "k < e' - hd_after_window h'" for k
  proof (cases "hd_after_window h + k \<le> stop")
    case True
    then show ?thesis using re by (simp add: rewritten_def h')
  next
    case False
    have "hd_after_window h + k < 8 * length rbsp" "hd_after_window h' + k < 8 * length bytes"
      using that old(4) read_head_size(4) [OF head'] by linarith+
    then show ?thesis using False re stop_bit_spec(3) [OF stop, of "hd_after_window h + k"] by (auto simp: rewritten_def h')
  qed
  from local_reader_same [OF local_depth depth this]
  have "hd_bit_depth h' = hd_bit_depth h" using old size front(3) h'(7) by simp
  then show ?thesis using h' by (simp add: cropped_head_def)
qed

text \<open>When the stop bit lies behind the head, it does read.\<close>

lemma rewritten_reads:
  assumes head: "read_head rbsp 0 = Some (h, e)" and re: "rewritten rbsp h stop right bottom bytes"
    and size: "8 * length bytes \<le> umax 64" and small: "right \<le> 2 ^ 32 - 2" "bottom \<le> 2 ^ 32 - 2"
    and stop: "stop_bit rbsp = Some stop" "e \<le> stop"
  shows "\<exists>e'. read_head bytes 0 = Some (cropped_head right bottom h, e')"
proof -
  let ?aw = "hd_window_at h + length (window_bits right bottom)"
  note front = rewritten_front [OF head re size small] and old = read_head_size [OF head]
  have depth: "read_depth rbsp (hd_after_window h) = Some (hd_bit_depth h, e)" using head by (simp add: read_head_iff)
  have "bit_at bytes (?aw + (stop - hd_after_window h)) = Some True"
    using re stop old(3) stop_bit_spec(1) [OF stop(1)] unfolding rewritten_def by (metis le_add_diff_inverse le_trans order_refl)
  then have "?aw + (stop - hd_after_window h) < 8 * length bytes" using bit_at_Some_iff by blast
  moreover have "bit_at bytes (?aw + k) = bit_at rbsp (hd_after_window h + k)" if "k < e - hd_after_window h" for k
    using re that stop(2) by (simp add: rewritten_def)
  ultimately have "agrees rbsp (hd_after_window h) bytes ?aw (e - hd_after_window h)"
    using size stop(2) by (simp add: agrees_def)
  from local_readerD(3) [OF local_depth depth this] front show ?thesis
    by (auto simp: read_head_iff cropped_head_def)
qed

section \<open>Cropping a parameter set\<close>

lemma crop_offset_le: "crop_offset coded shown u = Some v \<Longrightarrow> v \<le> coded \<and> v * u = coded - shown \<and> shown \<le> coded"
  by (auto simp: crop_offset_def checked_sub_def bind_eq_Some_conv split: if_splits)
    (metis diff_le_self div_le_dividend le_trans)

lemma head_escaped:
  assumes "nal_type sps = Some SPS" and "2 \<le> length sps"
  shows "head (escape_into bytes (take 2 sps)) = head_of bytes"
proof -
  have "nal_type (take 2 sps @ xs) = Some SPS" for xs using assms by (cases sps) (auto simp: nal_type_def)
  moreover have "get_range (take 2 sps @ xs) 2 (length (take 2 sps @ xs)) = Some xs" for xs
    using assms(2) by (simp add: get_range_def)
  ultimately show ?thesis by (simp add: head_def escape_into_def unescape_def unescape_escape)
qed

lemma crop_sps_Some_iff:
  "crop_sps sps shown = Some out \<longleftrightarrow> nal_type sps = Some SPS \<and> 2 \<le> length sps \<and>
     (\<exists>h right bottom stop w1 w2 h'. head_of (unescape (drop 2 sps)) = Some h \<and>
        crop_offset (hd_width h) (fst shown) (fst (head_units h)) = Some right \<and>
        crop_offset (hd_height h) (snd shown) (snd (head_units h)) = Some bottom \<and>
        stop_bit (unescape (drop 2 sps)) = Some stop \<and> stop + 1 \<le> umax 64 \<and> hd_after_window h \<le> stop + 1 \<and>
        write_copy (unescape (drop 2 sps)) 0 (hd_window_at h) writer_default = Some w1 \<and>
        write_copy (unescape (drop 2 sps)) (hd_after_window h) (stop + 1 - hd_after_window h) (write_window right bottom w1) = Some w2 \<and>
        out = escape_into (wr_bytes w2) (take 2 sps) \<and> head out = Some h' \<and> head_shown h' = Some shown)"
    (is "?crop \<longleftrightarrow> ?steps")
proof
  assume ?crop
  then show ?steps
    by (auto simp: crop_sps_def bind_eq_Some_conv get_range_def checked_def checked_sub_def Let_def case_prod_beta split: if_splits)
next
  assume ?steps
  then show ?crop
    by (elim conjE exE) (simp add: crop_sps_def get_range_def checked_def checked_sub_def Let_def case_prod_beta)
qed

lemma crop_sps_SomeD:
  assumes "crop_sps sps shown = Some out"
  obtains h e right bottom stop bytes e' where "nal_type sps = Some SPS" "2 \<le> length sps"
    "read_head (unescape (drop 2 sps)) 0 = Some (h, e)" "stop_bit (unescape (drop 2 sps)) = Some stop"
    "right \<le> 2 ^ 32 - 2" "bottom \<le> 2 ^ 32 - 2"
    "rewritten (unescape (drop 2 sps)) h stop right bottom bytes" "out = take 2 sps @ escape_from 0 bytes"
    "read_head bytes 0 = Some (cropped_head right bottom h, e')" "head_shown (cropped_head right bottom h) = Some shown"
proof -
  let ?rbsp = "unescape (drop 2 sps)"
  obtain h right bottom stop w1 w2 h' where sps: "nal_type sps = Some SPS" "2 \<le> length sps"
    and h: "head_of ?rbsp = Some h" and offsets: "crop_offset (hd_width h) (fst shown) (fst (head_units h)) = Some right"
      "crop_offset (hd_height h) (snd shown) (snd (head_units h)) = Some bottom"
    and stop: "stop_bit ?rbsp = Some stop" and aw: "hd_after_window h \<le> stop + 1"
    and w1: "write_copy ?rbsp 0 (hd_window_at h) writer_default = Some w1"
    and w2: "write_copy ?rbsp (hd_after_window h) (stop + 1 - hd_after_window h) (write_window right bottom w1) = Some w2"
    and out: "out = escape_into (wr_bytes w2) (take 2 sps)" "head out = Some h'" "head_shown h' = Some shown"
    using assms unfolding crop_sps_Some_iff by blast
  obtain e where e: "read_head ?rbsp 0 = Some (h, e)" using h by (auto simp: head_of_def)
  obtain e' where e': "read_head (wr_bytes w2) 0 = Some (h', e')"
    using out(2) unfolding out(1) head_escaped [OF sps] by (auto simp: head_of_def)
  have small: "right \<le> 2 ^ 32 - 2" "bottom \<le> 2 ^ 32 - 2"
    using offsets [THEN crop_offset_le] read_head_size(5,6) [OF e] by linarith+
  note re = crop_rewritten [OF w1 w2 aw]
  have h': "h' = cropped_head right bottom h" by (rule rewritten_head [OF e re stop small e'])
  show thesis
    by (rule that [OF sps e stop small re _ e' [unfolded h'] out(3) [unfolded h']]) (simp add: out(1) escape_into_def)
qed

text \<open>
  C16. Cropping changes the conformance window and nothing else. If a parameter set is rewritten, its header is kept, a decoder
  reads the same format, coded size and bit depth as before and shows exactly the size asked for; every bit before
  the window and every bit from behind it to the stop bit is the old one, in the same order, with only zero bits behind
  them; and no three bytes of the payload look like the start of a unit.
\<close>

theorem crop_changes_only_the_window:
  assumes "crop_sps sps shown = Some out"
  shows "\<exists>h right bottom stop. let rbsp = unescape (drop 2 sps); rbsp' = unescape (drop 2 out);
       h' = h\<lparr>hd_window := (if right = 0 \<and> bottom = 0 then None else Some (0, right, 0, bottom)),
              hd_after_window := hd_window_at h + length (window_bits right bottom)\<rparr> in
     head sps = Some h \<and> head out = Some h' \<and> shown_size out = Some shown \<and> take 2 out = take 2 sps \<and>
     stop_bit rbsp = Some stop \<and>
     (\<forall>k < hd_window_at h. bit_at rbsp' k = bit_at rbsp k) \<and>
     (\<forall>k. hd_after_window h + k \<le> stop \<longrightarrow> bit_at rbsp' (hd_after_window h' + k) = bit_at rbsp (hd_after_window h + k)) \<and>
     (\<forall>k. stop < hd_after_window h + k \<longrightarrow> hd_after_window h' + k < 8 * length rbsp' \<longrightarrow>
        bit_at rbsp' (hd_after_window h' + k) = Some False) \<and>
     (\<forall>xs b ys. drop 2 out = xs @ [0, 0, b] @ ys \<longrightarrow> 2 < b)"
proof -
  obtain h e right bottom stop bytes e' where sps: "nal_type sps = Some SPS" "2 \<le> length sps"
    and h: "read_head (unescape (drop 2 sps)) 0 = Some (h, e)" and stop: "stop_bit (unescape (drop 2 sps)) = Some stop"
    and re: "rewritten (unescape (drop 2 sps)) h stop right bottom bytes" and out: "out = take 2 sps @ escape_from 0 bytes"
    and h': "read_head bytes 0 = Some (cropped_head right bottom h, e')" "head_shown (cropped_head right bottom h) = Some shown"
    using crop_sps_SomeD [OF assms] by metis
  have payload: "drop 2 out = escape_from 0 bytes" "unescape (drop 2 out) = bytes" "take 2 out = take 2 sps"
    using sps(2) by (simp_all add: out unescape_def unescape_escape)
  have heads: "head sps = Some h" "head out = Some (cropped_head right bottom h)"
    using sps h h'(1) head_escaped [OF sps, of bytes] by (simp_all add: head_def head_of_def get_range_def out escape_into_def)
  have "2 < b" if "drop 2 out = xs @ [0, 0, b] @ ys" for xs b ys
    using no_start_code [of 0 xs b ys] escape_no_start [of 0 bytes] that payload(1) by auto
  moreover have "shown_size out = Some shown" using heads(2) h'(2) by (simp add: shown_size_def)
  ultimately show ?thesis
    using re heads stop payload(2,3)
    by (intro exI [of _ h] exI [of _ right] exI [of _ bottom] exI [of _ stop])
      (simp add: rewritten_def cropped_head_def Let_def)
qed

text \<open>The length of a window's bits, for the sizes below.\<close>

lemma ue_bits_length:
  assumes "v \<le> 2 ^ 32 - 2"
  shows "length (ue_bits v) \<le> 63"
proof -
  have "2 ^ (bit_length (v + 1) - 1) \<le> v + 1" using bit_length_bounds [of "v + 1"] by simp
  also have "\<dots> < 2 ^ 32" using assms by simp
  finally have "bit_length (v + 1) - 1 < 32" by (rule power_less_imp_less_exp [rotated]) simp
  then show ?thesis by (simp add: ue_bits_def)
qed

lemma window_bits_length: "right \<le> 2 ^ 32 - 2 \<Longrightarrow> bottom \<le> 2 ^ 32 - 2 \<Longrightarrow> length (window_bits right bottom) \<le> 253"
  using ue_bits_length [of 0] ue_bits_length [of right] ue_bits_length [of bottom] by (simp add: window_bits_def)

lemma unescape_length: "length (unescape_from z bs) \<le> length bs"
  by (induction z bs rule: unescape_from.induct) auto

lemma cropped_shows:
  assumes "crop_offset (hd_width h) (fst shown) (fst (head_units h)) = Some right"
    and "crop_offset (hd_height h) (snd shown) (snd (head_units h)) = Some bottom"
    and "hd_width h \<le> umax 32" "hd_height h \<le> umax 32"
  shows "head_shown (cropped_head right bottom h) = Some shown"
proof -
  obtain sw sh where units: "head_units h = (sw, sh)" by fastforce
  note offsets = assms(1,2) [THEN crop_offset_le, unfolded units fst_conv snd_conv]
  have "right \<le> umax 32" "bottom \<le> umax 32" "right * sw \<le> umax 32" "bottom * sh \<le> umax 32"
    using offsets assms(3,4) by linarith+
  moreover have "head_units (cropped_head right bottom h) = (sw, sh)" using units by (auto simp: head_units_def cropped_head_def)
  moreover have "hd_width h - right * sw = fst shown" "hd_height h - bottom * sh = snd shown"
    "right * sw \<le> hd_width h" "bottom * sh \<le> hd_height h"
    using offsets by auto
  ultimately show ?thesis
    by (cases "right = 0 \<and> bottom = 0") (auto simp: head_shown_def checked_def checked_sub_def cropped_head_def)
qed

lemma crop_possible_iff:
  assumes sps: "nal_type sps = Some SPS" "2 \<le> length sps" "length sps < 2 ^ 60"
    and head: "read_head (unescape (drop 2 sps)) 0 = Some (h, e)"
    and stop: "stop_bit (unescape (drop 2 sps)) = Some stop" "e \<le> stop"
  shows "(\<exists>out. crop_sps sps shown = Some out) \<longleftrightarrow>
    0 < fst shown \<and> fst shown \<le> hd_width h \<and> fst (head_units h) dvd (hd_width h - fst shown) \<and>
    0 < snd shown \<and> snd shown \<le> hd_height h \<and> snd (head_units h) dvd (hd_height h - snd shown)"
proof -
  let ?rbsp = "unescape (drop 2 sps)"
  have units: "fst (head_units h) \<noteq> 0" "snd (head_units h) \<noteq> 0" by (simp_all add: head_units_def)
  have h: "head_of ?rbsp = Some h" using head by (simp add: head_of_def)
  have offsets: "(\<exists>v. crop_offset coded s u = Some v) \<longleftrightarrow> 0 < s \<and> s \<le> coded \<and> u dvd (coded - s)" if "u \<noteq> 0" for coded s u
    using that by (auto simp: crop_offset_def checked_sub_def dvd_eq_mod_eq_0 bind_eq_Some_conv)
  have "\<exists>out. crop_sps sps shown = Some out" if right: "crop_offset (hd_width h) (fst shown) (fst (head_units h)) = Some right"
    and bottom: "crop_offset (hd_height h) (snd shown) (snd (head_units h)) = Some bottom" for right bottom
  proof -
    note old = read_head_size [OF head] and last = stop_bit_spec(2) [OF stop(1)]
    have small: "right \<le> 2 ^ 32 - 2" "bottom \<le> 2 ^ 32 - 2"
      using right bottom crop_offset_le old(5,6) by (meson le_trans)+
    have len: "8 * length ?rbsp < 2 ^ 63"
      using sps(3) unescape_length [of 0 "drop 2 sps"] by (simp add: unescape_def)
    obtain w1 where w1: "write_copy ?rbsp 0 (hd_window_at h) writer_default = Some w1"
      using copy_Some [of 0 "hd_window_at h" ?rbsp] old(2-4) by auto
    obtain w2 where w2: "write_copy ?rbsp (hd_after_window h) (stop + 1 - hd_after_window h) (write_window right bottom w1) = Some w2"
      using copy_Some [of "hd_after_window h" "stop + 1 - hd_after_window h" ?rbsp] old(3) stop(2) last by auto
    have aw: "hd_after_window h \<le> stop + 1" using old(3) stop(2) by simp
    note re = crop_rewritten [OF w1 w2 aw]
    have "8 * length (wr_bytes w2) \<le> hd_window_at h + 253 + (stop + 1 - hd_after_window h) + 7"
      using re window_bits_length [OF small] unfolding rewritten_def by linarith
    also have "\<dots> \<le> 8 * length ?rbsp + 261" using old(2) aw last by linarith
    also have "\<dots> \<le> umax 64" using len by (simp add: umax_def)
    finally obtain e' where e': "read_head (wr_bytes w2) 0 = Some (cropped_head right bottom h, e')"
      using rewritten_reads [OF head re _ small stop] by blast
    have "stop + 1 \<le> umax 64" using last len by (simp add: umax_def)
    moreover have "head (escape_into (wr_bytes w2) (take 2 sps)) = Some (cropped_head right bottom h)"
      using e' head_escaped [OF sps(1,2)] by (simp add: head_of_def)
    moreover have "head_shown (cropped_head right bottom h) = Some shown"
      using cropped_shows [OF right bottom] old(5,6) by (simp add: umax_def)
    ultimately show ?thesis using sps(1,2) h right bottom stop(1) aw w1 w2 unfolding crop_sps_Some_iff by blast
  qed
  moreover have "(\<exists>v. crop_offset (hd_width h) (fst shown) (fst (head_units h)) = Some v) \<and>
      (\<exists>v. crop_offset (hd_height h) (snd shown) (snd (head_units h)) = Some v)" if "crop_sps sps shown = Some out" for out
    using that h unfolding crop_sps_Some_iff by auto
  ultimately have "(\<exists>out. crop_sps sps shown = Some out) \<longleftrightarrow>
      (\<exists>v. crop_offset (hd_width h) (fst shown) (fst (head_units h)) = Some v) \<and>
      (\<exists>v. crop_offset (hd_height h) (snd shown) (snd (head_units h)) = Some v)" by blast
  then show ?thesis unfolding offsets [OF units(1)] offsets [OF units(2)] by simp
qed

text \<open>
  C17. Cropping refuses only what cannot be: a parameter set that reads, with its stop bit behind the head, is rewritten
  exactly when the size asked for is not empty, no larger than the coded picture, and short of it by whole units of
  the window's offsets.
\<close>

theorem crop_refuses_only_the_impossible:
  assumes "nal_type sps = Some SPS" "2 \<le> length sps" "length sps < 2 ^ 60"
    and "read_head (unescape (drop 2 sps)) 0 = Some (h, e)"
    and "stop_bit (unescape (drop 2 sps)) = Some stop" "e \<le> stop"
  shows "(\<exists>out. crop_sps sps shown = Some out) \<longleftrightarrow>
    0 < fst shown \<and> fst shown \<le> hd_width h \<and> fst (head_units h) dvd (hd_width h - fst shown) \<and>
    0 < snd shown \<and> snd shown \<le> hd_height h \<and> snd (head_units h) dvd (hd_height h - snd shown)"
  by (rule crop_possible_iff [OF assms])

section \<open>Cropping an access unit\<close>

definition crop_unit :: "nat \<times> nat \<Rightarrow> byte list \<Rightarrow> byte list" where
  "crop_unit shown u = (if nal_type u = Some SPS then opt_or (crop_sps u shown) [] else u)"

lemma crop_spans_ok:
  assumes "crop_spans shown (placed_units pos us) = Inr spans" and "length pre = pos"
  shows "fold splice_span (rev spans) (pre @ concat (map be4.framed us) @ post) =
      pre @ concat (map be4.framed (map (crop_unit shown) us)) @ post \<and>
    (\<forall>u \<in> set us. nal_type u = Some SPS \<longrightarrow> (\<exists>c. crop_sps u shown = Some c \<and> nal_ok c))"
  using assms
proof (induction us arbitrary: pos pre spans)
  case (Cons u us)
  show ?case
  proof (cases "nal_type u = Some SPS")
    case False
    then show ?thesis
      using Cons.IH [of "pos + PREFIX + length u" spans "pre @ be4.framed u"] Cons.prems
      by (simp add: be4.framed_length PREFIX_def crop_unit_def)
  next
    case True
    then obtain c spans' where c: "crop_sps u shown = Some c" "nal_ok c"
      and spans: "crop_spans shown (placed_units (pos + PREFIX + length u) us) = Inr spans'"
        "spans = (pos, pos + 4 + length u, be4.framed c) # spans'"
      using Cons.prems(1)
      by (auto simp: push_nal_framed PREFIX_def split: option.splits sum.splits if_splits)
    have ih: "fold splice_span (rev spans') ((pre @ be4.framed u) @ concat (map be4.framed us) @ post) =
        (pre @ be4.framed u) @ concat (map be4.framed (map (crop_unit shown) us)) @ post"
      "\<forall>u \<in> set us. nal_type u = Some SPS \<longrightarrow> (\<exists>c. crop_sps u shown = Some c \<and> nal_ok c)"
      using Cons.IH [OF spans(1), of "pre @ be4.framed u"] Cons.prems(2) by (simp_all add: be4.framed_length PREFIX_def)
    have "splice_span (pos, pos + 4 + length u, x) ((pre @ be4.framed u) @ y) = pre @ x @ y" for x y
      using Cons.prems(2) be4.framed_length [of u] by (simp add: splice_span_def)
    moreover have "crop_unit shown u = c" using c True by (simp add: crop_unit_def)
    ultimately show ?thesis using ih c True spans(2) by simp
  qed
qed simp

lemma crop_sps_nonempty: "crop_sps u shown = Some c \<Longrightarrow> nal_type c = Some SPS"
proof -
  assume "crop_sps u shown = Some c"
  then obtain h where "head c = Some h" unfolding crop_sps_Some_iff by blast
  then show ?thesis by (auto simp: head_def bind_eq_Some_conv split: if_splits)
qed

text \<open>
  C18. A keyframe keeps every unit but its sequence parameter sets: when an access unit is cropped, its units are, in order, the old
  ones, with each sequence parameter set among those in front replaced by its cropped form, which shows the size asked
  for, and the bytes are whole units again if they were; when one cannot be cropped, nothing changes.
\<close>

theorem crop_access_unit_keeps_the_rest:
  "case crop_access_unit data shown of
     (data', Inl e) \<Rightarrow> data' = data
   | (data', Inr _) \<Rightarrow>
       (\<forall>u \<in> set (takeWhile is_parameter_set (units data)). nal_type u = Some SPS \<longrightarrow>
          (\<exists>c. crop_sps u shown = Some c \<and> shown_size c = Some shown)) \<and>
       units data' = map (\<lambda>u. if nal_type u = Some SPS then opt_or (crop_sps u shown) [] else u)
           (takeWhile is_parameter_set (units data)) @ dropWhile is_parameter_set (units data) \<and>
       (check_unit data' = Inr () \<longleftrightarrow> check_unit data = Inr ())"
proof (cases "crop_spans shown (placed_units 0 (takeWhile is_parameter_set (units data)))")
  case (Inl e)
  then show ?thesis by (simp add: crop_access_unit_def)
next
  case (Inr spans)
  let ?sets = "takeWhile is_parameter_set (units data)" and ?rest = "dropWhile is_parameter_set (units data)"
  obtain junk where data: "data = concat (map be4.framed (units data)) @ junk" "list_all nal_ok (units data)"
    "junk = [] \<or> split_first junk = Inl ()" by (rule units_spec)
  have parts: "concat (map be4.framed (units data)) @ junk =
      concat (map be4.framed ?sets) @ concat (map be4.framed ?rest) @ junk"
    by (metis append.assoc concat_append map_append takeWhile_dropWhile_id)
  note spans = crop_spans_ok [OF Inr, of "[]" "concat (map be4.framed ?rest) @ junk"]
  have data': "fold splice_span (rev spans) data =
      concat (map be4.framed (map (crop_unit shown) ?sets @ ?rest)) @ junk"
    using spans data(1) parts by simp
  have old: "list_all nal_ok ?sets" "list_all nal_ok ?rest"
    using data(2) by (auto simp: list_all_iff dest: set_takeWhileD set_dropWhileD)
  then have ok: "list_all nal_ok (map (crop_unit shown) ?sets @ ?rest)"
    using spans by (auto simp: list_all_iff crop_unit_def)
  have "\<exists>c. crop_sps u shown = Some c \<and> shown_size c = Some shown" if "u \<in> set ?sets" "nal_type u = Some SPS" for u
    using spans that by (auto simp: crop_sps_Some_iff shown_size_def)
  moreover have "units (fold splice_span (rev spans) data) = map (crop_unit shown) ?sets @ ?rest"
    using units_framed [OF ok data(3)] data' by simp
  moreover have "check_unit (fold splice_span (rev spans) data) = Inr () \<longleftrightarrow> check_unit data = Inr ()"
  proof -
    have "check_from n (fold splice_span (rev spans) data) = Inr () \<longleftrightarrow> junk = []" for n
      unfolding data' by (simp only: check_framed [OF ok data(3)]) simp
    moreover have "check_from n data = Inr () \<longleftrightarrow> junk = []" for n
      using check_framed [OF data(2,3), of n] by (simp flip: data(1))
    ultimately show ?thesis by (simp add: check_unit_def)
  qed
  ultimately show ?thesis using Inr by (simp add: crop_access_unit_def crop_unit_def [abs_def])
qed

section \<open>Witnesses\<close>

text \<open>A small parameter set, 15 by 7 in 4:2:0.\<close>

definition small_sps :: "byte list" where
  "small_sps = [0x42, 1, 1, 1, 1, 1, 1, 1, 1, 1, 1, 1, 1, 1, 1, 0xA0, 0x80, 0x86]"

definition small_head :: sps_head where
  "small_head = \<lparr>hd_chroma_format_idc = 1, hd_separate_colour_plane = False, hd_width = 15, hd_height = 7, hd_window = None,
     hd_bit_depth = 8, hd_window_at = 124, hd_after_window = 125\<rparr>"

lemma small_rbsp: "unescape (drop 2 small_sps) = [1, 1, 1, 1, 1, 1, 1, 1, 1, 1, 1, 1, 1, 0xA0, 0x80, 0x86]"
  by (simp add: small_sps_def unescape_def zeros_after_def)

lemma ue_zeros_step: "ue_zeros z bytes i = (case read_flag bytes i of None \<Rightarrow> None
    | Some (b, j) \<Rightarrow> if b then Some (z, j) else if z + 1 < 32 then ue_zeros (z + 1) bytes j else None)"
  by (simp add: ue_zeros.simps [of z] and_then_def give_def split: option.splits)

lemma read_acc_numeral:
  "read_acc acc (numeral k) bytes i = (case read_flag bytes i of None \<Rightarrow> None
     | Some (b, j) \<Rightarrow> read_acc ((2 * acc + of_bool b) mod 2 ^ 32) (pred_numeral k) bytes j)"
  by (simp only: numeral_eq_Suc [of k] read_acc.simps and_then_def)

lemmas reading = read_flag_def bit_at_def checked_def umax_def ue_zeros_step read_acc_numeral read_bits_def read_ue_def
  and_then_def from_option_def give_def skip_bits_def position_def

lemma small_reads: "read_head [1, 1, 1, 1, 1, 1, 1, 1, 1, 1, 1, 1, 1, 0xA0, 0x80, 0x86] 0 = Some (small_head, 126)"
  by (simp add: read_head_iff read_intro_def read_profile_def read_format_def read_window_def read_depth_def reading small_head_def)

lemma small_stop: "stop_bit [1, 1, 1, 1, 1, 1, 1, 1, 1, 1, 1, 1, 1, 0xA0, 0x80, 0x86] = Some 126"
  by (simp add: stop_bit_def checked_def checked_sub_def umax_def trailing_zeros_def upt_rec)

lemma small_facts: "nal_type small_sps = Some SPS" "length small_sps = 18"
  by (simp_all add: small_sps_def nal_type_def SPS_def)

theorem crop_refuses_only_the_impossible_witness:
  "(\<exists>out. crop_sps small_sps (13, 5) = Some out) \<and> (\<nexists>out. crop_sps small_sps (14, 5) = Some out)"
proof -
  note iff = crop_refuses_only_the_impossible [of small_sps small_head 126 126, unfolded small_rbsp, OF _ _ _ small_reads small_stop]
  show ?thesis using iff [of "(13, 5)"] iff [of "(14, 5)"] by (simp add: small_facts small_head_def head_units_def)
qed

theorem crop_changes_only_the_window_witness:
  "\<exists>out h. crop_sps small_sps (13, 5) = Some out \<and> shown_size out = Some (13, 5) \<and> head small_sps = Some h \<and> take 2 out = [0x42, 1]"
proof -
  obtain out where out: "crop_sps small_sps (13, 5) = Some out"
    using crop_possible_iff [of small_sps small_head 126 126 "(13, 5)", unfolded small_rbsp, OF _ _ _ small_reads small_stop]
    by (auto simp: small_facts small_head_def head_units_def)
  have "take 2 small_sps = [0x42, 1]" by (simp add: small_sps_def)
  then show ?thesis using crop_changes_only_the_window [OF out] out unfolding Let_def by auto
qed

lemma escape_length: "length (escape_from z bs) \<le> 2 * length bs"
  by (induction z bs rule: escape_from.induct) auto

lemma small_cropped:
  assumes "crop_sps small_sps shown = Some out"
  shows "nal_ok out"
proof -
  obtain h e right bottom stop bytes where h: "read_head (unescape (drop 2 small_sps)) 0 = Some (h, e)"
    and stop: "stop_bit (unescape (drop 2 small_sps)) = Some stop" and small: "right \<le> 2 ^ 32 - 2" "bottom \<le> 2 ^ 32 - 2"
    and re: "rewritten (unescape (drop 2 small_sps)) h stop right bottom bytes" and out: "out = take 2 small_sps @ escape_from 0 bytes"
    using crop_sps_SomeD [OF assms] by metis
  have "h = small_head" "stop = 126" using h stop unfolding small_rbsp small_reads small_stop by simp_all
  then have "8 * length bytes \<le> 400" using re window_bits_length [OF small] by (simp add: rewritten_def small_head_def)
  then show ?thesis using escape_length [of 0 bytes] by (simp add: nal_ok_def out) (simp add: small_sps_def)
qed

theorem crop_access_unit_keeps_the_rest_witness:
  "\<exists>data' c. crop_access_unit ([0, 0, 0, 18] @ small_sps @ [0, 0, 0, 2, 0x26, 1]) (13, 5) = (data', Inr ()) \<and>
     crop_sps small_sps (13, 5) = Some c \<and> units data' = [c, [0x26, 1]]"
proof -
  let ?data = "[0, 0, 0, 18] @ small_sps @ [0, 0, 0, 2, 0x26, 1]"
  obtain c where c: "crop_sps small_sps (13, 5) = Some c"
    using crop_possible_iff [of small_sps small_head 126 126 "(13, 5)", unfolded small_rbsp, OF _ _ _ small_reads small_stop]
    by (auto simp: small_facts small_head_def head_units_def)
  have "be4.framed small_sps = [0, 0, 0, 18] @ small_sps" "be4.framed [0x26, 1] = [0, 0, 0, 2, 0x26, 1]"
    by (simp_all add: be4.framed_def small_facts be_bytes_def le_bytes_4)
  then have data: "?data = concat (map be4.framed [small_sps, [0x26, 1]]) @ []" by simp
  have "list_all nal_ok [small_sps, [0x26, 1]]" using small_facts by (auto simp: nal_ok_def simp flip: length_0_conv)
  then have units: "units ?data = [small_sps, [0x26, 1]]" unfolding data by (rule units_framed) simp
  have sets: "is_parameter_set small_sps" "\<not> is_parameter_set [0x26, 1]"
    by (simp_all add: is_parameter_set_def small_facts) (simp add: nal_type_def VPS_def SPS_def PPS_def)
  have "\<exists>data'. crop_access_unit ?data (13, 5) = (data', Inr ())"
    using c small_cropped [OF c] unfolding crop_access_unit_def units
    by (simp add: sets small_facts push_nal_framed PREFIX_def)
  then show ?thesis using crop_access_unit_keeps_the_rest [of ?data "(13, 5)"] c unfolding units
    by (auto simp: sets small_facts)
qed

end
