(* ===== verification/Keyed_Verbs.thy ===== *)
theory Keyed_Verbs
  imports Prelude "HOL-Library.Multiset"
begin

text \<open>
  Verbs done once per key (\<open>slopty-worker/src/orchestrate/idempotency.rs\<close>). The table of keys is a list of entries, one to
  a key, in the order the hash map happens to iterate them; a step of the model may reorder them at any time. The channel a verb's answer travels by
  (crate \<open>tokio\<close>, a \<open>watch\<close> channel) is known by the number of the task that holds its sending half; whether that half is gone is an argument
  of the operations that ask.
\<close>

section \<open>The table\<close>

record 'd idem_slot =
  sl_digest :: 'd
  sl_answer :: nat
  sl_answered :: "instant option"

type_synonym ('k, 'd) idem_table = "('k \<times> 'd idem_slot) list"

record ('k, 'd) idem_ledger =
  lg_table :: "('k, 'd) idem_table"
  lg_capacity :: nat
  lg_lifetime :: duration

definition KEYS_KEPT :: nat where "KEYS_KEPT = 4096"

definition ledger_new :: "nat \<Rightarrow> duration \<Rightarrow> ('k, 'd) idem_ledger" where
  "ledger_new capacity lifetime = \<lparr>lg_table = [], lg_capacity = max capacity 1, lg_lifetime = lifetime\<rparr>"

definition lapsed :: "(nat \<Rightarrow> bool) \<Rightarrow> instant \<Rightarrow> duration \<Rightarrow> 'd idem_slot \<Rightarrow> bool" where
  "lapsed is_closed now lifetime s =
    (case sl_answered s of Some t \<Rightarrow> since now t \<ge> lifetime | None \<Rightarrow> is_closed (sl_answer s))"

text \<open>\<open>min_by_key\<close>: the first of the earliest.\<close>

fun earliest :: "(instant \<times> 'k) list \<Rightarrow> 'k option" where
  "earliest [] = None"
| "earliest [(t, k)] = Some k"
| "earliest ((t, k) # (u, l) # xs) = (if t \<le> u then earliest ((t, k) # xs) else earliest ((u, l) # xs))"

definition answered_keys :: "('k, 'd) idem_table \<Rightarrow> (instant \<times> 'k) list" where
  "answered_keys slots = List.map_filter (\<lambda>(k, s). map_option (\<lambda>t. (t, k)) (sl_answered s)) slots"

definition make_room :: "(nat \<Rightarrow> bool) \<Rightarrow> instant \<Rightarrow> duration \<Rightarrow> ('k, 'd) idem_table \<Rightarrow> ('k, 'd) idem_table \<times> bool" where
  "make_room is_closed now lifetime slots =
    (let kept = filter (\<lambda>(_, s). \<not> lapsed is_closed now lifetime s) slots
     in if length kept < length slots then (kept, True)
        else case earliest (answered_keys kept) of
          None \<Rightarrow> (kept, False)
        | Some key \<Rightarrow> (filter (\<lambda>(k, _). k \<noteq> key) kept, key \<in> fst ` set kept))"

datatype claim_result = ClaimRun nat | ClaimWait nat | ClaimReused | ClaimFull

text \<open>\<open>task\<close> is the number of the task that would run the verb.\<close>

definition claim :: "(nat \<Rightarrow> bool) \<Rightarrow> instant \<Rightarrow> nat \<Rightarrow> 'k \<Rightarrow> 'd \<Rightarrow> ('k, 'd) idem_ledger
    \<Rightarrow> ('k, 'd) idem_ledger \<times> claim_result" where
  "claim is_closed now task key digest lg =
    (case (case map_of (lg_table lg) key of
             None \<Rightarrow> None
           | Some s \<Rightarrow> if lapsed is_closed now (lg_lifetime lg) s then None else Some s) of
       Some s \<Rightarrow> (lg, if sl_digest s = digest then ClaimWait (sl_answer s) else ClaimReused)
     | None \<Rightarrow>
       (case (if length (lg_table lg) \<ge> lg_capacity lg then make_room is_closed now (lg_lifetime lg) (lg_table lg)
              else (lg_table lg, True)) of
          (slots, False) \<Rightarrow> (lg\<lparr>lg_table := slots\<rparr>, ClaimFull)
        | (slots, True) \<Rightarrow>
            (lg\<lparr>lg_table := (key, \<lparr>sl_digest = digest, sl_answer = task, sl_answered = None\<rparr>)
                 # filter (\<lambda>(k, _). k \<noteq> key) slots\<rparr>, ClaimRun task)))"

definition note_answered :: "instant \<Rightarrow> 'k \<Rightarrow> ('k, 'd) idem_ledger \<Rightarrow> ('k, 'd) idem_ledger" where
  "note_answered now key lg =
    lg\<lparr>lg_table := map (\<lambda>(k, s). if k = key then (k, s\<lparr>sl_answered := Some now\<rparr>) else (k, s)) (lg_table lg)\<rparr>"

section \<open>Tasks and callers\<close>

text \<open>
  A task holds its channel open until it sends the outcome, after it noted the answer in the table, or until it dies. What a caller
  that waits on a channel gets: the outcome, or that it was lost.
\<close>

datatype 'o task_state = Working | Noted 'o | Sent 'o | Died

definition is_closed :: "(nat \<Rightarrow> ('k \<times> 'd \<times> 'o task_state) option) \<Rightarrow> nat \<Rightarrow> bool" where
  "is_closed tasks n = (case tasks n of Some (_, _, Sent _) \<Rightarrow> True | Some (_, _, Died) \<Rightarrow> True | _ \<Rightarrow> False)"

definition answer :: "'o \<Rightarrow> 'o task_state \<Rightarrow> 'o option" where
  "answer lost st = (case st of Sent o' \<Rightarrow> Some o' | Died \<Rightarrow> Some lost | _ \<Rightarrow> None)"

record ('k, 'd, 'o) worker_verbs =
  wv_ledger :: "('k, 'd) idem_ledger"
  wv_tasks :: "nat \<Rightarrow> ('k \<times> 'd \<times> 'o task_state) option"
  wv_next :: nat

definition ask :: "instant \<Rightarrow> 'k \<Rightarrow> 'd \<Rightarrow> ('k, 'd, 'o) worker_verbs \<Rightarrow> ('k, 'd, 'o) worker_verbs \<times> claim_result" where
  "ask now key digest w =
    (case claim (is_closed (wv_tasks w)) now (wv_next w) key digest (wv_ledger w) of
       (lg, ClaimRun n) \<Rightarrow> (w\<lparr>wv_ledger := lg, wv_tasks := (wv_tasks w)(n \<mapsto> (key, digest, Working)), wv_next := n + 1\<rparr>, ClaimRun n)
     | (lg, c) \<Rightarrow> (w\<lparr>wv_ledger := lg\<rparr>, c))"

inductive verbs_run :: "nat \<Rightarrow> duration \<Rightarrow> ('k, 'd, 'o) worker_verbs \<Rightarrow> bool" for capacity lifetime where
  start: "verbs_run capacity lifetime \<lparr>wv_ledger = ledger_new capacity lifetime, wv_tasks = (\<lambda>_. None), wv_next = 0\<rparr>"
| ask: "verbs_run capacity lifetime w \<Longrightarrow> verbs_run capacity lifetime (fst (ask now key digest w))"
| finish: "verbs_run capacity lifetime w \<Longrightarrow> wv_tasks w n = Some (key, digest, Working) \<Longrightarrow>
    verbs_run capacity lifetime (w\<lparr>wv_ledger := note_answered now key (wv_ledger w), wv_tasks := (wv_tasks w)(n \<mapsto> (key, digest, Noted out))\<rparr>)"
| send: "verbs_run capacity lifetime w \<Longrightarrow> wv_tasks w n = Some (key, digest, Noted out) \<Longrightarrow>
    verbs_run capacity lifetime (w\<lparr>wv_tasks := (wv_tasks w)(n \<mapsto> (key, digest, Sent out))\<rparr>)"
| die: "verbs_run capacity lifetime w \<Longrightarrow> wv_tasks w n = Some (key, digest, Working) \<Longrightarrow>
    verbs_run capacity lifetime (w\<lparr>wv_tasks := (wv_tasks w)(n \<mapsto> (key, digest, Died))\<rparr>)"
| reorder: "verbs_run capacity lifetime w \<Longrightarrow> mset slots = mset (lg_table (wv_ledger w)) \<Longrightarrow>
    verbs_run capacity lifetime (w\<lparr>wv_ledger := (wv_ledger w)\<lparr>lg_table := slots\<rparr>\<rparr>)"

section \<open>Making room\<close>

lemma earliest_spec: "earliest xs = Some k \<Longrightarrow> \<exists>t. (t, k) \<in> set xs \<and> (\<forall>(u, _) \<in> set xs. t \<le> u)"
proof (induction xs rule: earliest.induct)
  case (3 t k' u l xs)
  then show ?case by (auto split: if_splits)
qed simp_all

lemma earliest_None: "earliest xs = None \<longleftrightarrow> xs = []"
  by (induction xs rule: earliest.induct) auto

lemma answered_keys_set: "(t, k) \<in> set (answered_keys slots) \<longleftrightarrow> (\<exists>s. (k, s) \<in> set slots \<and> sl_answered s = Some t)"
  by (induction slots) (auto simp: answered_keys_def List.map_filter_def)

lemma filter_shorter: "length (filter P xs) < length xs \<longleftrightarrow> (\<exists>x \<in> set xs. \<not> P x)"
  by (induction xs) (auto simp: less_Suc_eq_le intro: le_imp_less_Suc)

lemma remove_key_length:
  assumes "distinct (map fst slots)" and "key \<in> fst ` set slots"
  shows "length (filter (\<lambda>(k, _). k \<noteq> key) slots) < length slots"
  unfolding filter_shorter using assms(2) by auto

text \<open>Room comes from the entries that lapsed, or else from the one answered longest ago, or not at all.\<close>

lemma make_room_cases:
  assumes "distinct (map fst slots)"
  obtains (lapsed) "make_room c now lifetime slots = (filter (\<lambda>(_, s). \<not> lapsed c now lifetime s) slots, True)"
      "length (filter (\<lambda>(_, s). \<not> lapsed c now lifetime s) slots) < length slots"
  | (oldest) key s t where "make_room c now lifetime slots = (filter (\<lambda>(k, _). k \<noteq> key) slots, True)"
      "(key, s) \<in> set slots" "sl_answered s = Some t" "\<forall>(_, s') \<in> set slots. \<not> lapsed c now lifetime s'"
      "\<forall>(_, s') \<in> set slots. \<forall>u. sl_answered s' = Some u \<longrightarrow> t \<le> u"
      "length (filter (\<lambda>(k, _). k \<noteq> key) slots) < length slots"
  | (none) "make_room c now lifetime slots = (slots, False)" "\<forall>(_, s') \<in> set slots. \<not> lapsed c now lifetime s' \<and> sl_answered s' = None"
proof (cases "length (filter (\<lambda>(_, s). \<not> lapsed c now lifetime s) slots) < length slots")
  case True
  then show thesis by (intro lapsed) (simp_all add: make_room_def Let_def)
next
  case False
  then have fresh: "\<forall>(_, s') \<in> set slots. \<not> lapsed c now lifetime s'" by (auto simp: filter_shorter)
  then have kept: "filter (\<lambda>(_, s). \<not> lapsed c now lifetime s) slots = slots" by (auto simp: filter_id_conv)
  show thesis
  proof (cases "earliest (answered_keys slots)")
    case None
    then have "sl_answered s = None" if "(k, s) \<in> set slots" for k s
      using that answered_keys_set [of _ k slots] by (cases "sl_answered s") (auto simp: earliest_None)
    then show thesis using fresh None by (intro none) (auto simp: make_room_def Let_def kept)
  next
    case (Some key)
    obtain t where t: "(t, key) \<in> set (answered_keys slots)" "\<forall>(u, _) \<in> set (answered_keys slots). t \<le> u"
      using earliest_spec [OF Some] by blast
    then obtain s where s: "(key, s) \<in> set slots" "sl_answered s = Some t" by (auto simp: answered_keys_set)
    have old: "t \<le> u" if "(k, s') \<in> set slots" "sl_answered s' = Some u" for k s' u
      using t(2) that answered_keys_set [of u k slots] by blast
    have key: "key \<in> fst ` set slots" using s(1) by force
    show thesis using old s fresh remove_key_length [OF assms key] key Some
      by (intro oldest [of key s t]) (auto simp: make_room_def Let_def kept)
  qed
qed

section \<open>Every run keeps the table straight\<close>

definition slot_ok :: "(nat \<Rightarrow> ('k \<times> 'd \<times> 'o task_state) option) \<Rightarrow> 'k \<times> 'd idem_slot \<Rightarrow> bool" where
  "slot_ok tasks e = (case e of (k, s) \<Rightarrow> \<exists>st. tasks (sl_answer s) = Some (k, sl_digest s, st) \<and>
     (sl_answered s = None \<longleftrightarrow> st = Working \<or> st = Died))"

definition verbs_ok :: "nat \<Rightarrow> duration \<Rightarrow> ('k, 'd, 'o) worker_verbs \<Rightarrow> bool" where
  "verbs_ok capacity lifetime w \<longleftrightarrow>
     lg_capacity (wv_ledger w) = max capacity 1 \<and> lg_lifetime (wv_ledger w) = lifetime \<and>
     distinct (map fst (lg_table (wv_ledger w))) \<and> length (lg_table (wv_ledger w)) \<le> max capacity 1 \<and>
     (\<forall>e \<in> set (lg_table (wv_ledger w)). slot_ok (wv_tasks w) e) \<and>
     (\<forall>n k d. wv_tasks w n = Some (k, d, Working) \<longrightarrow>
        (k, \<lparr>sl_digest = d, sl_answer = n, sl_answered = None\<rparr>) \<in> set (lg_table (wv_ledger w))) \<and>
     (\<forall>n. wv_tasks w n \<noteq> None \<longrightarrow> n < wv_next w)"

lemma working_not_lapsed:
  assumes "slot_ok tasks (k, s)" and "sl_answered s = None"
  shows "lapsed (is_closed tasks) now lifetime s \<longleftrightarrow> tasks (sl_answer s) = Some (k, sl_digest s, Died)"
  using assms by (auto simp: lapsed_def is_closed_def slot_ok_def)

definition forgettable :: "(nat \<Rightarrow> bool) \<Rightarrow> instant \<Rightarrow> ('k, 'd) idem_ledger \<Rightarrow> 'd idem_slot \<Rightarrow> bool" where
  "forgettable c now lg s \<longleftrightarrow> lapsed c now (lg_lifetime lg) s \<or>
     length (lg_table lg) \<ge> lg_capacity lg \<and> (\<forall>(_, s') \<in> set (lg_table lg). \<not> lapsed c now (lg_lifetime lg) s') \<and>
     (\<exists>t. sl_answered s = Some t \<and> (\<forall>(_, s') \<in> set (lg_table lg). \<forall>u. sl_answered s' = Some u \<longrightarrow> t \<le> u))"

lemma claim_cases:
  assumes "distinct (map fst (lg_table lg))" and "length (lg_table lg) \<le> lg_capacity lg" and "0 < lg_capacity lg"
  obtains (held) s where "map_of (lg_table lg) key = Some s" "\<not> lapsed c now (lg_lifetime lg) s"
      "claim c now n key digest lg = (lg, if sl_digest s = digest then ClaimWait (sl_answer s) else ClaimReused)"
  | (full) "claim c now n key digest lg = (lg, ClaimFull)" "length (lg_table lg) = lg_capacity lg"
      "\<forall>(_, s') \<in> set (lg_table lg). \<not> lapsed c now (lg_lifetime lg) s' \<and> sl_answered s' = None"
  | (run) slots P where "slots = filter P (lg_table lg)" "length slots < lg_capacity lg"
      "claim c now n key digest lg = (lg\<lparr>lg_table := (key, \<lparr>sl_digest = digest, sl_answer = n, sl_answered = None\<rparr>)
         # filter (\<lambda>(k, _). k \<noteq> key) slots\<rparr>, ClaimRun n)"
      "\<And>k s. (k, s) \<in> set (lg_table lg) \<Longrightarrow> \<not> P (k, s) \<Longrightarrow> forgettable c now lg s"
      "\<And>s. map_of (lg_table lg) key = Some s \<Longrightarrow> lapsed c now (lg_lifetime lg) s"
proof (cases "\<exists>s. map_of (lg_table lg) key = Some s \<and> \<not> lapsed c now (lg_lifetime lg) s")
  case True
  then show thesis by (auto intro: held simp: claim_def)
next
  case False
  then have old: "\<And>s. map_of (lg_table lg) key = Some s \<Longrightarrow> lapsed c now (lg_lifetime lg) s" by auto
  then have search: "(case map_of (lg_table lg) key of None \<Rightarrow> None
      | Some s \<Rightarrow> if lapsed c now (lg_lifetime lg) s then None else Some s) = None" by (auto split: option.splits)
  show thesis
  proof (cases "length (lg_table lg) \<ge> lg_capacity lg")
    case small: False
    show thesis
      by (rule run [where P = "\<lambda>_. True"]) (use small old search in \<open>simp_all add: claim_def\<close>)
  next
    case True
    show thesis
    proof (cases rule: make_room_cases [OF assms(1), of c now "lg_lifetime lg", case_names lapsed oldest none])
      case lapsed
      show thesis
        by (rule run [where P = "\<lambda>(_, s). \<not> lapsed c now (lg_lifetime lg) s"])
          (use lapsed True assms(2) old search in \<open>simp_all add: claim_def forgettable_def del: filter_filter\<close>)
    next
      case (oldest k' s' t)
      have "forgettable c now lg s" if "(k, s) \<in> set (lg_table lg)" "k = k'" for k s
      proof -
        have "s = s'" using that oldest(2) assms(1) by (metis map_of_is_SomeI option.inject)
        then show ?thesis using oldest(3-5) True by (auto simp: forgettable_def)
      qed
      then show thesis
        by (intro run [where P = "\<lambda>(k, _). k \<noteq> k'", OF refl]) (use oldest True assms(2) old search in \<open>simp_all add: claim_def del: filter_filter\<close>)
    next
      case none
      show thesis by (rule full) (use none True assms(2) search in \<open>auto simp: claim_def\<close>)
    qed
  qed
qed

lemma claim_ok:
  assumes ok: "verbs_ok capacity lifetime w"
  shows "verbs_ok capacity lifetime (fst (ask now key digest w))"
proof -
  define lg where "lg = wv_ledger w"
  define tasks where "tasks = wv_tasks w"
  have inv: "distinct (map fst (lg_table lg))" "length (lg_table lg) \<le> lg_capacity lg" "0 < lg_capacity lg"
    and slots_ok: "\<And>k s. (k, s) \<in> set (lg_table lg) \<Longrightarrow> slot_ok tasks (k, s)"
    and working: "\<And>n k d. tasks n = Some (k, d, Working) \<Longrightarrow>
      (k, \<lparr>sl_digest = d, sl_answer = n, sl_answered = None\<rparr>) \<in> set (lg_table lg)"
    and fresh: "\<And>n. tasks n \<noteq> None \<Longrightarrow> n < wv_next w"
    using ok by (auto simp: verbs_ok_def lg_def tasks_def)
  show ?thesis
  proof (cases rule: claim_cases [OF inv, of key "is_closed tasks" now "wv_next w" digest, case_names held full run])
    case (held s)
    then have "fst (ask now key digest w) = w" by (simp add: ask_def lg_def flip: tasks_def)
    then show ?thesis using ok by simp
  next
    case full
    then have "fst (ask now key digest w) = w" by (simp add: ask_def lg_def flip: tasks_def)
    then show ?thesis using ok by simp
  next
    case (run slots P)
    let ?new = "\<lparr>sl_digest = digest, sl_answer = wv_next w, sl_answered = None\<rparr>"
    let ?rest = "filter (\<lambda>(k, _). k \<noteq> key) slots"
    let ?tasks = "tasks(wv_next w \<mapsto> (key, digest, Working))"
    have free: "tasks (wv_next w) = None" using fresh by blast
    have step: "fst (ask now key digest w) =
        w\<lparr>wv_ledger := lg\<lparr>lg_table := (key, ?new) # ?rest\<rparr>, wv_tasks := ?tasks, wv_next := wv_next w + 1\<rparr>"
      using run(3) by (simp add: ask_def flip: lg_def tasks_def)
    have "distinct (map fst ((key, ?new) # ?rest))"
      using inv(1) by (auto simp: run(1) distinct_map_filter)
    moreover have "length ((key, ?new) # ?rest) \<le> lg_capacity lg"
      using run(2) le_less_trans [OF length_filter_le [of "\<lambda>(k, _). k \<noteq> key" slots]] by (simp add: Suc_le_eq)
    moreover have "slot_ok ?tasks (k, s)" if "(k, s) \<in> set ((key, ?new) # ?rest)" for k s
    proof (cases "(k, s) = (key, ?new)")
      case False
      then have "slot_ok tasks (k, s)" using that slots_ok by (auto simp: run(1))
      then show ?thesis using free by (auto simp: slot_ok_def)
    qed (simp add: slot_ok_def)
    moreover have "(k, \<lparr>sl_digest = d, sl_answer = n, sl_answered = None\<rparr>) \<in> set ((key, ?new) # ?rest)"
      if "?tasks n = Some (k, d, Working)" for n k d
    proof (cases "n = wv_next w")
      case False
      then have t: "tasks n = Some (k, d, Working)" using that by simp
      let ?s = "\<lparr>sl_digest = d, sl_answer = n, sl_answered = None\<rparr>"
      note entry = working [OF t]
      have alive: "\<not> lapsed (is_closed tasks) now (lg_lifetime lg) ?s"
        using working_not_lapsed [OF slots_ok [OF entry]] t by simp
      then have "P (k, ?s)" using run(4) [OF entry] by (auto simp: forgettable_def)
      moreover have "k \<noteq> key" using run(5) [of ?s] entry inv(1) alive by auto
      ultimately show ?thesis using entry by (simp add: run(1))
    qed (use that in simp)
    moreover have "n < wv_next w + 1" if "?tasks n \<noteq> None" for n using that fresh [of n] by (auto split: if_splits)
    ultimately show ?thesis using ok unfolding step by (auto simp: verbs_ok_def lg_def)
  qed
qed

lemma slot_ok_update:
  assumes "slot_ok tasks (k, s)" and "tasks n = Some (key, digest, st)" and "sl_answer s \<noteq> n \<or> (st = Working \<or> st = Died) = (st' = Working \<or> st' = Died)"
  shows "slot_ok (tasks(n \<mapsto> (key, digest, st'))) (k, s)"
  using assms by (auto simp: slot_ok_def)

lemma verbs_ok_tasks:
  assumes ok: "verbs_ok capacity lifetime w" and task: "wv_tasks w n = Some (key, digest, st)"
    and st: "(st = Working \<or> st = Died) = (st' = Working \<or> st' = Died)" "st' \<noteq> Working"
  shows "verbs_ok capacity lifetime (w\<lparr>wv_tasks := (wv_tasks w)(n \<mapsto> (key, digest, st'))\<rparr>)"
proof -
  have "slot_ok ((wv_tasks w)(n \<mapsto> (key, digest, st'))) e" if "e \<in> set (lg_table (wv_ledger w))" for e
  proof (cases e)
    case (Pair k s)
    then have "slot_ok (wv_tasks w) (k, s)" using that ok by (auto simp: verbs_ok_def)
    from slot_ok_update [OF this task] show ?thesis using st(1) Pair by simp
  qed
  moreover have "wv_tasks w m = Some (k, d, Working)" if "((wv_tasks w)(n \<mapsto> (key, digest, st'))) m = Some (k, d, Working)" for m k d
    using that st(2) by (simp split: if_splits)
  ultimately show ?thesis using ok task unfolding verbs_ok_def by (auto split: if_splits)
qed

lemma verbs_ok_finish:
  assumes ok: "verbs_ok capacity lifetime w" and task: "wv_tasks w n = Some (key, digest, Working)"
  shows "verbs_ok capacity lifetime (w\<lparr>wv_ledger := note_answered now key (wv_ledger w), wv_tasks := (wv_tasks w)(n \<mapsto> (key, digest, Noted out))\<rparr>)"
proof -
  define slots where "slots = lg_table (wv_ledger w)"
  let ?f = "\<lambda>(k, s). if k = key then (k, s\<lparr>sl_answered := Some now\<rparr>) else (k, s)"
  let ?mine = "\<lparr>sl_digest = digest, sl_answer = n, sl_answered = None\<rparr>"
  have dist: "distinct (map fst slots)" and slots_ok: "\<And>e. e \<in> set slots \<Longrightarrow> slot_ok (wv_tasks w) e"
    and working: "\<And>n k d. wv_tasks w n = Some (k, d, Working) \<Longrightarrow> (k, \<lparr>sl_digest = d, sl_answer = n, sl_answered = None\<rparr>) \<in> set slots"
    using ok by (auto simp: verbs_ok_def slots_def)
  have mine: "(key, ?mine) \<in> set slots" by (rule working [OF task])
  have only: "s = ?mine" if "(key, s) \<in> set slots" for s using that mine dist by (metis map_of_is_SomeI option.inject)
  have "map (fst \<circ> ?f) slots = map fst slots" by (auto intro!: map_cong)
  then have keys: "distinct (map (fst \<circ> ?f) slots)" using dist by metis
  have "slot_ok ((wv_tasks w)(n \<mapsto> (key, digest, Noted out))) (?f (k, s))" if "(k, s) \<in> set slots" for k s
  proof (cases "k = key")
    case True
    then have "s = ?mine" using only that by blast
    then show ?thesis using True by (simp add: slot_ok_def)
  next
    case False
    then have "sl_answer s \<noteq> n" using slots_ok [OF that] task by (auto simp: slot_ok_def)
    then show ?thesis using False slot_ok_update [OF slots_ok [OF that] task] by simp
  qed
  moreover have "(k, \<lparr>sl_digest = d, sl_answer = m, sl_answered = None\<rparr>) \<in> set (map ?f slots)"
    if "((wv_tasks w)(n \<mapsto> (key, digest, Noted out))) m = Some (k, d, Working)" for m k d
  proof -
    have m: "m \<noteq> n" "wv_tasks w m = Some (k, d, Working)" using that by (auto split: if_splits)
    note entry = working [OF m(2)]
    have "k \<noteq> key" using only entry m(1) by force
    then show ?thesis using entry by force
  qed
  ultimately show ?thesis using ok task keys unfolding verbs_ok_def note_answered_def slots_def
    by (auto split: if_splits)
qed

lemma verbs_ok_run: "verbs_run capacity lifetime w \<Longrightarrow> verbs_ok capacity lifetime w"
proof (induction rule: verbs_run.induct)
  case start
  then show ?case by (simp add: verbs_ok_def ledger_new_def)
next
  case (ask w now key digest)
  from claim_ok [OF ask(2)] show ?case .
next
  case (finish w n key digest now out)
  then show ?case by (intro verbs_ok_finish)
next
  case (send w n key digest out)
  then show ?case by (intro verbs_ok_tasks) auto
next
  case (die w n key digest)
  then show ?case by (intro verbs_ok_tasks) auto
next
  case (reorder w slots)
  have "set slots = set (lg_table (wv_ledger w))" "length slots = length (lg_table (wv_ledger w))"
    using reorder(2) by (metis set_mset_mset, metis size_mset)
  moreover have "distinct (map fst slots) = distinct (map fst (lg_table (wv_ledger w)))"
    using reorder(2) by (metis distinct_count_atmost_1 mset_map set_mset_mset mset_eq_imp_distinct_iff)
  ultimately show ?case using reorder(3) by (simp add: verbs_ok_def)
qed

text \<open>
  C20. A keyed verb never runs twice at once, and no answer is another verb's. Along every interleaving of callers, tasks
  that finish, send and die, and the passing of time, with the table in any order: the table stays within its capacity; two tasks at work on one key are
  the same task; and what a caller finds is right. It starts the verb only when no task is at work on that key; it waits only for a task that
  was started for the same key and the same verb, by its digest, and did not die; it is told the key was used for another verb only when one holds the key; and it is refused only
  when every place in the table is taken by a task at work.
\<close>

theorem keyed_verb_runs_once:
  assumes run: "verbs_run capacity lifetime w"
  shows "length (lg_table (wv_ledger w)) \<le> max capacity 1 \<and>
    (\<forall>m n d d'. wv_tasks w m = Some (key, d, Working) \<and> wv_tasks w n = Some (key, d', Working) \<longrightarrow> m = n) \<and>
    (case snd (ask now key digest w) of
       ClaimRun n \<Rightarrow> (\<forall>m d. wv_tasks w m \<noteq> Some (key, d, Working))
     | ClaimWait n \<Rightarrow> (\<exists>st. wv_tasks w n = Some (key, digest, st) \<and> st \<noteq> Died)
     | ClaimReused \<Rightarrow> (\<exists>n d st. wv_tasks w n = Some (key, d, st) \<and> d \<noteq> digest \<and> st \<noteq> Died)
     | ClaimFull \<Rightarrow> length (lg_table (wv_ledger w)) = max capacity 1 \<and>
         (\<forall>(k, s) \<in> set (lg_table (wv_ledger w)). wv_tasks w (sl_answer s) = Some (k, sl_digest s, Working)))"
proof -
  note ok = verbs_ok_run [OF run]
  define lg where "lg = wv_ledger w"
  define tasks where "tasks = wv_tasks w"
  have inv: "distinct (map fst (lg_table lg))" "length (lg_table lg) \<le> lg_capacity lg" "0 < lg_capacity lg"
    and cap: "lg_capacity lg = max capacity 1"
    and slots_ok: "\<And>k s. (k, s) \<in> set (lg_table lg) \<Longrightarrow> slot_ok tasks (k, s)"
    and working: "\<And>n k d. tasks n = Some (k, d, Working) \<Longrightarrow>
      (k, \<lparr>sl_digest = d, sl_answer = n, sl_answered = None\<rparr>) \<in> set (lg_table lg)"
    using ok by (auto simp: verbs_ok_def lg_def tasks_def)
  have one: "s = s'" if "(k, s) \<in> set (lg_table lg)" "(k, s') \<in> set (lg_table lg)" for k s s'
    using that inv(1) by (metis map_of_is_SomeI option.inject)
  have "m = n" if "tasks m = Some (key, d, Working)" "tasks n = Some (key, d', Working)" for m n d d'
    using one [OF working [OF that(1)] working [OF that(2)]] by simp
  moreover have "case snd (ask now key digest w) of
       ClaimRun n \<Rightarrow> (\<forall>m d. tasks m \<noteq> Some (key, d, Working))
     | ClaimWait n \<Rightarrow> (\<exists>st. tasks n = Some (key, digest, st) \<and> st \<noteq> Died)
     | ClaimReused \<Rightarrow> (\<exists>n d st. tasks n = Some (key, d, st) \<and> d \<noteq> digest \<and> st \<noteq> Died)
     | ClaimFull \<Rightarrow> length (lg_table lg) = max capacity 1 \<and>
         (\<forall>(k, s) \<in> set (lg_table lg). tasks (sl_answer s) = Some (k, sl_digest s, Working))"
  proof (cases rule: claim_cases [OF inv, of key "is_closed tasks" now "wv_next w" digest, case_names held full run])
    case (held s)
    have "slot_ok tasks (key, s)" using held(1) slots_ok by (auto dest: map_of_SomeD)
    moreover have "tasks (sl_answer s) \<noteq> Some (key, sl_digest s, Died)"
      using held(2) working_not_lapsed [OF \<open>slot_ok tasks (key, s)\<close>] \<open>slot_ok tasks (key, s)\<close> by (auto simp: slot_ok_def)
    ultimately show ?thesis using held(3) by (auto simp: ask_def slot_ok_def simp flip: lg_def tasks_def)
  next
    case full
    have "tasks (sl_answer s) = Some (k, sl_digest s, Working)" if "(k, s) \<in> set (lg_table lg)" for k s
      using full(3) that slots_ok [OF that] working_not_lapsed [OF slots_ok [OF that]] by (auto simp: slot_ok_def)
    then show ?thesis using full cap by (auto simp: ask_def simp flip: lg_def tasks_def)
  next
    case (run slots P)
    have "tasks m \<noteq> Some (key, d, Working)" for m d
    proof
      assume t: "tasks m = Some (key, d, Working)"
      note entry = working [OF t]
      then have "lapsed (is_closed tasks) now (lg_lifetime lg) \<lparr>sl_digest = d, sl_answer = m, sl_answered = None\<rparr>"
        using run(5) inv(1) by simp
      then show False using working_not_lapsed [OF slots_ok [OF entry]] t by simp
    qed
    then show ?thesis using run(3) by (simp add: ask_def flip: lg_def tasks_def)
  qed
  ultimately show ?thesis using inv(2) unfolding cap unfolding lg_def tasks_def by blast
qed

text \<open>
  C21. A repeat is answered from the table: while a task is at work on a key, and after it noted its answer as long as the entry is in the table and
  younger than its lifetime, a repeat of the verb waits for that same task; and a caller's claim takes out of the table only entries
  that lapsed, or, when it is full and none did, the one answered longest ago.
\<close>

theorem repeats_are_answered:
  assumes run: "verbs_run capacity lifetime w" and entry: "(k, s) \<in> set (lg_table (wv_ledger w))"
  shows "(case sl_answered s of
      None \<Rightarrow> wv_tasks w (sl_answer s) = Some (k, sl_digest s, Working) \<longrightarrow>
        snd (ask now k (sl_digest s) w) = ClaimWait (sl_answer s)
    | Some t \<Rightarrow> since now t < lifetime \<longrightarrow> snd (ask now k (sl_digest s) w) = ClaimWait (sl_answer s)) \<and>
    ((k, s) \<in> set (lg_table (wv_ledger (fst (ask now key digest w)))) \<or>
     lapsed (is_closed (wv_tasks w)) now lifetime s \<or>
     length (lg_table (wv_ledger w)) = max capacity 1 \<and>
     (\<exists>t. sl_answered s = Some t \<and> (\<forall>(_, s') \<in> set (lg_table (wv_ledger w)). \<not> lapsed (is_closed (wv_tasks w)) now lifetime s' \<and>
        (\<forall>u. sl_answered s' = Some u \<longrightarrow> t \<le> u))))"
proof -
  note ok = verbs_ok_run [OF run]
  define lg where "lg = wv_ledger w"
  define c where "c = is_closed (wv_tasks w)"
  have inv: "distinct (map fst (lg_table lg))" "length (lg_table lg) \<le> lg_capacity lg" "0 < lg_capacity lg"
    and cap: "lg_capacity lg = max capacity 1" "lg_lifetime lg = lifetime" and slot: "slot_ok (wv_tasks w) (k, s)"
    using ok entry by (auto simp: verbs_ok_def lg_def)
  have get: "map_of (lg_table lg) k = Some s" using entry inv(1) by (simp add: lg_def)
  have wait: "snd (ask now k (sl_digest s) w) = ClaimWait (sl_answer s)" if "\<not> lapsed c now lifetime s"
    using that get cap(2) by (simp add: ask_def claim_def flip: lg_def c_def)
  have "case sl_answered s of
      None \<Rightarrow> wv_tasks w (sl_answer s) = Some (k, sl_digest s, Working) \<longrightarrow> \<not> lapsed c now lifetime s
    | Some t \<Rightarrow> since now t < lifetime \<longrightarrow> \<not> lapsed c now lifetime s"
    by (auto simp: lapsed_def c_def is_closed_def split: option.splits)
  moreover have "(k, s) \<in> set (lg_table (wv_ledger (fst (ask now key digest w)))) \<or> forgettable c now lg s"
  proof (cases rule: claim_cases [OF inv, of key c now "wv_next w" digest, case_names held full run])
    case (run slots P)
    then have "(k, s) \<in> set (lg_table (fst (claim c now (wv_next w) key digest lg)))" if "P (k, s)" "k \<noteq> key"
      using that entry by (simp add: lg_def)
    moreover have "forgettable c now lg s" if "k = key" using run(5) get that by (simp add: forgettable_def)
    ultimately show ?thesis using run(3,4) entry by (auto simp: ask_def lg_def simp flip: c_def)
  qed (use entry in \<open>auto simp: ask_def lg_def simp flip: c_def split: if_splits\<close>)
  ultimately show ?thesis using wait inv(2) cap unfolding forgettable_def
    by (auto simp flip: lg_def c_def split: option.splits)
qed

section \<open>Witnesses\<close>

definition one_verb :: "(nat, nat, nat) worker_verbs" where
  "one_verb = fst (ask 0 1 7 \<lparr>wv_ledger = ledger_new 1 900, wv_tasks = (\<lambda>_. None), wv_next = 0\<rparr>)"

lemma one_verb_run: "verbs_run 1 900 one_verb"
  unfolding one_verb_def by (intro verbs_run.ask verbs_run.start)

lemma one_verb_eq: "one_verb = \<lparr>wv_ledger = \<lparr>lg_table = [(1, \<lparr>sl_digest = 7, sl_answer = 0, sl_answered = None\<rparr>)],
    lg_capacity = 1, lg_lifetime = 900\<rparr>, wv_tasks = [0 \<mapsto> (1, 7, Working)], wv_next = 1\<rparr>"
  by (simp add: one_verb_def ask_def claim_def ledger_new_def)

theorem keyed_verb_runs_once_witness:
  "snd (ask 5 2 7 one_verb) = ClaimFull \<and> length (lg_table (wv_ledger one_verb)) = 1 \<and>
   wv_tasks one_verb 0 = Some (1, 7, Working) \<and> snd (ask 5 1 8 one_verb) = ClaimReused"
proof -
  have full: "snd (ask 5 2 7 one_verb) = ClaimFull"
    by (simp add: one_verb_eq ask_def claim_def make_room_def answered_keys_def lapsed_def is_closed_def)
  have reused: "snd (ask 5 1 8 one_verb) = ClaimReused"
    by (simp add: one_verb_eq ask_def claim_def lapsed_def is_closed_def)
  show ?thesis using keyed_verb_runs_once [OF one_verb_run, of 2 5 7] full reused by (simp add: one_verb_eq)
qed

theorem repeats_are_answered_witness:
  "snd (ask 5 1 7 one_verb) = ClaimWait 0"
  using repeats_are_answered [OF one_verb_run, of 1 "\<lparr>sl_digest = 7, sl_answer = 0, sl_answered = None\<rparr>" 5 1 7]
  by (simp add: one_verb_eq)

end
