(* ===== verification/Calendar.thy ===== *)
theory Calendar
  imports Prelude "HOL-Library.Monad_Syntax"
begin

text \<open>
  Wall time as a calendar and a clock read it (\<open>slopty-core/src/time.rs\<close>): milliseconds since the Unix epoch, and the
  proleptic Gregorian date and time of day they name in a time zone, computed with the checked arithmetic of \<open>i64\<close>.
\<close>

section \<open>Checked arithmetic of i64\<close>

definition in_i64 :: "int \<Rightarrow> bool" where
  "in_i64 x \<longleftrightarrow> - (2 ^ 63) \<le> x \<and> x < 2 ^ 63"

definition i64 :: "int \<Rightarrow> int option" where
  "i64 x = (if in_i64 x then Some x else None)"

text \<open>\<open>checked_div\<close> rounds towards zero, \<open>div_euclid\<close> down; the divisors here are positive constants.\<close>

definition i64_div :: "int \<Rightarrow> int \<Rightarrow> int" where
  "i64_div a b = (if 0 \<le> a then a div b else - ((- a) div b))"

definition i64_rem :: "int \<Rightarrow> int \<Rightarrow> int" where
  "i64_rem a b = a - b * i64_div a b"

section \<open>The date\<close>

definition civil_from_days :: "int \<Rightarrow> (int \<times> int \<times> int) option" where
  "civil_from_days days = do {
     z \<leftarrow> i64 (days + 719468);
     let era = z div 146097;
     p \<leftarrow> i64 (era * 146097);
     day_of_era \<leftarrow> i64 (z - p);
     q \<leftarrow> i64 (day_of_era - i64_div day_of_era 1460);
     q \<leftarrow> i64 (q + i64_div day_of_era 36524);
     q \<leftarrow> i64 (q - i64_div day_of_era 146096);
     let year_of_era = i64_div q 365;
     r \<leftarrow> i64 (year_of_era * 365);
     r \<leftarrow> i64 (r + i64_div year_of_era 4);
     r \<leftarrow> i64 (r - i64_div year_of_era 100);
     day_of_year \<leftarrow> i64 (day_of_era - r);
     m \<leftarrow> i64 (day_of_year * 5);
     m \<leftarrow> i64 (m + 2);
     let shifted_month = i64_div m 153;
     s \<leftarrow> i64 (shifted_month * 153);
     s \<leftarrow> i64 (s + 2);
     d \<leftarrow> i64 (day_of_year - i64_div s 5);
     day \<leftarrow> i64 (d + 1);
     month \<leftarrow> (if shifted_month < 10 then i64 (shifted_month + 3) else i64 (shifted_month - 9));
     e \<leftarrow> i64 (era * 400);
     year \<leftarrow> i64 (year_of_era + e);
     year \<leftarrow> (if month \<le> 2 then i64 (year + 1) else Some year);
     Some (year, month, day) }"

record civil =
  cv_year :: int
  cv_month :: nat
  cv_day :: nat
  cv_hour :: nat
  cv_minute :: nat
  cv_second :: nat

text \<open>\<open>u8::try_from(n).ok()\<close>.\<close>

definition civil_part :: "int \<Rightarrow> nat option" where
  "civil_part n = (if 0 \<le> n \<and> n < 256 then Some (nat n) else None)"

definition DAY_S :: int where "DAY_S = 86400"

definition civil_of :: "nat \<Rightarrow> int \<Rightarrow> civil option" where
  "civil_of ms offset_s = do {
     whole \<leftarrow> i64 (int (ms div 1000));
     seconds \<leftarrow> i64 (whole + offset_s);
     let days = seconds div DAY_S;
     let of_day = seconds mod DAY_S;
     (year, month, day) \<leftarrow> civil_from_days days;
     month \<leftarrow> civil_part month;
     day \<leftarrow> civil_part day;
     hour \<leftarrow> civil_part (i64_div of_day 3600);
     minute \<leftarrow> civil_part (i64_div (i64_rem of_day 3600) 60);
     second \<leftarrow> civil_part (i64_rem of_day 60);
     Some \<lparr>cv_year = year, cv_month = month, cv_day = day, cv_hour = hour, cv_minute = minute, cv_second = second\<rparr> }"

definition wall_since :: "nat \<Rightarrow> nat \<Rightarrow> duration" where
  "wall_since ms earlier = from_millis (ms - earlier)"

definition wall_add :: "nat \<Rightarrow> duration \<Rightarrow> nat" where
  "wall_add ms span = sat_add 64 ms (to_width 64 (as_millis span))"

definition millis_since :: "nat \<Rightarrow> nat \<Rightarrow> nat" where
  "millis_since ms earlier = ms - earlier"

lemma wall_add_since:
  assumes "ms + as_millis span < 2 ^ 64"
  shows "wall_since (wall_add ms span) ms = from_millis (as_millis span)" "millis_since (wall_add ms span) ms = as_millis span"
  using assms by (simp_all add: wall_since_def wall_add_def millis_since_def sat_add_def to_width_def umax_def)

section \<open>The Gregorian calendar\<close>

definition leap :: "int \<Rightarrow> bool" where
  "leap y \<longleftrightarrow> 4 dvd y \<and> (\<not> 100 dvd y \<or> 400 dvd y)"

definition month_days :: "int \<Rightarrow> int \<Rightarrow> int" where
  "month_days y m = (if m = 2 then if leap y then 29 else 28 else if m = 4 \<or> m = 6 \<or> m = 9 \<or> m = 11 then 30 else 31)"

definition valid_date :: "int \<times> int \<times> int \<Rightarrow> bool" where
  "valid_date = (\<lambda>(y, m, d). 1 \<le> m \<and> m \<le> 12 \<and> 1 \<le> d \<and> d \<le> month_days y m)"

text \<open>The day after, as a calendar on the wall has it.\<close>

definition next_day :: "int \<times> int \<times> int \<Rightarrow> int \<times> int \<times> int" where
  "next_day = (\<lambda>(y, m, d). if d < month_days y m then (y, m, d + 1) else if m < 12 then (y, m + 1, 1) else (y + 1, 1, 1))"

text \<open>
  How many days a date is after the first of January 1970: the days of the years before it, leap days as the rule of four, a hundred and four
  hundred years counts them, and of the months before it.
\<close>

definition year_start :: "int \<Rightarrow> int" where
  "year_start y = 365 * (y - 1970) + ((y - 1) div 4 - (y - 1) div 100 + (y - 1) div 400) - 477"

definition month_start :: "int \<Rightarrow> int \<Rightarrow> int" where
  "month_start y m = sum_list (map (month_days y) [1..m - 1])"

definition day_number :: "int \<times> int \<times> int \<Rightarrow> int" where
  "day_number = (\<lambda>(y, m, d). year_start y + month_start y m + d - 1)"

lemma month_cases:
  fixes m :: int
  assumes "1 \<le> m" and "m \<le> 12"
  obtains "m = 1" | "m = 2" | "m = 3" | "m = 4" | "m = 5" | "m = 6" | "m = 7" | "m = 8" | "m = 9" | "m = 10" | "m = 11" | "m = 12"
proof -
  have "m = 1 \<or> m = 2 \<or> m = 3 \<or> m = 4 \<or> m = 5 \<or> m = 6 \<or> m = 7 \<or> m = 8 \<or> m = 9 \<or> m = 10 \<or> m = 11 \<or> m = 12"
    using assms by presburger
  then show thesis using that by blast
qed

lemma month_start_simps:
  "month_start y 1 = 0" "month_start y 2 = 31"
  "month_start y 3 = 59 + of_bool (leap y)" "month_start y 4 = 90 + of_bool (leap y)" "month_start y 5 = 120 + of_bool (leap y)"
  "month_start y 6 = 151 + of_bool (leap y)" "month_start y 7 = 181 + of_bool (leap y)" "month_start y 8 = 212 + of_bool (leap y)"
  "month_start y 9 = 243 + of_bool (leap y)" "month_start y 10 = 273 + of_bool (leap y)" "month_start y 11 = 304 + of_bool (leap y)"
  "month_start y 12 = 334 + of_bool (leap y)"
  by (simp_all add: month_start_def month_days_def upto.simps)

lemma div_step: "0 < k \<Longrightarrow> y div k = (y - 1) div k + of_bool (k dvd y)" for y k :: int
proof -
  assume k: "0 < k"
  show ?thesis
  proof (cases "k dvd y")
    case True
    then obtain q where y: "y = k * q" by blast
    have "(k * q - 1) div k = ((k - 1) + (q - 1) * k) div k" by (simp add: algebra_simps)
    then show ?thesis using True k y by (simp add: div_mult_self1)
  next
    case False
    then have "0 < y mod k" using k by (simp add: dvd_eq_mod_eq_0 order_less_le)
    moreover have "y mod k < k" using k by simp
    moreover have "(y - 1) div k = ((y mod k - 1) + (y div k) * k) div k" by (simp add: algebra_simps)
    moreover have "(y mod k - 1) div k = 0" using calculation(1,2) by (intro div_pos_pos_trivial) linarith+
    ultimately show ?thesis using False k by simp
  qed
qed

lemma leap_days:
  fixes a b c x :: int
  assumes "r \<longrightarrow> q" and "q \<longrightarrow> p"
  shows "x + 365 + ((a + of_bool p) - (b + of_bool q) + (c + of_bool r)) - 477 =
    x + (a - b + c) - 477 + 365 + of_bool (p \<and> (\<not> q \<or> r))"
  using assms by (cases p; cases q; cases r) simp_all

lemma year_start_Suc: "year_start (y + 1) = year_start y + 365 + of_bool (leap y)"
proof -
  have "400 dvd y \<longrightarrow> 100 dvd y" "100 dvd y \<longrightarrow> 4 dvd y" using dvd_trans [of 100 400 y] dvd_trans [of 4 100 y] by simp_all
  note leap_days [OF this, of "365 * (y - 1970)" "(y - 1) div 4" "(y - 1) div 100" "(y - 1) div 400"]
  moreover have "year_start (y + 1) = 365 * (y - 1970) + 365 + (y div 4 - y div 100 + y div 400) - 477"
    unfolding year_start_def add_diff_cancel_right' by (simp only: algebra_simps)
  ultimately show ?thesis
    using div_step [of 4 y] div_step [of 100 y] div_step [of 400 y] by (simp only: year_start_def leap_def)
qed

lemma epoch_day: "valid_date (1970, 1, 1)" "day_number (1970, 1, 1) = 0"
  by (simp_all add: valid_date_def month_days_def day_number_def year_start_def month_start_simps)

text \<open>Counted from the epoch, the day after a date is the next number: the numbering is the calendar walked day by day.\<close>

lemma next_day_ok:
  assumes "valid_date x"
  shows "valid_date (next_day x)" "day_number (next_day x) = day_number x + 1"
proof -
  obtain y m d where x: "x = (y, m, d)" by (cases x)
  have m: "1 \<le> m" "m \<le> 12" using assms by (auto simp: x valid_date_def)
  show "valid_date (next_day x)" using assms by (auto simp: x valid_date_def next_day_def month_days_def)
  show "day_number (next_day x) = day_number x + 1" using m
    by (rule month_cases) (use assms in \<open>auto simp: x valid_date_def next_day_def day_number_def month_start_simps month_days_def year_start_Suc\<close>)
qed

section \<open>The years of an era\<close>

text \<open>
  Four hundred years, counted from the first of March so that a leap day is the last of its year: a day of the era is
  \<open>c\<close> centuries, \<open>q\<close> fours of years, \<open>a\<close> years and a day of the year.
\<close>

lemma era_split:
  fixes doe :: int
  assumes "0 \<le> doe" and "doe < 146097"
  obtains c q a doy where "doe = 36524 * c + 1461 * q + 365 * a + doy" "0 \<le> c" "c \<le> 3" "0 \<le> q" "q \<le> 24" "0 \<le> a" "a \<le> 3"
    "0 \<le> doy" "doy \<le> 365" "doy = 365 \<longrightarrow> a = 3 \<and> (q < 24 \<or> c = 3)"
proof -
  define c where "c = min 3 (doe div 36524)"
  define r where "r = doe - 36524 * c"
  define q where "q = r div 1461"
  define t where "t = r mod 1461"
  define a where "a = min 3 (t div 365)"
  have c: "0 \<le> c" "c \<le> 3" "0 \<le> r" "r \<le> 36524" "r = 36524 \<longrightarrow> c = 3"
    using assms by (auto simp: c_def r_def min_def)
  have q: "0 \<le> q" "q \<le> 24" "r = 1461 * q + t" "0 \<le> t" "t \<le> 1460" using c by (auto simp: q_def t_def)
  have a: "0 \<le> a" "a \<le> 3" "0 \<le> t - 365 * a" "t - 365 * a \<le> 365" "t - 365 * a = 365 \<longrightarrow> a = 3 \<and> t = 1460"
    using q by (auto simp: a_def min_def)
  show thesis
    by (rule that [of c q a "t - 365 * a"]) (use c q a in \<open>auto simp: r_def\<close>)
qed

lemma div_is:
  fixes x k v :: int
  assumes "k * v \<le> x" and "x < k * v + k"
  shows "x div k = v"
proof -
  have "x div k = ((x - k * v) + v * k) div k" by (simp add: algebra_simps)
  moreover have "(x - k * v) div k = 0" using assms by (intro div_pos_pos_trivial) linarith+
  moreover have "k \<noteq> 0" using assms by auto
  ultimately show ?thesis using div_mult_self1 [of k "x - k * v" v] by simp
qed

lemma year_of_era:
  fixes c q a doy :: int
  assumes "0 \<le> c" "c \<le> 3" "0 \<le> q" "q \<le> 24" "0 \<le> a" "a \<le> 3" "0 \<le> doy" "doy \<le> 365" "doy = 365 \<longrightarrow> a = 3 \<and> (q < 24 \<or> c = 3)"
    and doe: "doe = 36524 * c + 1461 * q + 365 * a + doy"
  shows "(doe - doe div 1460 + doe div 36524 - doe div 146096) div 365 = 100 * c + 4 * q + a"
proof -
  define e where "e = (if 24 * c + q + 365 * a + doy \<ge> 1460 then 1 else 0 :: int)"
  define l where "l = (if doe = 146096 then 1 else 0 :: int)"
  have d1: "doe div 1460 = 25 * c + q + e"
    by (rule div_is) (use assms in \<open>auto simp: e_def\<close>)
  have last: "c = 3 \<and> q = 24 \<and> a = 3 \<and> doy = 365" if "36524 \<le> 1461 * q + 365 * a + doy" using that assms by linarith
  then have l: "l = (if 36524 \<le> 1461 * q + 365 * a + doy then 1 else 0)" using assms by (auto simp: l_def doe)
  have d2: "doe div 36524 = c + l"
    by (rule div_is) (use assms last in \<open>auto simp: l\<close>)
  have "doe \<le> 146096" using assms by linarith
  then have d3: "doe div 146096 = l"
    by (intro div_is) (use assms in \<open>auto simp: l_def\<close>)
  have "doe - doe div 1460 + doe div 36524 - doe div 146096 = 365 * (100 * c + 4 * q + a) + (doy - e)"
    unfolding d1 d2 d3 unfolding doe by (simp add: algebra_simps)
  moreover have "0 \<le> doy - e" "doy - e < 365" using assms by (auto simp: e_def split: if_splits)
  ultimately show ?thesis by (intro div_is) linarith+
qed

text \<open>The months from March on: the day of the year falls into the month whose days it is among.\<close>

lemma month_of_year:
  fixes doy :: int
  assumes "0 \<le> doy" and "doy \<le> 365" and mp: "mp = (5 * doy + 2) div 153"
  shows "0 \<le> mp" "mp \<le> 11" "(153 * mp + 2) div 5 \<le> doy" "mp < 11 \<Longrightarrow> doy < (153 * (mp + 1) + 2) div 5"
proof -
  have b: "153 * mp \<le> 5 * doy + 2" "5 * doy + 2 < 153 * mp + 153"
    using mp by (simp_all add: minus_mod_eq_mult_div [symmetric])
  show "0 \<le> mp" "mp \<le> 11" using b assms by linarith+
  have "(153 * mp + 2) div 5 \<le> (5 * doy + 4) div 5" "(5 * doy + 5) div 5 \<le> (153 * (mp + 1) + 2) div 5"
    using b by (intro zdiv_mono1; simp)+
  then show "(153 * mp + 2) div 5 \<le> doy" "doy < (153 * (mp + 1) + 2) div 5" by simp_all
qed

section \<open>The date is the calendar's\<close>

definition march :: "int \<Rightarrow> int" where
  "march y = 365 * y + (y div 4 - y div 100 + y div 400) - 719468"

lemma march_eq: "march y = year_start y + 59 + of_bool (leap y)" "year_start (y + 1) = march y + 306"
proof -
  show "year_start (y + 1) = march y + 306" unfolding year_start_def march_def add_diff_cancel_right' by simp
  then show "march y = year_start y + 59 + of_bool (leap y)" using year_start_Suc [of y] by simp
qed

lemma shifted_cases:
  fixes mp :: int
  assumes "0 \<le> mp" and "mp \<le> 11"
  obtains "mp = 0" | "mp = 1" | "mp = 2" | "mp = 3" | "mp = 4" | "mp = 5" | "mp = 6" | "mp = 7" | "mp = 8" | "mp = 9" | "mp = 10" | "mp = 11"
proof -
  have "1 \<le> mp + 1" "mp + 1 \<le> 12" using assms by simp_all
  then show thesis by (rule month_cases) (use that in simp_all)
qed

definition shifted_date :: "int \<Rightarrow> int \<Rightarrow> int \<times> int \<times> int" where
  "shifted_date y doy = (let mp = (5 * doy + 2) div 153; m = (if mp < 10 then mp + 3 else mp - 9)
     in (if m \<le> 2 then y + 1 else y, m, doy - (153 * mp + 2) div 5 + 1))"

lemma shifted_date_ok:
  assumes doy: "0 \<le> doy" "doy \<le> 365" and leap: "doy = 365 \<Longrightarrow> leap (y + 1)"
  shows "valid_date (shifted_date y doy)" "day_number (shifted_date y doy) = march y + doy"
proof -
  define mp where "mp = (5 * doy + 2) div 153"
  note m = month_of_year [OF doy mp_def]
  have "valid_date (shifted_date y doy) \<and> day_number (shifted_date y doy) = march y + doy" using m(1,2)
  proof (rule shifted_cases)
    assume "mp = 11"
    then show ?thesis using m(3) doy leap
      by (cases "doy = 365") (auto simp: shifted_date_def Let_def valid_date_def day_number_def month_days_def month_start_simps march_eq(2) simp flip: mp_def)
  qed (use m in \<open>auto simp: shifted_date_def Let_def valid_date_def day_number_def month_days_def month_start_simps march_eq simp flip: mp_def\<close>)
  then show "valid_date (shifted_date y doy)" "day_number (shifted_date y doy) = march y + doy" by simp_all
qed

lemma year_parts:
  fixes c q a era :: int
  assumes "0 \<le> c" "c \<le> 3" "0 \<le> q" "q \<le> 24" "0 \<le> a" "a \<le> 3"
  shows "(100 * c + 4 * q + a) div 4 = 25 * c + q" "(100 * c + 4 * q + a) div 100 = c"
    "march (100 * c + 4 * q + a + 400 * era) = 146097 * era + 36524 * c + 1461 * q + 365 * a - 719468"
proof -
  show "(100 * c + 4 * q + a) div 4 = 25 * c + q" by (rule div_is) (use assms in simp_all)
  show "(100 * c + 4 * q + a) div 100 = c" by (rule div_is) (use assms in simp_all)
  have "(100 * c + 4 * q + a + 400 * era) div 4 = 25 * c + q + 100 * era" by (rule div_is) (use assms in simp_all)
  moreover have "(100 * c + 4 * q + a + 400 * era) div 100 = c + 4 * era" by (rule div_is) (use assms in simp_all)
  moreover have "(100 * c + 4 * q + a + 400 * era) div 400 = era" by (rule div_is) (use assms in simp_all)
  ultimately show "march (100 * c + 4 * q + a + 400 * era) = 146097 * era + 36524 * c + 1461 * q + 365 * a - 719468"
    by (simp only: march_def) (simp add: algebra_simps)
qed

lemma i64_small: "- (2 ^ 62) \<le> x \<Longrightarrow> x \<le> 2 ^ 62 \<Longrightarrow> i64 x = Some x"
  by (simp add: i64_def in_i64_def)

lemma i64_div_pos: "0 \<le> a \<Longrightarrow> i64_div a b = a div b"
  by (simp add: i64_div_def)

lemma civil_from_days_shifted:
  assumes "- (2 ^ 55) \<le> days" "days \<le> 2 ^ 55"
    and z: "days + 719468 = 146097 * era + doe" and doe: "doe = 36524 * c + 1461 * q + 365 * a + doy"
    and r: "0 \<le> c" "c \<le> 3" "0 \<le> q" "q \<le> 24" "0 \<le> a" "a \<le> 3" "0 \<le> doy" "doy \<le> 365" "doy = 365 \<longrightarrow> a = 3 \<and> (q < 24 \<or> c = 3)"
  shows "civil_from_days days = Some (shifted_date (100 * c + 4 * q + a + 400 * era) doy)"
proof -
  define yoe where "yoe = 100 * c + 4 * q + a"
  define mp where "mp = (5 * doy + 2) div 153"
  have doe': "0 \<le> doe" "doe < 146097" using r doe by linarith+
  have yoe': "0 \<le> yoe" "yoe \<le> 399" "yoe div 4 = 25 * c + q" "yoe div 100 = c"
    using r year_parts [OF r(1-6)] by (auto simp: yoe_def)
  have e: "(days + 719468) div 146097 = era" unfolding z by (rule div_is) (use doe' in linarith)+
  have era: "- (2 ^ 40) \<le> era" "era \<le> 2 ^ 40" using assms(1,2) z doe' by (simp_all add: algebra_simps)
  note year = year_of_era [OF r doe, folded yoe_def]
  have small: "0 \<le> doe div 1460" "doe div 1460 \<le> 101" "0 \<le> doe div 36524" "doe div 36524 \<le> 4" "0 \<le> doe div 146096" "doe div 146096 \<le> 1"
    using doe' by linarith+
  have pos: "0 \<le> doe - doe div 1460 + doe div 36524 - doe div 146096" using year yoe'(1) by (simp add: pos_imp_zdiv_nonneg_iff)
  have m: "0 \<le> mp" "mp \<le> 11" using month_of_year [OF r(7,8) mp_def] by simp_all
  have day: "doe - (yoe * 365 + yoe div 4 - yoe div 100) = doy" unfolding yoe'(3,4) unfolding doe yoe_def by (simp add: algebra_simps)
  have i1: "i64 (days + 719468) = Some (days + 719468)" "i64 (era * 146097) = Some (era * 146097)"
    "i64 (days + 719468 - era * 146097) = Some doe" "i64 (doe - doe div 1460) = Some (doe - doe div 1460)"
    "i64 (doe - doe div 1460 + doe div 36524) = Some (doe - doe div 1460 + doe div 36524)"
    "i64 (doe - doe div 1460 + doe div 36524 - doe div 146096) = Some (doe - doe div 1460 + doe div 36524 - doe div 146096)"
    using assms(1,2) z doe' era small by (simp_all add: i64_small algebra_simps)
  have i2: "i64 (yoe * 365) = Some (yoe * 365)" "i64 (yoe * 365 + yoe div 4) = Some (yoe * 365 + yoe div 4)"
    "i64 (yoe * 365 + yoe div 4 - yoe div 100) = Some (yoe * 365 + yoe div 4 - yoe div 100)"
    "i64 (doe - (yoe * 365 + yoe div 4 - yoe div 100)) = Some doy"
    using yoe' r unfolding day by (simp_all add: i64_small)
  have i3: "i64 (doy * 5) = Some (doy * 5)" "i64 (doy * 5 + 2) = Some (doy * 5 + 2)"
    "i64 (mp * 153) = Some (mp * 153)" "i64 (mp * 153 + 2) = Some (mp * 153 + 2)"
    "i64 (doy - (mp * 153 + 2) div 5) = Some (doy - (mp * 153 + 2) div 5)"
    "i64 (doy - (mp * 153 + 2) div 5 + 1) = Some (doy - (mp * 153 + 2) div 5 + 1)"
    "(if mp < 10 then i64 (mp + 3) else i64 (mp - 9)) = Some (if mp < 10 then mp + 3 else mp - 9)"
    using r(7,8) m by (simp_all add: i64_small)
  have i4: "i64 (era * 400) = Some (era * 400)" "i64 (yoe + era * 400) = Some (yoe + era * 400)"
    "(if k \<le> 2 then i64 (yoe + era * 400 + 1) else Some (yoe + era * 400)) = Some (if k \<le> 2 then yoe + era * 400 + 1 else yoe + era * 400)"
    for k :: int using yoe' era by (simp_all add: i64_small)
  have td: "i64_div doe k = doe div k" "i64_div yoe k = yoe div k" "i64_div (doy * 5 + 2) k = (doy * 5 + 2) div k"
    "i64_div (mp * 153 + 2) k = (mp * 153 + 2) div k"
    "i64_div (doe - doe div 1460 + doe div 36524 - doe div 146096) 365 = yoe" for k
    using doe'(1) yoe'(1) r(7) m(1) by (simp_all add: i64_div_pos i64_div_pos [OF pos] year)
  have "shifted_date (yoe + 400 * era) doy = (let k = (if mp < 10 then mp + 3 else mp - 9)
      in (if k \<le> 2 then yoe + era * 400 + 1 else yoe + era * 400, k, doy - (mp * 153 + 2) div 5 + 1))"
    by (simp only: shifted_date_def Let_def mp_def mult.commute [of 5] mult.commute [of 400] mult.commute [of 153])
  moreover have "(doy * 5 + 2) div 153 = mp" by (simp only: mp_def mult.commute)
  ultimately have "civil_from_days days = Some (shifted_date (yoe + 400 * era) doy)"
    by (simp only: civil_from_days_def Let_def e td i1 i2 i3 i4 Option.bind.simps)
  then show ?thesis by (simp only: yoe_def)
qed

lemma leap_after:
  fixes c q era :: int
  assumes "0 \<le> c" "c \<le> 3" "0 \<le> q" "q \<le> 24" "q < 24 \<or> c = 3"
  shows "leap (100 * c + 4 * q + 3 + 400 * era + 1)"
proof -
  have y: "100 * c + 4 * q + 3 + 400 * era + 1 = 4 * (25 * c + q + 1 + 100 * era)" by simp
  have "400 dvd 100 * c + 4 * q + 3 + 400 * era + 1" if "100 dvd 100 * c + 4 * q + 3 + 400 * era + 1"
  proof -
    have "100 * c + 4 * q + 3 + 400 * era + 1 = (4 * q + 4) + 100 * (c + 4 * era)" by simp
    then have "100 dvd (4 * q + 4) + 100 * (c + 4 * era)" using that by (simp only:)
    then have "100 dvd 4 * q + 4" by (simp only: dvd_add_left_iff [OF dvd_triv_left])
    then have "100 \<le> 4 * q + 4" using assms(3) by (intro zdvd_imp_le) simp_all
    then have "q = 24" "c = 3" using assms by linarith+
    then have "100 * c + 4 * q + 3 + 400 * era + 1 = 400 * (1 + era)" by simp
    then show ?thesis by (metis dvd_triv_left)
  qed
  then show ?thesis unfolding leap_def using y by (metis dvd_triv_left)
qed

lemma civil_from_days_ok:
  assumes "- (2 ^ 55) \<le> days" "days \<le> 2 ^ 55"
  shows "\<exists>x. civil_from_days days = Some x \<and> valid_date x \<and> day_number x = days"
proof -
  define era where "era = (days + 719468) div 146097"
  define doe where "doe = (days + 719468) mod 146097"
  have z: "days + 719468 = 146097 * era + doe" and "0 \<le> doe" "doe < 146097" by (simp_all add: era_def doe_def)
  from this(2,3) obtain c q a doy where doe: "doe = 36524 * c + 1461 * q + 365 * a + doy"
    and r: "0 \<le> c" "c \<le> 3" "0 \<le> q" "q \<le> 24" "0 \<le> a" "a \<le> 3" "0 \<le> doy" "doy \<le> 365" "doy = 365 \<longrightarrow> a = 3 \<and> (q < 24 \<or> c = 3)"
    by (rule era_split)
  have "leap (100 * c + 4 * q + a + 400 * era + 1)" if "doy = 365" using leap_after [OF r(1-4)] r(9) that by auto
  note shifted_date_ok [OF r(7,8) this]
  moreover have "march (100 * c + 4 * q + a + 400 * era) + doy = days" using year_parts(3) [OF r(1-6)] z doe by simp
  ultimately show ?thesis using civil_from_days_shifted [OF assms z doe r] by simp
qed

section \<open>A day has one date\<close>

lemma year_start_mono: "x \<le> y \<Longrightarrow> year_start x \<le> year_start y"
  by (induction rule: int_ge_induct) (simp_all add: year_start_Suc)

lemma month_start_Suc: "1 \<le> m \<Longrightarrow> m \<le> 11 \<Longrightarrow> month_start y (m + 1) = month_start y m + month_days y m"
  by (rule month_cases [of m]) (simp_all add: month_start_simps month_days_def)

lemma month_start_mono: "m \<le> n \<Longrightarrow> 1 \<le> m \<Longrightarrow> n \<le> 12 \<Longrightarrow> month_start y m \<le> month_start y n"
proof (induction rule: int_ge_induct)
  case (step n)
  moreover have "0 \<le> month_days y n" by (simp add: month_days_def)
  ultimately show ?case using month_start_Suc [of n y] by simp
qed simp

lemma date_in_year:
  assumes "valid_date (y, m, d)"
  shows "year_start y \<le> day_number (y, m, d)" "day_number (y, m, d) < year_start (y + 1)"
proof -
  have m: "1 \<le> m" "m \<le> 12" using assms by (auto simp: valid_date_def)
  have "year_start y \<le> day_number (y, m, d) \<and> day_number (y, m, d) < year_start (y + 1)" using m
    by (rule month_cases) (use assms in \<open>auto simp: valid_date_def day_number_def month_start_simps month_days_def year_start_Suc split: if_splits\<close>)
  then show "year_start y \<le> day_number (y, m, d)" "day_number (y, m, d) < year_start (y + 1)" by simp_all
qed

lemma date_year_le:
  assumes "valid_date (y, m, d)" "valid_date (y', m', d')" "day_number (y, m, d) = day_number (y', m', d')"
  shows "y \<le> y'"
proof (rule ccontr)
  assume "\<not> y \<le> y'"
  then have "year_start (y' + 1) \<le> year_start y" by (intro year_start_mono) simp
  then show False using date_in_year(1) [OF assms(1)] date_in_year(2) [OF assms(2)] assms(3) by simp
qed

lemma date_month_le:
  assumes "valid_date (y, m, d)" "valid_date (y, m', d')" "day_number (y, m, d) = day_number (y, m', d')"
  shows "m \<le> m'"
proof (rule ccontr)
  assume "\<not> m \<le> m'"
  then have "month_start y (m' + 1) \<le> month_start y m" "month_start y (m' + 1) = month_start y m' + month_days y m'"
    using assms by (auto simp: valid_date_def intro: month_start_mono month_start_Suc)
  then show False using assms by (auto simp: valid_date_def day_number_def)
qed

lemma day_number_inj:
  assumes "valid_date x" "valid_date x'" "day_number x = day_number x'"
  shows "x = x'"
proof -
  obtain y m d y' m' d' where x: "x = (y, m, d)" "x' = (y', m', d')" by (cases x, cases x')
  have "y = y'" using date_year_le assms unfolding x by (metis order_antisym)
  moreover from this have "m = m'" using date_month_le assms unfolding x by (metis order_antisym)
  ultimately show ?thesis using assms(3) by (simp add: x day_number_def)
qed

section \<open>The clock\<close>

text \<open>A date and a time of day that exist, and the seconds from the epoch to it, in its own zone.\<close>

definition civil_date :: "civil \<Rightarrow> int \<times> int \<times> int" where
  "civil_date c = (cv_year c, int (cv_month c), int (cv_day c))"

definition valid_civil :: "civil \<Rightarrow> bool" where
  "valid_civil c \<longleftrightarrow> valid_date (civil_date c) \<and> cv_hour c < 24 \<and> cv_minute c < 60 \<and> cv_second c < 60"

definition civil_seconds :: "civil \<Rightarrow> int" where
  "civil_seconds c = 86400 * day_number (civil_date c) + 3600 * int (cv_hour c) + 60 * int (cv_minute c) + int (cv_second c)"

lemma valid_civil_time:
  assumes "valid_civil c"
  shows "civil_seconds c div 86400 = day_number (civil_date c)"
    "civil_seconds c mod 86400 = 3600 * int (cv_hour c) + 60 * int (cv_minute c) + int (cv_second c)"
proof -
  have "0 \<le> 3600 * int (cv_hour c) + 60 * int (cv_minute c) + int (cv_second c)"
    "3600 * int (cv_hour c) + 60 * int (cv_minute c) + int (cv_second c) < 86400" using assms by (auto simp: valid_civil_def)
  then show "civil_seconds c div 86400 = day_number (civil_date c)" by (intro div_is) (simp_all add: civil_seconds_def)
  then show "civil_seconds c mod 86400 = 3600 * int (cv_hour c) + 60 * int (cv_minute c) + int (cv_second c)"
    unfolding minus_mult_div_eq_mod [symmetric] by (simp add: civil_seconds_def)
qed

lemma clock_inj:
  fixes h i s :: nat
  assumes "3600 * h + 60 * i + s = 3600 * h' + 60 * i' + s'" "i < 60" "i' < 60" "s < 60" "s' < 60"
  shows "h = h'" "i = i'" "s = s'"
proof -
  show h: "h = h'" using assms by linarith
  show i: "i = i'" using assms h by linarith
  show "s = s'" using assms h i by linarith
qed

lemma civil_seconds_inj:
  assumes "valid_civil c" "valid_civil c'" "civil_seconds c = civil_seconds c'"
  shows "c = c'"
proof -
  note t = valid_civil_time [OF assms(1)] valid_civil_time [OF assms(2)]
  have "civil_date c = civil_date c'" using assms t by (auto simp: valid_civil_def intro: day_number_inj)
  moreover have "3600 * cv_hour c + 60 * cv_minute c + cv_second c = 3600 * cv_hour c' + 60 * cv_minute c' + cv_second c'"
    using t(2,4) assms(3) by simp
  then have "cv_hour c = cv_hour c'" "cv_minute c = cv_minute c'" "cv_second c = cv_second c'"
    using assms(1,2) clock_inj unfolding valid_civil_def by blast+
  ultimately show ?thesis by (simp add: civil_date_def)
qed

lemma time_of_day:
  fixes t :: int
  assumes "0 \<le> t" "t < 86400"
  obtains h i s where "civil_part (i64_div t 3600) = Some h" "civil_part (i64_div (i64_rem t 3600) 60) = Some i" "civil_part (i64_rem t 60) = Some s"
    "h < 24" "i < 60" "s < 60" "3600 * int h + 60 * int i + int s = t"
proof -
  have r: "i64_rem t 3600 = t mod 3600" "i64_rem t 60 = t mod 60"
    using assms by (simp_all add: i64_rem_def i64_div_pos minus_mult_div_eq_mod)
  have b: "0 \<le> t div 3600" "t div 3600 < 24" "0 \<le> t mod 3600 div 60" "t mod 3600 div 60 < 60" "0 \<le> t mod 60" "t mod 60 < 60"
    using assms pos_mod_bound [of 3600 t] pos_mod_bound [of 60 t] by linarith+
  have "t mod 3600 mod 60 = t mod 60" by (simp add: mod_mod_cancel)
  then have "60 * (t mod 3600 div 60) + t mod 60 = t mod 3600" using mult_div_mod_eq [of 60 "t mod 3600"] by (simp only:)
  then have "3600 * (t div 3600) + 60 * (t mod 3600 div 60) + t mod 60 = t"
    using mult_div_mod_eq [of 3600 t] by (simp only: add.assoc)
  moreover obtain h i s where "t div 3600 = int h" "t mod 3600 div 60 = int i" "t mod 60 = int s"
    using b nonneg_int_cases by metis
  ultimately show thesis using b assms
    by (intro that [of h i s]) (simp_all add: civil_part_def i64_div_pos r)
qed

lemma date_parts:
  assumes "valid_date (y, m, d)"
  shows "civil_part m = Some (nat m)" "civil_part d = Some (nat d)" "civil_date \<lparr>cv_year = y, cv_month = nat m, cv_day = nat d, cv_hour = h, cv_minute = i, cv_second = s\<rparr> = (y, m, d)"
  using assms by (auto simp: valid_date_def civil_part_def civil_date_def month_days_def split: if_splits)

lemma civil_of_some:
  assumes "ms < 2 ^ 64" and s: "in_i64 (int (ms div 1000) + off)"
  shows "\<exists>c. civil_of ms off = Some c \<and> valid_civil c \<and> civil_seconds c = int (ms div 1000) + off"
proof -
  define t where "t = int (ms div 1000) + off"
  have "ms div 1000 < 2 ^ 63" using assms(1) by (simp add: div_less_iff_less_mult)
  then have "int (ms div 1000) < 2 ^ 63" by (simp only: of_nat_less_numeral_power_cancel_iff)
  then have w: "i64 (int (ms div 1000)) = Some (int (ms div 1000))" "i64 t = Some t" using s by (simp_all add: i64_def in_i64_def t_def)
  have "0 \<le> t mod 86400" "t mod 86400 < 86400" "86400 * (t div 86400) + t mod 86400 = t"
    "- 9223372036854775808 \<le> t" "t < 9223372036854775808" using s unfolding t_def [symmetric] in_i64_def by simp_all
  then have "- (2 ^ 55) \<le> t div 86400" "t div 86400 \<le> 2 ^ 55" by simp_all
  from civil_from_days_ok [OF this] obtain y m d where
    d: "civil_from_days (t div 86400) = Some (y, m, d)" "valid_date (y, m, d)" "day_number (y, m, d) = t div 86400" by auto
  have "0 \<le> t mod 86400" "t mod 86400 < 86400" by simp_all
  then obtain h i s where h: "civil_part (i64_div (t mod 86400) 3600) = Some h" "civil_part (i64_div (i64_rem (t mod 86400) 3600) 60) = Some i"
    "civil_part (i64_rem (t mod 86400) 60) = Some s" "h < 24" "i < 60" "s < 60" "3600 * int h + 60 * int i + int s = t mod 86400" by (rule time_of_day)
  define c where "c = \<lparr>cv_year = y, cv_month = nat m, cv_day = nat d, cv_hour = h, cv_minute = i, cv_second = s\<rparr>"
  have date: "civil_date c = (y, m, d)" unfolding c_def by (rule date_parts(3) [OF d(2)])
  have "civil_of ms off = Some c"
    by (simp add: civil_of_def c_def Let_def w d(1) date_parts(1,2) [OF d(2)] h(1-3) DAY_S_def flip: t_def)
  moreover have "valid_civil c" using d(2) h(4-6) by (simp add: valid_civil_def date) (simp add: c_def)
  moreover have "civil_seconds c = 86400 * (t div 86400) + (3600 * int h + 60 * int i + int s)"
    by (simp add: civil_seconds_def date d(3)) (simp add: c_def)
  then have "civil_seconds c = t" unfolding h(7) by (simp only: mult_div_mod_eq)
  ultimately show ?thesis by (auto simp: t_def)
qed

text \<open>
  C22. The date and time of day the worker, the client and the logs show are those of the Gregorian calendar: in any zone, a wall time
  reads as a date that exists and a time of day whose seconds from the epoch are its own, no other date and time has them, and nothing is
  read only when the seconds do not fit an \<open>i64\<close>.
\<close>

theorem civil_is_the_calendar:
  assumes "ms < 2 ^ 64"
  shows "civil_of ms off = Some c \<longleftrightarrow> in_i64 (int (ms div 1000) + off) \<and> valid_civil c \<and> civil_seconds c = int (ms div 1000) + off"
proof (cases "in_i64 (int (ms div 1000) + off)")
  case True
  from civil_of_some [OF assms this] show ?thesis using True civil_seconds_inj by (metis option.inject)
next
  case False
  then show ?thesis by (cases "i64 (int (ms div 1000))") (auto simp: civil_of_def i64_def split: if_splits)
qed

theorem civil_is_the_calendar_witness:
  "civil_of 951868799999 3600 =
     Some \<lparr>cv_year = 2000, cv_month = 3, cv_day = 1, cv_hour = 0, cv_minute = 59, cv_second = 59\<rparr>"
  by (subst civil_is_the_calendar)
    (simp_all add: in_i64_def valid_civil_def civil_seconds_def civil_date_def valid_date_def day_number_def month_days_def month_start_simps
      year_start_def leap_def)

end
