(* ===== verification/Threads.thy ===== *)
theory Threads
  imports Predict_Line
begin

text \<open>
  An agent's thread and the one way it changes (\<open>slopty-proto/src/thread.rs\<close>, \<open>thread/reduce.rs\<close>, \<open>thread/work.rs\<close>,
  the clipped texts of \<open>thread/detail.rs\<close>): turns, items and what stands beside them, the actions, and the pure reducer that the
  worker and every client run. Ids are numbers or strings as in the source; what the reducer only carries and never looks at, the
  typed detail of a tool call, the target of a screen, a linked resource, is a type of its own.
\<close>

section \<open>Texts\<close>

record clipped =
  cl_text :: ustring
  cl_lines :: nat
  cl_chars :: nat
  cl_full :: "ustring option"

text \<open>\<open>str::split_inclusive('\n')\<close>: the lines with their ends; the last one may have none.\<close>

fun split_inclusive :: "ustring \<Rightarrow> ustring list" where
  "split_inclusive [] = []"
| "split_inclusive (c # cs) = (if c = 10 then [c] # split_inclusive cs
     else case split_inclusive cs of [] \<Rightarrow> [[c]] | l # ls \<Rightarrow> (c # l) # ls)"

definition strip_eol :: "ustring \<Rightarrow> ustring" where
  "strip_eol l = (if l \<noteq> [] \<and> last l = 10
     then let l = butlast l in if l \<noteq> [] \<and> last l = 13 then butlast l else l
     else l)"

definition str_lines :: "ustring \<Rightarrow> ustring list" where
  "str_lines s = map strip_eol (split_inclusive s)"

definition count32 :: "nat \<Rightarrow> nat" where
  "count32 n = to_width 32 n"

definition clipped_whole :: "ustring \<Rightarrow> clipped" where
  "clipped_whole t = \<lparr>cl_text = t, cl_lines = count32 (length (str_lines t)), cl_chars = count32 (length t), cl_full = None\<rparr>"

definition clipped_append :: "clipped \<Rightarrow> ustring \<Rightarrow> clipped" where
  "clipped_append c tx =
    (if tx = [] then c
     else let joins = cl_text c \<noteq> [] \<and> last (cl_text c) \<noteq> 10;
              added = count32 (length (str_lines tx)) - of_bool joins
          in c\<lparr>cl_lines := sat_add 32 (cl_lines c) added,
               cl_chars := sat_add 32 (cl_chars c) (count32 (length tx)),
               cl_text := cl_text c @ tx\<rparr>)"

section \<open>What a thread is made of\<close>

typedecl tool_detail
typedecl capture_target
typedecl resource_link

record link =
  lk_thread :: nat
  lk_item :: ustring

record thread_meta =
  tm_id :: nat
  tm_agent :: ustring
  tm_agent_version :: ustring
  tm_native :: ustring
  tm_cwd :: ustring
  tm_title :: ustring
  tm_parent :: "link option"
  tm_origin :: ustring
  tm_drive :: ustring
  tm_facts :: "ustring \<rightharpoonup> ustring"
  tm_created_ms :: nat

datatype phase = Idle | AtWork | Waiting | NeedsYou | PhaseDone | PhaseFailed | Stopped

record wait =
  wt_kind :: ustring
  wt_text :: ustring

datatype agent_liveness = AgentLive | Exited bool

record status =
  st_phase :: phase
  st_wait :: "wait option"
  st_liveness :: agent_liveness
  st_since_ms :: nat

definition status_default :: status where
  "status_default = \<lparr>st_phase = Idle, st_wait = None, st_liveness = AgentLive, st_since_ms = 0\<rparr>"

datatype turn_state = Active | Complete | Interrupted | TurnFailed ustring

record changed =
  ch_added :: nat
  ch_removed :: nat

record agent_turn =
  tn_id :: nat
  tn_input :: "ustring option"
  tn_state :: turn_state
  tn_started_ms :: nat
  tn_ended_ms :: "nat option"
  tn_usage :: "ustring \<rightharpoonup> nat"
  tn_models :: "ustring list"
  tn_changed :: changed
  tn_mode :: "ustring option"
  tn_context :: "nat option"

definition BEFORE :: nat where "BEFORE = 0"

record image =
  im_digest :: ustring
  im_media_type :: ustring
  im_bytes :: nat
  im_width :: nat
  im_height :: nat
  im_at :: ustring

record user_message =
  um_text :: clipped
  um_images :: "image list"
  um_command :: "ustring option"

record compaction =
  cp_trigger :: "ustring option"
  cp_before_tokens :: "nat option"
  cp_after_tokens :: "nat option"
  cp_summary :: "clipped option"

record retry =
  rt_attempt :: nat
  rt_max :: "nat option"
  rt_in_ms :: "nat option"

record notice =
  nt_kind :: ustring
  nt_text :: clipped
  nt_retry :: "retry option"

datatype tool_state = Streaming | Pending ustring | Running | ToolCompleted | ToolFailed | Rejected | Cancelled

definition is_final :: "tool_state \<Rightarrow> bool" where
  "is_final s \<longleftrightarrow> s = ToolCompleted \<or> s = ToolFailed \<or> s = Rejected \<or> s = Cancelled"

definition may_become :: "tool_state \<Rightarrow> tool_state \<Rightarrow> bool" where
  "may_become current next =
    (if is_final current then False else if current = Streaming then True else if next = Streaming then False else True)"

record tool_call =
  tc_name :: ustring
  tc_kind :: ustring
  tc_title :: ustring
  tc_input :: clipped
  tc_state :: tool_state
  tc_output :: "clipped option"
  tc_images :: "image list"
  tc_detail :: "tool_detail option"
  tc_child :: "nat option"
  tc_ended_ms :: "nat option"
  tc_seen :: "clipped option"
  tc_raw :: "ustring list"

record task_usage =
  tu_tokens :: nat
  tu_tool_uses :: nat
  tu_duration_ms :: nat

record task_note =
  tk_task :: ustring
  tk_kind :: ustring
  tk_status :: ustring
  tk_title :: ustring
  tk_summary :: ustring
  tk_body :: "clipped option"
  tk_call :: "ustring option"
  tk_usage :: "task_usage option"
  tk_exit_code :: "int option"
  tk_links :: "resource_link list"

datatype item_body = User user_message | Text clipped | Reasoning clipped | Tool tool_call | Compacted compaction
  | Notice notice | Review bool | Task task_note | Extra ustring clipped

record item =
  it_id :: ustring
  it_turn :: nat
  it_at_ms :: nat
  it_body :: item_body

record plan_step =
  ps_id :: "ustring option"
  ps_text :: ustring
  ps_status :: ustring

record plan =
  pl_text :: "clipped option"
  pl_steps :: "plan_step list"

record background_task =
  bt_id :: ustring
  bt_kind :: ustring
  bt_title :: ustring
  bt_state :: ustring
  bt_item :: "ustring option"
  bt_output :: "clipped option"
  bt_started_ms :: nat
  bt_ended_ms :: "nat option"
  bt_agent_type :: "ustring option"
  bt_step :: "ustring option"
  bt_usage :: "task_usage option"
  bt_parent :: "ustring option"
  bt_child :: "nat option"
  bt_ambient :: bool
  bt_awaited :: bool
  bt_backgrounded :: bool
  bt_outcome :: "ustring option"
  bt_timeout_ms :: "nat option"
  bt_persistent :: bool

record agent_screen =
  as_target :: capture_target
  as_kind :: ustring
  as_label :: ustring
  as_used_ms :: nat

record draft_image =
  di_n :: nat
  di_image :: image

record draft =
  dr_text :: ustring
  dr_images :: "draft_image list"
  dr_at_ms :: nat

record call_note =
  cn_elapsed_ms :: "nat option"
  cn_ran_ms :: "nat option"
  cn_at_ms :: nat
  cn_task :: "ustring option"
  cn_retry :: "retry option"
  cn_said :: "ustring option"
  cn_title :: "ustring option"

text \<open>\<open>Option::or\<close>.\<close>

definition or_else :: "'a option \<Rightarrow> 'a option \<Rightarrow> 'a option" where
  "or_else x y = (case x of None \<Rightarrow> y | Some _ \<Rightarrow> x)"

definition note_over :: "call_note \<Rightarrow> call_note \<Rightarrow> call_note" where
  "note_over n had = n\<lparr>cn_ran_ms := or_else (cn_ran_ms n) (cn_ran_ms had), cn_task := or_else (cn_task n) (cn_task had),
     cn_said := or_else (cn_said n) (cn_said had), cn_title := or_else (cn_title n) (cn_title had)\<rparr>"

datatype part_key = PartBody | PartInput | PartOutput

datatype thread_action =
    Meta thread_meta
  | SetStatus status
  | TurnStarted agent_turn
  | TurnEnded nat turn_state "ustring \<rightharpoonup> nat" nat
  | ItemStarted item
  | Append ustring part_key ustring
  | ItemUpdated item
  | ItemCompleted item
  | ItemRemoved ustring
  | QueuedSet "ustring list"
  | PlanSet "plan option"
  | TasksSet "background_task list"
  | Truncated "nat option"
  | ScreensSet "agent_screen list"
  | Seen nat
  | DraftSet "draft option"
  | NameSet ustring
  | CallNoted ustring call_note
  | Lease nat

record log_cursor =
  lc_epoch :: nat
  lc_seq :: nat

section \<open>The thread's state\<close>

record thread_state =
  ts_meta :: thread_meta
  ts_status :: status
  ts_turns :: "agent_turn list"
  ts_items :: "item list"
  ts_older :: bool
  ts_plan :: "plan option"
  ts_tasks :: "background_task list"
  ts_screens :: "agent_screen list"
  ts_seen :: nat
  ts_draft :: "draft option"
  ts_queued :: "ustring list"
  ts_named :: ustring
  ts_lease_ms :: "nat option"
  ts_calls :: "ustring \<rightharpoonup> call_note"

definition thread_new :: "thread_meta \<Rightarrow> thread_state" where
  "thread_new meta = \<lparr>ts_meta = meta, ts_status = status_default, ts_turns = [], ts_items = [], ts_older = False, ts_plan = None,
     ts_tasks = [], ts_screens = [], ts_seen = BEFORE, ts_draft = None, ts_queued = [], ts_named = [], ts_lease_ms = None,
     ts_calls = Map.empty\<rparr>"

text \<open>
  \<open>binary_search_by_key\<close> on turns in the order of their ids: the index of the turn, or where it goes. The first turn that is
  not before the one sought is both.
\<close>

definition turn_search :: "nat \<Rightarrow> agent_turn list \<Rightarrow> nat + nat" where
  "turn_search n ts =
    (let at = length (takeWhile (\<lambda>t. tn_id t < n) ts)
     in if at < length ts \<and> tn_id (ts ! at) = n then Inr at else Inl at)"

definition thread_turn :: "thread_state \<Rightarrow> nat \<Rightarrow> agent_turn option" where
  "thread_turn s n = (case turn_search n (ts_turns s) of Inr at \<Rightarrow> Some (ts_turns s ! at) | Inl _ \<Rightarrow> None)"

definition put_turn :: "agent_turn \<Rightarrow> thread_state \<Rightarrow> thread_state" where
  "put_turn t s =
    (case turn_search (tn_id t) (ts_turns s) of
       Inr at \<Rightarrow> s\<lparr>ts_turns := (ts_turns s)[at := t]\<rparr>
     | Inl at \<Rightarrow> s\<lparr>ts_turns := take at (ts_turns s) @ t # drop at (ts_turns s)\<rparr>)"

definition item_index :: "thread_state \<Rightarrow> ustring \<Rightarrow> nat option" where
  "item_index s k = rposition (\<lambda>i. it_id i = k) (ts_items s)"

definition thread_item :: "thread_state \<Rightarrow> ustring \<Rightarrow> item option" where
  "thread_item s k = map_option ((!) (ts_items s)) (item_index s k)"

definition put_item :: "item \<Rightarrow> thread_state \<Rightarrow> thread_state" where
  "put_item i s =
    (case item_index s (it_id i) of
       Some at \<Rightarrow> s\<lparr>ts_items := (ts_items s)[at := i]\<rparr>
     | None \<Rightarrow> s\<lparr>ts_items := ts_items s @ [i]\<rparr>)"

definition hold_final :: "item \<Rightarrow> item \<Rightarrow> item" where
  "hold_final old new =
    (case (it_body old, it_body new) of
       (Tool was, Tool now) \<Rightarrow>
         if tc_state was \<noteq> tc_state now \<and> \<not> may_become (tc_state was) (tc_state now)
         then new\<lparr>it_body := Tool (now\<lparr>tc_state := tc_state was\<rparr>)\<rparr>
         else new
     | _ \<Rightarrow> new)"

text \<open>\<open>Clipped::default\<close>, which \<open>get_or_insert_default\<close> puts where a call has no output yet.\<close>

definition clipped_default :: clipped where
  "clipped_default = \<lparr>cl_text = [], cl_lines = 0, cl_chars = 0, cl_full = None\<rparr>"

fun append_part :: "item_body \<Rightarrow> part_key \<Rightarrow> ustring \<Rightarrow> item_body" where
  "append_part (Text c) PartBody tx = Text (clipped_append c tx)"
| "append_part (Reasoning c) PartBody tx = Reasoning (clipped_append c tx)"
| "append_part (User m) PartBody tx = User (m\<lparr>um_text := clipped_append (um_text m) tx\<rparr>)"
| "append_part (Notice n) PartBody tx = Notice (n\<lparr>nt_text := clipped_append (nt_text n) tx\<rparr>)"
| "append_part (Tool call) PartInput tx = Tool (call\<lparr>tc_input := clipped_append (tc_input call) tx\<rparr>)"
| "append_part (Tool call) PartOutput tx =
     Tool (call\<lparr>tc_output := Some (clipped_append (case tc_output call of Some c \<Rightarrow> c | None \<Rightarrow> clipped_default) tx)\<rparr>)"
| "append_part body _ _ = body"

definition keep_calls :: "thread_state \<Rightarrow> thread_state" where
  "keep_calls s = s\<lparr>ts_calls := ts_calls s |` (it_id ` set (ts_items s))\<rparr>"

fun apply_action :: "thread_action \<Rightarrow> thread_state \<Rightarrow> thread_state" where
  "apply_action (Meta meta) s = s\<lparr>ts_meta := meta\<rparr>"
| "apply_action (SetStatus status) s = s\<lparr>ts_status := status\<rparr>"
| "apply_action (TurnStarted t) s = put_turn t s"
| "apply_action (TurnEnded n state usage ended) s =
    (case turn_search n (ts_turns s) of
       Inr at \<Rightarrow> s\<lparr>ts_turns := (ts_turns s)[at := (ts_turns s ! at)\<lparr>tn_state := state, tn_usage := usage, tn_ended_ms := Some ended\<rparr>]\<rparr>
     | Inl _ \<Rightarrow> s)"
| "apply_action (ItemStarted i) s = put_item i s"
| "apply_action (ItemCompleted i) s = put_item i s"
| "apply_action (ItemUpdated i) s =
    put_item (case thread_item s (it_id i) of Some old \<Rightarrow> hold_final old i | None \<Rightarrow> i) s"
| "apply_action (Append k part tx) s =
    (case item_index s k of
       Some at \<Rightarrow> s\<lparr>ts_items := (ts_items s)[at := (ts_items s ! at)\<lparr>it_body := append_part (it_body (ts_items s ! at)) part tx\<rparr>]\<rparr>
     | None \<Rightarrow> s)"
| "apply_action (ItemRemoved k) s =
    (let s = (case item_index s k of
                Some at \<Rightarrow> s\<lparr>ts_items := take at (ts_items s) @ drop (Suc at) (ts_items s)\<rparr>
              | None \<Rightarrow> s)
     in s\<lparr>ts_calls := (ts_calls s)(k := None)\<rparr>)"
| "apply_action (QueuedSet queued) s = s\<lparr>ts_queued := queued\<rparr>"
| "apply_action (PlanSet plan) s = s\<lparr>ts_plan := plan\<rparr>"
| "apply_action (TasksSet tasks) s = s\<lparr>ts_tasks := tasks\<rparr>"
| "apply_action (Truncated after) s =
    (let kept = (\<lambda>n. case after of Some l \<Rightarrow> n \<le> l | None \<Rightarrow> False)
     in keep_calls (s\<lparr>ts_turns := filter (\<lambda>t. kept (tn_id t)) (ts_turns s), ts_items := filter (\<lambda>i. kept (it_turn i)) (ts_items s)\<rparr>))"
| "apply_action (ScreensSet screens) s = s\<lparr>ts_screens := screens\<rparr>"
| "apply_action (Seen n) s = s\<lparr>ts_seen := max (ts_seen s) n\<rparr>"
| "apply_action (DraftSet draft) s = s\<lparr>ts_draft := draft\<rparr>"
| "apply_action (NameSet name) s = s\<lparr>ts_named := name\<rparr>"
| "apply_action (Lease at) s = s\<lparr>ts_lease_ms := Some (case ts_lease_ms s of None \<Rightarrow> at | Some had \<Rightarrow> max had at)\<rparr>"
| "apply_action (CallNoted k note) s =
    (if item_index s k \<noteq> None
     then s\<lparr>ts_calls := (ts_calls s)(k \<mapsto> (case ts_calls s k of Some had \<Rightarrow> note_over note had | None \<Rightarrow> note))\<rparr>
     else s)"

section \<open>Pages and windows\<close>

record page =
  pg_turns :: "agent_turn list"
  pg_items :: "item list"
  pg_older :: bool
  pg_calls :: "ustring \<rightharpoonup> call_note"

definition prepend :: "page \<Rightarrow> thread_state \<Rightarrow> thread_state" where
  "prepend p s =
    (let older = (\<lambda>n. case ts_turns s of t # _ \<Rightarrow> n < tn_id t | [] \<Rightarrow> True);
         turns = filter (\<lambda>t. older (tn_id t)) (pg_turns p);
         items = filter (\<lambda>i. older (it_turn i) \<and> item_index s (it_id i) = None) (pg_items p)
     in s\<lparr>ts_turns := turns @ ts_turns s, ts_items := items @ ts_items s, ts_calls := pg_calls p ++ ts_calls s, ts_older := pg_older p\<rparr>)"

definition window :: "nat \<Rightarrow> thread_state \<Rightarrow> thread_state" where
  "window turns s =
    (let skip = length (ts_turns s) - turns
     in if skip = 0 then s
        else let from = (if skip < length (ts_turns s) then tn_id (ts_turns s ! skip) else umax 32)
             in (keep_calls (s\<lparr>ts_turns := drop skip (ts_turns s), ts_items := filter (\<lambda>i. from \<le> it_turn i) (ts_items s)\<rparr>))\<lparr>ts_older := True\<rparr>)"

definition page_before :: "nat \<Rightarrow> nat \<Rightarrow> thread_state \<Rightarrow> page" where
  "page_before before turns s =
    (let earlier = filter (\<lambda>t. tn_id t < before) (ts_turns s);
         skip = length earlier - turns;
         taken = drop skip earlier;
         from = (if skip = 0 \<and> \<not> ts_older s then BEFORE else case taken of t # _ \<Rightarrow> tn_id t | [] \<Rightarrow> before);
         items = filter (\<lambda>i. from \<le> it_turn i \<and> it_turn i < before) (ts_items s)
     in \<lparr>pg_turns = taken, pg_items = items, pg_older = (0 < skip \<or> ts_older s),
         pg_calls = ts_calls s |` (it_id ` set items)\<rparr>)"

section \<open>A thread's row\<close>

record turn_ended =
  te_turn :: nat
  te_at_ms :: nat
  te_ran_ms :: nat
  te_answered :: bool

record repo_id =
  ri_origin :: "ustring option"
  ri_root :: "ustring option"
  ri_url :: "ustring option"

record thread_row =
  rw_id :: nat
  rw_agent :: ustring
  rw_native :: ustring
  rw_title :: ustring
  rw_status :: status
  rw_last_line :: "ustring option"
  rw_doing :: "ustring option"
  rw_changed :: changed
  rw_cwd :: "ustring option"
  rw_repo :: "ustring option"
  rw_repo_id :: "repo_id option"
  rw_parent :: "link option"
  rw_drive :: ustring
  rw_facts :: "ustring \<rightharpoonup> ustring"
  rw_ended :: "turn_ended option"
  rw_began_ms :: "nat option"
  rw_seen :: nat
  rw_lease_ms :: "nat option"
  rw_created_ms :: nat
  rw_updated_ms :: nat

definition last_turn :: "thread_state \<Rightarrow> agent_turn option" where
  "last_turn s = (if ts_turns s = [] then None else Some (last (ts_turns s)))"

definition thread_ended :: "thread_state \<Rightarrow> turn_ended option" where
  "thread_ended s =
    (case last_turn s of
       None \<Rightarrow> None
     | Some l \<Rightarrow> (case tn_ended_ms l of
         None \<Rightarrow> None
       | Some at \<Rightarrow> Some \<lparr>te_turn = tn_id l, te_at_ms = at, te_ran_ms = at - tn_started_ms l, te_answered = (tn_state l = Complete)\<rparr>))"

definition find_some :: "('a \<Rightarrow> 'b option) \<Rightarrow> 'a list \<Rightarrow> 'b option" where
  "find_some f xs = (case find (\<lambda>x. f x \<noteq> None) xs of None \<Rightarrow> None | Some x \<Rightarrow> f x)"

definition LAST_LINE_CHARS :: nat where "LAST_LINE_CHARS = 160"

text \<open>\<open>str::trim\<close>.\<close>

definition trim_ws :: "ustring \<Rightarrow> ustring" where
  "trim_ws s = rev (dropWhile is_whitespace (rev (dropWhile is_whitespace s)))"

definition thread_doing :: "thread_state \<Rightarrow> ustring option" where
  "thread_doing s = find_some (\<lambda>i. case it_body i of
      Tool call \<Rightarrow> (case tc_state call of Running \<Rightarrow> Some (tc_title call) | Pending _ \<Rightarrow> Some (tc_title call) | _ \<Rightarrow> None)
    | _ \<Rightarrow> None) (rev (ts_items s))"

definition last_line :: "thread_state \<Rightarrow> ustring option" where
  "last_line s = find_some (\<lambda>i. case it_body i of
      Text c \<Rightarrow> map_option (take LAST_LINE_CHARS) (find (\<lambda>l. l \<noteq> []) (map trim_ws (rev (str_lines (cl_text c)))))
    | _ \<Rightarrow> None) (rev (ts_items s))"

definition thread_row_of :: "thread_state \<Rightarrow> nat \<Rightarrow> thread_row" where
  "thread_row_of s updated_ms =
    \<lparr>rw_id = tm_id (ts_meta s), rw_agent = tm_agent (ts_meta s), rw_native = tm_native (ts_meta s),
     rw_title = (if ts_named s = [] then tm_title (ts_meta s) else ts_named s), rw_status = ts_status s,
     rw_last_line = last_line s, rw_doing = thread_doing s,
     rw_changed = fold (\<lambda>t sum. \<lparr>ch_added = sat_add 32 (ch_added sum) (ch_added (tn_changed t)),
                                 ch_removed = sat_add 32 (ch_removed sum) (ch_removed (tn_changed t))\<rparr>)
                    (ts_turns s) \<lparr>ch_added = 0, ch_removed = 0\<rparr>,
     rw_cwd = (if tm_cwd (ts_meta s) = [] then None else Some (tm_cwd (ts_meta s))), rw_repo = None, rw_repo_id = None,
     rw_parent = tm_parent (ts_meta s), rw_drive = tm_drive (ts_meta s), rw_facts = tm_facts (ts_meta s), rw_ended = thread_ended s,
     rw_began_ms = (case last_turn s of Some t \<Rightarrow> if tn_state t = Active then Some (tn_started_ms t) else None | None \<Rightarrow> None),
     rw_seen = ts_seen s, rw_lease_ms = ts_lease_ms s, rw_created_ms = tm_created_ms (ts_meta s), rw_updated_ms = updated_ms\<rparr>"

text \<open>A worker's table of threads as a client mirrors it: a delta's removals go before its rows.\<close>

record table_state =
  tb_cursor :: log_cursor
  tb_rows :: "nat \<rightharpoonup> thread_row"

datatype table_frame = TableSnapshot log_cursor "thread_row list" | TableDelta log_cursor "thread_row list" "nat list"

definition put_rows :: "thread_row list \<Rightarrow> (nat \<rightharpoonup> thread_row) \<Rightarrow> (nat \<rightharpoonup> thread_row)" where
  "put_rows rows m = fold (\<lambda>r m. m(rw_id r \<mapsto> r)) rows m"

fun table_apply :: "table_frame \<Rightarrow> table_state \<Rightarrow> table_state" where
  "table_apply (TableSnapshot cursor rows) t = t\<lparr>tb_cursor := cursor, tb_rows := put_rows rows Map.empty\<rparr>"
| "table_apply (TableDelta cursor rows removed) t =
    t\<lparr>tb_cursor := cursor, tb_rows := put_rows rows (fold (\<lambda>k m. m(k := None)) removed (tb_rows t))\<rparr>"

end
