(* ===== verification/Thread_Views.thy ===== *)
theory Thread_Views
  imports Threads
begin

text \<open>
  What holds of threads however they are acted on: turns stay in order and items stand once, and a client that holds the last turns of a
  thread only stays a view of the worker's thread, until pages bring the rest.
\<close>

section \<open>Turns in order, items once\<close>

definition thread_ok :: "thread_state \<Rightarrow> bool" where
  "thread_ok s \<longleftrightarrow> sorted_wrt (<) (map tn_id (ts_turns s)) \<and> distinct (map it_id (ts_items s)) \<and>
     dom (ts_calls s) \<subseteq> it_id ` set (ts_items s)"

lemma thread_okD:
  assumes "thread_ok s"
  shows "sorted_wrt (<) (map tn_id (ts_turns s))" "distinct (map it_id (ts_items s))" "dom (ts_calls s) \<subseteq> it_id ` set (ts_items s)"
  using assms by (simp_all add: thread_ok_def)

text \<open>Where ids are distinct, the element at an id's index is the one with that id, and to update there is to update by id.\<close>

lemma index_Some:
  assumes "rposition (\<lambda>x. key x = k) xs = Some at"
  shows "at < length xs" "key (xs ! at) = k"
  using assms by (simp_all add: rposition_Some)

lemma update_by_key:
  assumes "distinct (map key xs)" and "at < length xs"
  shows "xs[at := v] = map (\<lambda>x. if key x = key (xs ! at) then v else x) xs"
  using assms by (auto simp: list_eq_iff_nth_eq nth_list_update distinct_conv_nth)

lemma remove_by_key:
  assumes "distinct (map key xs)" and "at < length xs"
  shows "take at xs @ drop (Suc at) xs = filter (\<lambda>x. key x \<noteq> key (xs ! at)) xs"
proof -
  define pre post x where "pre = take at xs" and "post = drop (Suc at) xs" and "x = xs ! at"
  have xs: "xs = pre @ x # post" using assms(2) by (simp add: pre_def post_def x_def id_take_nth_drop)
  have "key x \<notin> key ` set pre" "key x \<notin> key ` set post" using assms(1) unfolding xs by auto
  then have "filter (\<lambda>y. key y \<noteq> key x) pre = pre" "filter (\<lambda>y. key y \<noteq> key x) post = post" by (intro filter_True ballI; metis image_eqI)+
  then have "filter (\<lambda>y. key y \<noteq> key x) xs = pre @ post" unfolding xs by simp
  then show ?thesis by (simp add: pre_def post_def x_def)
qed

lemma key_nth:
  assumes "distinct (map key xs)" and "at < length xs" and "x \<in> set xs" and "key x = key (xs ! at)"
  shows "x = xs ! at"
  using assms by (metis distinct_map inj_onD nth_mem)

lemma update_at_key:
  assumes "distinct (map key xs)" and "at < length xs"
  shows "xs[at := f (xs ! at)] = map (\<lambda>x. if key x = key (xs ! at) then f x else x) xs"
  unfolding update_by_key [OF assms] by (rule map_cong [OF refl]) (use key_nth [OF assms] in auto)

lemma index_None: "rposition (\<lambda>x. key x = k) xs = None \<longleftrightarrow> k \<notin> key ` set xs"
  by (auto simp: rposition_None)

section \<open>The reducer, by ids\<close>

definition set_item :: "item \<Rightarrow> item list \<Rightarrow> item list" where
  "set_item i xs = (if it_id i \<in> it_id ` set xs then map (\<lambda>x. if it_id x = it_id i then i else x) xs else xs @ [i])"

lemma put_item_eq:
  assumes "distinct (map it_id (ts_items s))"
  shows "put_item i s = s\<lparr>ts_items := set_item i (ts_items s)\<rparr>"
proof (cases "item_index s (it_id i)")
  case None
  moreover from None have "it_id i \<notin> it_id ` set (ts_items s)" by (simp add: item_index_def index_None)
  ultimately show ?thesis by (simp add: put_item_def set_item_def)
next
  case (Some at)
  note at = index_Some [OF Some [unfolded item_index_def]]
  then have "it_id i \<in> it_id ` set (ts_items s)" by (metis image_eqI nth_mem)
  then show ?thesis using Some update_by_key [OF assms at(1), of i] at(2) by (simp add: put_item_def set_item_def)
qed

lemma thread_item_eq:
  assumes "distinct (map it_id (ts_items s))"
  shows "thread_item s k = find (\<lambda>x. it_id x = k) (ts_items s)"
proof (cases "item_index s k")
  case None
  moreover from None have "find (\<lambda>x. it_id x = k) (ts_items s) = None" by (auto simp: item_index_def index_None find_None_iff)
  ultimately show ?thesis by (simp add: thread_item_def)
next
  case (Some at)
  note at = index_Some [OF Some [unfolded item_index_def]]
  then obtain x where x: "find (\<lambda>x. it_id x = k) (ts_items s) = Some x" by (metis (mono_tags, lifting) find_None_iff not_None_eq nth_mem)
  then have "x \<in> set (ts_items s)" "it_id x = k" by (auto simp: find_Some_iff)
  then show ?thesis using key_nth [OF assms at(1), of x] at(2) Some x by (simp add: thread_item_def)
qed

definition updated_item :: "item list \<Rightarrow> item \<Rightarrow> item" where
  "updated_item xs i = (case find (\<lambda>x. it_id x = it_id i) xs of Some old \<Rightarrow> hold_final old i | None \<Rightarrow> i)"

lemma hold_final_simps [simp]: "it_id (hold_final old i) = it_id i" "it_turn (hold_final old i) = it_turn i"
  by (auto simp: hold_final_def split: item_body.splits)

lemma updated_item_simps [simp]: "it_id (updated_item xs i) = it_id i" "it_turn (updated_item xs i) = it_turn i"
  by (auto simp: updated_item_def split: option.splits)

definition grow_item :: "ustring \<Rightarrow> part_key \<Rightarrow> ustring \<Rightarrow> item \<Rightarrow> item" where
  "grow_item k part tx x = (if it_id x = k then x\<lparr>it_body := append_part (it_body x) part tx\<rparr> else x)"

lemma grow_item_simps [simp]: "it_id (grow_item k part tx x) = it_id x" "it_turn (grow_item k part tx x) = it_turn x"
  by (simp_all add: grow_item_def)

lemma grow_none: "k \<notin> it_id ` set xs \<Longrightarrow> map (grow_item k part tx) xs = xs"
  by (rule map_idI) (auto simp: grow_item_def)

definition set_turn :: "agent_turn \<Rightarrow> agent_turn list \<Rightarrow> agent_turn list" where
  "set_turn t ts = filter (\<lambda>x. tn_id x < tn_id t) ts @ t # filter (\<lambda>x. tn_id t < tn_id x) ts"

lemma search_split:
  assumes "sorted_wrt (<) (map tn_id ts)"
  shows "take (length (takeWhile (\<lambda>x. tn_id x < n) ts)) ts = filter (\<lambda>x. tn_id x < n) ts"
    "drop (length (takeWhile (\<lambda>x. tn_id x < n) ts)) ts = filter (\<lambda>x. n \<le> tn_id x) ts"
  using assms by (induction ts) (fastforce intro!: filter_False [symmetric] filter_True [symmetric])+

lemma search_found:
  assumes "sorted_wrt (<) (map tn_id ts)" and "turn_search n ts = Inr at"
  shows "at < length ts" "tn_id (ts ! at) = n"
  using assms(2) by (auto simp: turn_search_def Let_def split: if_splits)

lemma sorted_distinct_ids: "sorted_wrt (<) (map tn_id ts) \<Longrightarrow> distinct (map tn_id ts)"
  using strict_sorted_iff by blast

lemma search_None:
  assumes "sorted_wrt (<) (map tn_id ts)" and "turn_search n ts = Inl at"
  shows "n \<notin> tn_id ` set ts" "at = length (takeWhile (\<lambda>x. tn_id x < n) ts)"
proof -
  show at: "at = length (takeWhile (\<lambda>x. tn_id x < n) ts)" using assms(2) by (auto simp: turn_search_def Let_def split: if_splits)
  show "n \<notin> tn_id ` set ts"
  proof
    assume "n \<in> tn_id ` set ts"
    then obtain t where t: "t \<in> set ts" "tn_id t = n" by auto
    then have "t \<in> set (drop at ts)" unfolding at search_split(2) [OF assms(1)] by simp
    then have less: "at < length ts" by (metis drop_all empty_iff empty_set not_le)
    then have d: "drop at ts = ts ! at # drop (Suc at) ts" by (simp add: Cons_nth_drop_Suc)
    then have "n \<le> tn_id (ts ! at)" using search_split(2) [OF assms(1), of n] unfolding at [symmetric]
      by (metis (mono_tags, lifting) filter_eq_Cons_iff)
    moreover have "tn_id (ts ! at) \<le> n"
    proof (cases "t = ts ! at")
      case False
      then have "t \<in> set (drop (Suc at) ts)" using \<open>t \<in> set (drop at ts)\<close> d by simp
      moreover have "sorted_wrt (<) (map tn_id (drop at ts))" using assms(1) by (simp add: sorted_wrt_drop drop_map [symmetric])
      ultimately show ?thesis using t(2) unfolding d by auto
    qed (use t in simp)
    ultimately show False using assms(2) less by (auto simp: turn_search_def Let_def at split: if_splits)
  qed
qed

lemma put_turn_eq:
  assumes "sorted_wrt (<) (map tn_id (ts_turns s))"
  shows "put_turn t s = s\<lparr>ts_turns := set_turn t (ts_turns s)\<rparr>"
proof (cases "turn_search (tn_id t) (ts_turns s)")
  case (Inl at)
  note n = search_None [OF assms Inl]
  have "filter (\<lambda>x. tn_id t \<le> tn_id x) (ts_turns s) = filter (\<lambda>x. tn_id t < tn_id x) (ts_turns s)"
    using n(1) by (intro filter_cong) (auto simp: order_le_less)
  then show ?thesis using Inl search_split [OF assms, of "tn_id t"] by (simp add: put_turn_def set_turn_def flip: n(2))
next
  case (Inr at)
  have at: "at = length (takeWhile (\<lambda>x. tn_id x < tn_id t) (ts_turns s))" "at < length (ts_turns s)" "tn_id (ts_turns s ! at) = tn_id t"
    using Inr by (auto simp: turn_search_def Let_def split: if_splits)
  have d: "ts_turns s ! at # drop (Suc at) (ts_turns s) = filter (\<lambda>x. tn_id t \<le> tn_id x) (ts_turns s)"
    using search_split(2) [OF assms, of "tn_id t"] at(2) by (simp add: Cons_nth_drop_Suc flip: at(1))
  have "sorted_wrt (<) (map tn_id (ts_turns s ! at # drop (Suc at) (ts_turns s)))"
    using assms at(2) by (simp add: Cons_nth_drop_Suc sorted_wrt_drop drop_map [symmetric])
  then have "filter (\<lambda>x. tn_id t < tn_id x) (ts_turns s ! at # drop (Suc at) (ts_turns s)) = drop (Suc at) (ts_turns s)"
    using at(3) by (auto simp: filter_id_conv)
  then have "drop (Suc at) (ts_turns s) = filter (\<lambda>x. tn_id t < tn_id x) (ts_turns s)"
    unfolding d filter_filter by (simp add: order_le_less cong: conj_cong) (metis (mono_tags, lifting) filter_cong)
  then show ?thesis using Inr at(1) search_split(1) [OF assms, of "tn_id t"] at(2)
    by (simp add: put_turn_def set_turn_def upd_conv_take_nth_drop)
qed

lemma reduced:
  assumes "thread_ok s"
  shows "apply_action (TurnStarted t) s = s\<lparr>ts_turns := set_turn t (ts_turns s)\<rparr>"
    "apply_action (TurnEnded n state usage ended) s =
       s\<lparr>ts_turns := map (\<lambda>t. if tn_id t = n then t\<lparr>tn_state := state, tn_usage := usage, tn_ended_ms := Some ended\<rparr> else t) (ts_turns s)\<rparr>"
    "apply_action (ItemStarted i) s = s\<lparr>ts_items := set_item i (ts_items s)\<rparr>"
    "apply_action (ItemCompleted i) s = s\<lparr>ts_items := set_item i (ts_items s)\<rparr>"
    "apply_action (ItemUpdated i) s = s\<lparr>ts_items := set_item (updated_item (ts_items s) i) (ts_items s)\<rparr>"
    "apply_action (Append k part tx) s = s\<lparr>ts_items := map (grow_item k part tx) (ts_items s)\<rparr>"
    "apply_action (ItemRemoved k) s = s\<lparr>ts_items := filter (\<lambda>x. it_id x \<noteq> k) (ts_items s), ts_calls := (ts_calls s)(k := None)\<rparr>"
    "apply_action (CallNoted k note) s =
       (if k \<in> it_id ` set (ts_items s)
        then s\<lparr>ts_calls := (ts_calls s)(k \<mapsto> (case ts_calls s k of Some had \<Rightarrow> note_over note had | None \<Rightarrow> note))\<rparr> else s)"
proof -
  note ok = thread_okD [OF assms]
  show "apply_action (TurnStarted t) s = s\<lparr>ts_turns := set_turn t (ts_turns s)\<rparr>" by (simp add: put_turn_eq [OF ok(1)])
  show "apply_action (TurnEnded n state usage ended) s =
       s\<lparr>ts_turns := map (\<lambda>t. if tn_id t = n then t\<lparr>tn_state := state, tn_usage := usage, tn_ended_ms := Some ended\<rparr> else t) (ts_turns s)\<rparr>"
  proof (cases "turn_search n (ts_turns s)")
    case (Inl at)
    then have "map (\<lambda>t. if tn_id t = n then t\<lparr>tn_state := state, tn_usage := usage, tn_ended_ms := Some ended\<rparr> else t) (ts_turns s) = ts_turns s"
      using search_None(1) [OF ok(1)] by (intro map_idI) auto
    then show ?thesis using Inl by simp
  next
    case (Inr at)
    note at = search_found [OF ok(1) Inr]
    show ?thesis using Inr at(2)
        update_at_key [OF sorted_distinct_ids [OF ok(1)] at(1), of "\<lambda>t. t\<lparr>tn_state := state, tn_usage := usage, tn_ended_ms := Some ended\<rparr>"]
      by simp
  qed
  show "apply_action (ItemStarted i) s = s\<lparr>ts_items := set_item i (ts_items s)\<rparr>"
    "apply_action (ItemCompleted i) s = s\<lparr>ts_items := set_item i (ts_items s)\<rparr>"
    "apply_action (ItemUpdated i) s = s\<lparr>ts_items := set_item (updated_item (ts_items s) i) (ts_items s)\<rparr>"
    by (simp_all add: put_item_eq [OF ok(2)] thread_item_eq [OF ok(2)] updated_item_def)
  have found: "item_index s k = None \<longleftrightarrow> k \<notin> it_id ` set (ts_items s)" by (simp add: item_index_def index_None)
  show "apply_action (CallNoted k note) s =
       (if k \<in> it_id ` set (ts_items s)
        then s\<lparr>ts_calls := (ts_calls s)(k \<mapsto> (case ts_calls s k of Some had \<Rightarrow> note_over note had | None \<Rightarrow> note))\<rparr> else s)"
    using found by simp
  show "apply_action (Append k part tx) s = s\<lparr>ts_items := map (grow_item k part tx) (ts_items s)\<rparr>"
  proof (cases "item_index s k")
    case None
    then show ?thesis using grow_none [of k "ts_items s"] found by simp
  next
    case (Some at)
    note at = index_Some [OF Some [unfolded item_index_def]]
    show ?thesis using Some at(2) update_at_key [OF ok(2) at(1), of "\<lambda>x. x\<lparr>it_body := append_part (it_body x) part tx\<rparr>"]
      by (simp add: grow_item_def [abs_def])
  qed
  show "apply_action (ItemRemoved k) s = s\<lparr>ts_items := filter (\<lambda>x. it_id x \<noteq> k) (ts_items s), ts_calls := (ts_calls s)(k := None)\<rparr>"
  proof (cases "item_index s k")
    case None
    then have "filter (\<lambda>x. it_id x \<noteq> k) (ts_items s) = ts_items s" using found by (intro filter_True) auto
    then show ?thesis using None by simp
  next
    case (Some at)
    note at = index_Some [OF Some [unfolded item_index_def]]
    show ?thesis using Some at(2) remove_by_key [OF ok(2) at(1)] by simp
  qed
qed

lemma ids_set_item: "it_id ` set (set_item i xs) = insert (it_id i) (it_id ` set xs)"
proof (cases "it_id i \<in> it_id ` set xs")
  case True
  have "it_id ` set (map (\<lambda>x. if it_id x = it_id i then i else x) xs) = set (map it_id xs)"
    unfolding list.set_map [symmetric] by (simp add: comp_def cong: map_cong) (metis (mono_tags, lifting))
  then show ?thesis using True by (auto simp: set_item_def)
qed (simp add: set_item_def)

lemma distinct_set_item: "distinct (map it_id xs) \<Longrightarrow> distinct (map it_id (set_item i xs))"
proof -
  assume d: "distinct (map it_id xs)"
  have "map it_id (map (\<lambda>x. if it_id x = it_id i then i else x) xs) = map it_id xs" by simp
  then show ?thesis using d by (auto simp: set_item_def simp del: map_map)
qed

lemma ids_grow: "map it_id (map (grow_item k part tx) xs) = map it_id xs"
  by simp

lemma sorted_set_turn:
  assumes "sorted_wrt (<) (map tn_id ts)"
  shows "sorted_wrt (<) (map tn_id (set_turn t ts))"
  using assms by (force simp: set_turn_def sorted_wrt_map sorted_wrt_append intro: sorted_wrt_filter)

lemma sorted_ids_filter: "sorted_wrt (<) (map tn_id ts) \<Longrightarrow> sorted_wrt (<) (map tn_id (filter P ts))"
  by (simp add: sorted_wrt_map sorted_wrt_filter)

lemma apply_action_ok:
  assumes "thread_ok s"
  shows "thread_ok (apply_action a s)"
proof -
  note ok = thread_okD [OF assms]
  have turns: "map tn_id (map (\<lambda>t. if tn_id t = n then t\<lparr>tn_state := state, tn_usage := usage, tn_ended_ms := Some ended\<rparr> else t) ts) =
    map tn_id ts" for n state usage ended ts by simp
  show ?thesis
  proof (cases a)
    case (TurnEnded n state usage ended)
    then show ?thesis using ok unfolding TurnEnded reduced(2) [OF assms] thread_ok_def by (simp add: turns del: map_map)
  next
    case (Append k part tx)
    have "it_id ` set (map (grow_item k part tx) (ts_items s)) = it_id ` set (ts_items s)" by (metis ids_grow list.set_map)
    then show ?thesis using ok unfolding Append reduced(6) [OF assms] thread_ok_def by (simp add: ids_grow del: map_map set_map)
  qed (use ok reduced [OF assms] in \<open>auto simp: thread_ok_def ids_set_item distinct_set_item sorted_set_turn keep_calls_def Let_def
        sorted_ids_filter distinct_map_filter simp del: apply_action.simps(3,4,5,6,7,8,9,19)\<close>)
qed

section \<open>A client's view of a thread\<close>

text \<open>What a client holds: the turns and items from a turn on, and the notes on their calls.\<close>

definition view_from :: "nat \<Rightarrow> bool \<Rightarrow> thread_state \<Rightarrow> thread_state" where
  "view_from from older s =
    (let items = filter (\<lambda>i. from \<le> it_turn i) (ts_items s)
     in s\<lparr>ts_turns := filter (\<lambda>t. from \<le> tn_id t) (ts_turns s), ts_items := items,
          ts_calls := ts_calls s |` (it_id ` set items), ts_older := older\<rparr>)"

text \<open>An action on what is in the view, or one that leaves turns and items out of it as they are: it adds none that are older.\<close>

fun in_view :: "nat \<Rightarrow> thread_state \<Rightarrow> thread_action \<Rightarrow> bool" where
  "in_view from s (TurnStarted t) = (from \<le> tn_id t)"
| "in_view from s (ItemStarted i) = (from \<le> it_turn i \<and> list_all (\<lambda>j. it_id j = it_id i \<longrightarrow> from \<le> it_turn j) (ts_items s))"
| "in_view from s (ItemCompleted i) = (from \<le> it_turn i \<and> list_all (\<lambda>j. it_id j = it_id i \<longrightarrow> from \<le> it_turn j) (ts_items s))"
| "in_view from s (ItemUpdated i) = (from \<le> it_turn i \<and> list_all (\<lambda>j. it_id j = it_id i \<longrightarrow> from \<le> it_turn j) (ts_items s))"
| "in_view from s _ = True"

lemma view_ok: "thread_ok s \<Longrightarrow> thread_ok (view_from from older s)"
  by (auto simp: thread_ok_def view_from_def Let_def sorted_ids_filter distinct_map_filter)

lemma set_item_filter:
  assumes "P i" and "\<And>j. j \<in> set xs \<Longrightarrow> it_id j = it_id i \<Longrightarrow> P j"
  shows "filter P (set_item i xs) = set_item i (filter P xs)"
proof (cases "it_id i \<in> it_id ` set xs")
  case True
  then have "it_id i \<in> it_id ` set (filter P xs)" using assms(2) by auto
  moreover have "filter P (map (\<lambda>x. if it_id x = it_id i then i else x) xs) = map (\<lambda>x. if it_id x = it_id i then i else x) (filter P xs)"
    using assms by (induction xs) auto
  ultimately show ?thesis using True by (simp add: set_item_def)
next
  case False
  then have "it_id i \<notin> it_id ` set (filter P xs)" by auto
  then show ?thesis using False assms(1) by (simp add: set_item_def)
qed

lemma find_filter_key:
  assumes "\<And>j. j \<in> set xs \<Longrightarrow> it_id j = k \<Longrightarrow> P j"
  shows "find (\<lambda>x. it_id x = k) (filter P xs) = find (\<lambda>x. it_id x = k) xs"
  using assms by (induction xs) auto

lemma set_turn_filter: "from \<le> tn_id t \<Longrightarrow> filter (\<lambda>t. from \<le> tn_id t) (set_turn t ts) = set_turn t (filter (\<lambda>t. from \<le> tn_id t) ts)"
  by (simp add: set_turn_def conj_commute)

lemma filter_map_turns:
  "filter (\<lambda>t. from \<le> tn_id t) (map (\<lambda>t. if tn_id t = n then t\<lparr>tn_state := a, tn_usage := b, tn_ended_ms := c\<rparr> else t) ts) =
   map (\<lambda>t. if tn_id t = n then t\<lparr>tn_state := a, tn_usage := b, tn_ended_ms := c\<rparr> else t) (filter (\<lambda>t. from \<le> tn_id t) ts)"
  by (induction ts) auto

lemma filter_grow: "filter (\<lambda>i. from \<le> it_turn i) (map (grow_item k part tx) xs) = map (grow_item k part tx) (filter (\<lambda>i. from \<le> it_turn i) xs)"
  by (induction xs) auto

lemma view_sel [simp]:
  "ts_turns (view_from from older s) = filter (\<lambda>t. from \<le> tn_id t) (ts_turns s)"
  "ts_items (view_from from older s) = filter (\<lambda>i. from \<le> it_turn i) (ts_items s)"
  "ts_calls (view_from from older s) = ts_calls s |` (it_id ` set (filter (\<lambda>i. from \<le> it_turn i) (ts_items s)))"
  "ts_older (view_from from older s) = older"
  by (simp_all add: view_from_def Let_def)

lemma view_items:
  assumes "\<And>j. j \<in> set (ts_items s) \<Longrightarrow> it_id j = it_id i \<Longrightarrow> from \<le> it_turn j" and "from \<le> it_turn i" and "thread_ok s"
  shows "(view_from from older s)\<lparr>ts_items := set_item i (filter (\<lambda>i. from \<le> it_turn i) (ts_items s))\<rparr> =
    view_from from older (s\<lparr>ts_items := set_item i (ts_items s)\<rparr>)"
proof -
  have "filter (\<lambda>i. from \<le> it_turn i) (set_item i (ts_items s)) = set_item i (filter (\<lambda>i. from \<le> it_turn i) (ts_items s))"
    using assms(1,2) by (intro set_item_filter) auto
  moreover have "ts_calls s |` (it_id ` set (filter (\<lambda>i. from \<le> it_turn i) (ts_items s))) =
    ts_calls s |` insert (it_id i) (it_id ` set (filter (\<lambda>i. from \<le> it_turn i) (ts_items s)))"
  proof
    fix x
    have "x \<in> it_id ` set (filter (\<lambda>i. from \<le> it_turn i) (ts_items s))" if x: "x = it_id i" "ts_calls s x \<noteq> None"
    proof -
      from x(2) have "x \<in> dom (ts_calls s)" by auto
      then obtain j where "j \<in> set (ts_items s)" "it_id j = x" using thread_okD(3) [OF assms(3)] by blast
      then show ?thesis using assms(1) [of j] x(1) by (intro image_eqI [of _ _ j]) auto
    qed
    then show "(ts_calls s |` (it_id ` set (filter (\<lambda>i. from \<le> it_turn i) (ts_items s)))) x =
      (ts_calls s |` insert (it_id i) (it_id ` set (filter (\<lambda>i. from \<le> it_turn i) (ts_items s)))) x"
      by (cases "x = it_id i"; cases "ts_calls s x") (auto simp: restrict_map_def)
  qed
  ultimately show ?thesis by (simp add: view_from_def Let_def ids_set_item)
qed

lemma apply_view:
  assumes ok: "thread_ok s" and "in_view from s a"
  shows "apply_action a (view_from from older s) = view_from from older (apply_action a s)"
proof -
  note v = reduced [OF view_ok [OF ok, of "from" older]] and r = reduced [OF ok]
  have upd: "updated_item (filter (\<lambda>i. from \<le> it_turn i) (ts_items s)) i = updated_item (ts_items s) i"
    if "\<And>j. j \<in> set (ts_items s) \<Longrightarrow> it_id j = it_id i \<Longrightarrow> from \<le> it_turn j" for i
    using find_filter_key [of "ts_items s" "it_id i"] that by (simp add: updated_item_def)
  show ?thesis
  proof (cases a)
    case (ItemStarted i)
    then show ?thesis using assms(2) unfolding ItemStarted v r by (simp add: list_all_iff view_items [OF _ _ ok])
  next
    case (ItemCompleted i)
    then show ?thesis using assms(2) unfolding ItemCompleted v r by (simp add: list_all_iff view_items [OF _ _ ok])
  next
    case (ItemUpdated i)
    then show ?thesis using assms(2) unfolding ItemUpdated v r
      by (simp add: list_all_iff upd view_items [OF _ _ ok])
  next
    case (TurnStarted t)
    then show ?thesis using assms(2) unfolding TurnStarted v r by (simp add: view_from_def Let_def set_turn_filter)
  next
    case (TurnEnded n state usage ended)
    then show ?thesis unfolding TurnEnded v r by (simp add: view_from_def Let_def filter_map_turns)
  next
    case (Append k part tx)
    then show ?thesis unfolding Append v r by (simp add: view_from_def Let_def filter_grow image_image)
  next
    case (ItemRemoved k)
    have "(ts_calls s |` A)(k := None) = (ts_calls s)(k := None) |` (A - {k})" for A by (auto simp: restrict_map_def fun_eq_iff)
    moreover have "it_id ` set (filter (\<lambda>x. it_id x \<noteq> k) (filter (\<lambda>i. from \<le> it_turn i) (ts_items s))) =
      it_id ` set (filter (\<lambda>i. from \<le> it_turn i) (ts_items s)) - {k}" by auto
    ultimately show ?thesis unfolding ItemRemoved v r by (simp add: view_from_def Let_def conj_commute del: set_filter)
  next
    case (CallNoted k nt)
    define A where "A = it_id ` set (filter (\<lambda>i. from \<le> it_turn i) (ts_items s))"
    have sub: "A \<subseteq> it_id ` set (ts_items s)" by (auto simp: A_def)
    have kept: "(ts_calls s |` A)(k \<mapsto> v) = (ts_calls s)(k \<mapsto> v) |` A" if "k \<in> A" for v using that by (auto simp: restrict_map_def fun_eq_iff)
    have left: "(ts_calls s)(k \<mapsto> v) |` A = ts_calls s |` A" if "k \<notin> A" for v using that by (auto simp: restrict_map_def fun_eq_iff)
    have view: "view_from from older (s\<lparr>ts_calls := m\<rparr>) = (view_from from older s)\<lparr>ts_calls := m |` A\<rparr>" for m by (simp add: view_from_def Let_def A_def)
    show ?thesis
    proof (cases "k \<in> A")
      case True
      then have "k \<in> it_id ` set (ts_items s)" using sub by blast
      then show ?thesis using True unfolding CallNoted v r view_sel A_def [symmetric] by (simp add: view kept)
    next
      case False
      have same: "(view_from from older s)\<lparr>ts_calls := ts_calls s |` A\<rparr> = view_from from older s" by (simp add: view_from_def Let_def A_def)
      show ?thesis using False unfolding CallNoted v r view_sel A_def [symmetric] by (simp add: view left same)
    qed
  next
    case (Truncated after)
    define kept where "kept = (\<lambda>n. case after of Some l \<Rightarrow> n \<le> l | None \<Rightarrow> False)"
    define A B K where "A = it_id ` set (filter (\<lambda>i. from \<le> it_turn i) (ts_items s))"
      and "B = it_id ` set (filter (\<lambda>i. kept (it_turn i) \<and> from \<le> it_turn i) (ts_items s))"
      and "K = it_id ` set (filter (\<lambda>i. kept (it_turn i)) (ts_items s))"
    have "A \<inter> B = B" "K \<inter> B = B" by (auto simp: A_def B_def K_def)
    then have "ts_calls s |` A |` B = ts_calls s |` K |` B" by simp
    then show ?thesis
      by (simp add: Truncated view_from_def Let_def keep_calls_def conj_commute A_def B_def K_def flip: kept_def del: restrict_restrict set_filter)
  qed (simp_all add: view_from_def Let_def)
qed

section \<open>Windows and pages\<close>

lemma view_all:
  assumes "thread_ok s"
  shows "view_from 0 (ts_older s) s = s"
proof -
  have "ts_calls s |` (it_id ` set (ts_items s)) = ts_calls s" using thread_okD(3) [OF assms]
    by (intro ext) (metis domIff restrict_in restrict_out subsetD)
  then show ?thesis by (simp add: view_from_def)
qed

lemma drop_from:
  assumes "sorted_wrt (<) (map tn_id ts)" and "n < length ts"
  shows "drop n ts = filter (\<lambda>t. tn_id (ts ! n) \<le> tn_id t) ts" "filter (\<lambda>t. tn_id t < tn_id (ts ! n)) ts = take n ts"
proof -
  have ts: "ts = take n ts @ ts ! n # drop (Suc n) ts" using assms(2) by (rule id_take_nth_drop)
  have "sorted_wrt (<) (map tn_id (take n ts @ ts ! n # drop (Suc n) ts))" using assms(1) ts by simp
  then have o: "\<forall>t \<in> set (take n ts). tn_id t < tn_id (ts ! n)" "\<forall>t \<in> set (drop (Suc n) ts). tn_id (ts ! n) < tn_id t"
    by (auto simp: sorted_wrt_append simp del: append_take_drop_id)
  have "filter (\<lambda>t. tn_id (ts ! n) \<le> tn_id t) (take n ts) = []" "filter (\<lambda>t. tn_id (ts ! n) \<le> tn_id t) (drop (Suc n) ts) = drop (Suc n) ts"
    "filter (\<lambda>t. tn_id t < tn_id (ts ! n)) (take n ts) = take n ts" "filter (\<lambda>t. tn_id t < tn_id (ts ! n)) (drop (Suc n) ts) = []"
    using o by (force simp: filter_empty_conv filter_id_conv)+
  then show "drop n ts = filter (\<lambda>t. tn_id (ts ! n) \<le> tn_id t) ts" "filter (\<lambda>t. tn_id t < tn_id (ts ! n)) ts = take n ts"
    using arg_cong [OF ts, of "filter (\<lambda>t. tn_id (ts ! n) \<le> tn_id t)"] arg_cong [OF ts, of "filter (\<lambda>t. tn_id t < tn_id (ts ! n))"]
    by (simp_all only: filter_append filter.simps order_refl if_True append_Nil Cons_nth_drop_Suc [OF assms(2), symmetric] less_irrefl if_False append_Nil2)
qed

lemma window_view:
  assumes "thread_ok s" and "0 < n" and "n < length (ts_turns s)"
  shows "window n s = view_from (tn_id (ts_turns s ! (length (ts_turns s) - n))) True s"
proof -
  have "length (ts_turns s) - n < length (ts_turns s)" using assms(2,3) by simp
  note drop_from(1) [OF thread_okD(1) [OF assms(1)] this]
  then show ?thesis using assms(2,3) by (simp add: window_def view_from_def Let_def keep_calls_def)
qed

lemma filter_between:
  fixes f g :: nat
  assumes "sorted (map key xs)" and "g \<le> f"
  shows "filter (\<lambda>x. g \<le> key x \<and> key x < f) xs @ filter (\<lambda>x. f \<le> key x) xs = filter (\<lambda>x. g \<le> key x) xs"
  using assms
proof (induction xs)
  case (Cons x xs)
  show ?case
  proof (cases "f \<le> key x")
    case True
    then have "filter (\<lambda>x. g \<le> key x \<and> key x < f) xs = []" "filter (\<lambda>x. f \<le> key x) xs = xs" "filter (\<lambda>x. g \<le> key x) xs = xs"
      using Cons.prems by (auto simp: filter_empty_conv filter_id_conv)
    then show ?thesis using True Cons.prems by simp
  qed (use Cons in auto)
qed simp

lemma restrict_join: "(m |` P) ++ (m |` V) = m |` (P \<union> V)"
  by (auto simp: map_add_def restrict_map_def fun_eq_iff split: option.splits)

text \<open>A page joined to a view is a longer view.\<close>

lemma prepend_view:
  assumes ok: "thread_ok s" and it: "sorted (map it_turn (ts_items s))" and "g \<le> f"
    and tn: "ts_turns (view_from f a s) = t # ts" "tn_id t = f"
    and p: "pg_turns p = filter (\<lambda>t. g \<le> tn_id t \<and> tn_id t < f) (ts_turns s)" "pg_items p = filter (\<lambda>i. g \<le> it_turn i \<and> it_turn i < f) (ts_items s)"
      "pg_calls p = ts_calls s |` (it_id ` set (pg_items p))" "pg_older p = b"
  shows "prepend p (view_from f a s) = view_from g b s"
proof -
  have "sorted (map tn_id (ts_turns s))" using thread_okD(1) [OF ok] by (simp add: strict_sorted_imp_sorted)
  note turns = filter_between [OF this assms(3)] and items = filter_between [OF it assms(3)]
  have new: "item_index (view_from f a s) (it_id i) = None" if "i \<in> set (ts_items s)" "it_turn i < f" for i
  proof -
    have "it_id i \<noteq> it_id j" if "j \<in> set (ts_items s)" "f \<le> it_turn j" for j
      using thread_okD(2) [OF ok] that \<open>i \<in> set (ts_items s)\<close> \<open>it_turn i < f\<close> by (metis distinct_map inj_onD leD)
    then show ?thesis by (force simp: item_index_def index_None)
  qed
  have "filter (\<lambda>i. it_turn i < f \<and> item_index (view_from f a s) (it_id i) = None) (pg_items p) = pg_items p"
    unfolding p(2) filter_filter by (rule filter_cong) (use new in auto)
  moreover have "filter (\<lambda>t. tn_id t < f) (pg_turns p) = pg_turns p" unfolding p(1) by (auto simp: filter_id_conv)
  moreover have join: "it_id ` set (pg_items p) \<union> it_id ` set (filter (\<lambda>i. f \<le> it_turn i) (ts_items s)) = it_id ` set (filter (\<lambda>i. g \<le> it_turn i) (ts_items s))"
    unfolding p(2) items [symmetric] by auto
  ultimately have "prepend p (view_from f a s) = (view_from f a s)\<lparr>ts_turns := pg_turns p @ ts_turns (view_from f a s),
      ts_items := pg_items p @ ts_items (view_from f a s), ts_calls := pg_calls p ++ ts_calls (view_from f a s), ts_older := b\<rparr>"
    using tn(2) unfolding prepend_def Let_def tn(1) p(4) by simp
  also have "\<dots> = view_from g b s" unfolding view_sel p(3) restrict_join join unfolding p(1,2) turns items by (simp add: view_from_def Let_def)
  finally show ?thesis .
qed

lemma page_joins:
  assumes ok: "thread_ok s" "\<not> ts_older s" and it: "sorted (map it_turn (ts_items s))" and "0 < k"
    and f: "f \<in> tn_id ` set (ts_turns s)" and e: "e = length (filter (\<lambda>t. tn_id t < f) (ts_turns s))"
  shows "e \<le> k \<Longrightarrow> prepend (page_before f k s) (view_from f a s) = s"
    "k < e \<Longrightarrow> prepend (page_before f k s) (view_from f a s) = view_from (tn_id (ts_turns s ! (e - k))) True s"
proof -
  obtain n where n: "n < length (ts_turns s)" "tn_id (ts_turns s ! n) = f" using f by (metis imageE in_set_conv_nth)
  note d = drop_from [OF thread_okD(1) [OF ok(1)] n(1), unfolded n(2)]
  have e: "e = n" using e n(1) by (simp add: d(2))
  have hd: "ts_turns (view_from f a s) = ts_turns s ! n # drop (Suc n) (ts_turns s)" using d(1) n(1) by (simp add: Cons_nth_drop_Suc)
  {
    assume "e \<le> k"
    then have "prepend (page_before f k s) (view_from f a s) = view_from 0 False s"
      by (intro prepend_view [OF ok(1) it _ hd n(2)]) (simp_all add: page_before_def Let_def d(2) e BEFORE_def ok(2) n(1) less_imp_le)
    then show "prepend (page_before f k s) (view_from f a s) = s" using view_all [OF ok(1)] ok(2) by simp
  }
  assume k: "k < e"
  define g where "g = tn_id (ts_turns s ! (e - k))"
  have less: "e - k < length (ts_turns s)" using n(1) e by simp
  note dg = drop_from [OF thread_okD(1) [OF ok(1)] less, folded g_def]
  have taken: "drop (e - k) (take n (ts_turns s)) = filter (\<lambda>t. g \<le> tn_id t \<and> tn_id t < f) (ts_turns s)"
  proof -
    have "drop (e - k) (take n (ts_turns s)) = take (n - (e - k)) (drop (e - k) (ts_turns s))" by (simp add: drop_take)
    also have "\<dots> = filter (\<lambda>t. tn_id t < f) (drop (e - k) (ts_turns s))"
    proof -
      have "sorted_wrt (<) (map tn_id (drop (e - k) (ts_turns s)))" using thread_okD(1) [OF ok(1)] by (simp add: sorted_wrt_drop drop_map [symmetric])
      moreover have "n - (e - k) < length (drop (e - k) (ts_turns s))" "drop (e - k) (ts_turns s) ! (n - (e - k)) = ts_turns s ! n"
        using n(1) e k by simp_all
      ultimately show ?thesis using drop_from(2) [of "drop (e - k) (ts_turns s)" "n - (e - k)"] n(2) by simp
    qed
    finally show ?thesis unfolding dg(1) by (simp add: conj_commute)
  qed
  have "g \<le> f"
  proof -
    have "ts_turns s ! (e - k) \<in> set (take n (ts_turns s))" using n(1) e k \<open>0 < k\<close> by (metis diff_less in_set_conv_nth length_take less_trans min.absorb4 min_less_iff_conj nth_take zero_less_iff_neq_zero not_less_zero)
    then show ?thesis unfolding d(2) [symmetric] g_def by simp
  qed
  moreover have "drop (e - k) (take n (ts_turns s)) = ts_turns s ! (e - k) # drop (Suc (e - k)) (take n (ts_turns s))"
    using n(1) e k \<open>0 < k\<close> by (simp add: Cons_nth_drop_Suc [symmetric])
  then have "(case filter (\<lambda>t. g \<le> tn_id t \<and> tn_id t < f) (ts_turns s) of [] \<Rightarrow> f | t # _ \<Rightarrow> tn_id t) = g"
    unfolding taken by (simp add: g_def)
  ultimately show "prepend (page_before f k s) (view_from f a s) = view_from (tn_id (ts_turns s ! (e - k))) True s"
    unfolding g_def [symmetric] using k taken
    by (intro prepend_view [OF ok(1) it _ hd n(2)]) (simp_all add: page_before_def Let_def d(2) e n(1) less_imp_le)
qed

text \<open>
  One round of a client that scrolls back: it asks for the turns before the first it holds, unless it holds them all
  (\<open>Threads::page\<close>), the worker takes them from its thread as it stands, and the client joins the page that comes.
\<close>

definition ask_page :: "thread_state \<Rightarrow> nat option" where
  "ask_page c = (case ts_turns c of [] \<Rightarrow> None | t # _ \<Rightarrow> if ts_older c then Some (tn_id t) else None)"

definition page_round :: "nat \<Rightarrow> thread_state \<Rightarrow> thread_state \<Rightarrow> thread_state" where
  "page_round k s c = (case ask_page c of None \<Rightarrow> c | Some before \<Rightarrow> prepend (page_before before k s) c)"

lemma page_rounds:
  assumes ok: "thread_ok s" "\<not> ts_older s" and it: "sorted (map it_turn (ts_items s))" and "0 < k" and "n < length (ts_turns s)" and "n \<le> m" and "0 < m"
  shows "(page_round k s ^^ m) (view_from (tn_id (ts_turns s ! n)) True s) = s"
  using assms(5-)
proof (induction m arbitrary: n)
  case (Suc m)
  define f where "f = tn_id (ts_turns s ! n)"
  note d = drop_from [OF thread_okD(1) [OF ok(1)] Suc.prems(1), folded f_def]
  have "ts_turns (view_from f True s) = ts_turns s ! n # drop (Suc n) (ts_turns s)" using d(1) Suc.prems(1) by (simp add: Cons_nth_drop_Suc)
  then have round: "page_round k s (view_from f True s) = prepend (page_before f k s) (view_from f True s)" by (simp add: page_round_def ask_page_def f_def)
  have f: "f \<in> tn_id ` set (ts_turns s)" "n = length (filter (\<lambda>t. tn_id t < f) (ts_turns s))" using Suc.prems(1) by (simp_all add: f_def d(2) [unfolded f_def])
  note j = page_joins [OF ok it assms(4) f]
  show ?case
  proof (cases "n \<le> k")
    case True
    have "page_round k s s = s" using ok(2) by (simp add: page_round_def ask_page_def split: list.splits)
    then have "(page_round k s ^^ m) s = s" by (induction m) simp_all
    then show ?thesis using j(1) [OF True] round by (simp add: funpow_swap1 flip: f_def)
  next
    case False
    then have "(page_round k s ^^ m) (view_from (tn_id (ts_turns s ! (n - k))) True s) = s" using Suc.prems assms(4) by (intro Suc.IH) auto
    then show ?thesis using j(2) False round by (simp add: funpow_swap1 flip: f_def)
  qed
qed simp

section \<open>A worker and a client\<close>

text \<open>
  What a thread's stream carries: the actions the worker applies, each applied by the client after it, and the pages the client asks for.
  A page is joined when the client has every action the page was made after.
\<close>

datatype follow_event = Acted thread_action | Paged nat

fun follow_step :: "follow_event \<Rightarrow> thread_state \<times> thread_state \<Rightarrow> thread_state \<times> thread_state" where
  "follow_step (Acted a) (w, c) = (apply_action a w, apply_action a c)"
| "follow_step (Paged k) (w, c) = (w, page_round k w c)"

definition first_held :: "thread_state \<Rightarrow> nat" where
  "first_held c = (if ts_older c then case ts_turns c of t # _ \<Rightarrow> tn_id t | [] \<Rightarrow> 0 else 0)"

text \<open>
  Actions about what the client holds or about no turn or item, and no cut before the first turn it holds; pages of a turn or more,
  while the worker's items are in the order of their turns.
\<close>

fun event_follows :: "follow_event \<Rightarrow> thread_state \<times> thread_state \<Rightarrow> bool" where
  "event_follows (Acted a) (w, c) = (in_view (first_held c) w a \<and>
     (case a of Truncated after \<Rightarrow> \<not> ts_older c \<or> (case after of None \<Rightarrow> False | Some l \<Rightarrow> first_held c \<le> l) | _ \<Rightarrow> True))"
| "event_follows (Paged k) (w, c) = (0 < k \<and> sorted (map it_turn (ts_items w)))"

fun follow_run :: "follow_event list \<Rightarrow> thread_state \<times> thread_state \<Rightarrow> thread_state \<times> thread_state" where
  "follow_run [] s = s"
| "follow_run (e # es) s = follow_run es (follow_step e s)"

fun all_follow :: "follow_event list \<Rightarrow> thread_state \<times> thread_state \<Rightarrow> bool" where
  "all_follow [] s = True"
| "all_follow (e # es) s = (event_follows e s \<and> all_follow es (follow_step e s))"

definition mirrored :: "thread_state \<Rightarrow> thread_state \<Rightarrow> bool" where
  "mirrored w c \<longleftrightarrow> thread_ok w \<and> \<not> ts_older w \<and>
     (if ts_older c then \<exists>f \<in> tn_id ` set (ts_turns w). c = view_from f True w else c = w)"

lemma view_first:
  assumes "thread_ok s" and "f \<in> tn_id ` set (ts_turns s)"
  shows "\<exists>t ts. ts_turns (view_from f a s) = t # ts \<and> tn_id t = f"
proof -
  obtain n where n: "n < length (ts_turns s)" "tn_id (ts_turns s ! n) = f" using assms(2) by (metis imageE in_set_conv_nth)
  then have "ts_turns (view_from f a s) = ts_turns s ! n # drop (Suc n) (ts_turns s)"
    using drop_from(1) [OF thread_okD(1) [OF assms(1)] n(1)] by (simp add: Cons_nth_drop_Suc)
  then show ?thesis using n(2) by blast
qed

lemma apply_older: "ts_older (apply_action a s) = ts_older s"
  by (cases a) (auto simp: put_turn_def put_item_def keep_calls_def Let_def split: sum.splits option.splits)

lemma apply_first:
  assumes ok: "thread_ok w" and f: "f \<in> tn_id ` set (ts_turns w)"
    and cut: "\<And>after. a = Truncated after \<Longrightarrow> \<exists>l. after = Some l \<and> f \<le> l"
  shows "f \<in> tn_id ` set (ts_turns (apply_action a w))"
proof (cases a)
  case (TurnStarted t)
  obtain u where "u \<in> set (ts_turns w)" "tn_id u = f" using f by auto
  then show ?thesis unfolding TurnStarted reduced(1) [OF ok] by (cases "tn_id t" f rule: linorder_cases) (auto simp: set_turn_def)
next
  case (TurnEnded n state usage ended)
  have "map tn_id (map (\<lambda>t. if tn_id t = n then t\<lparr>tn_state := state, tn_usage := usage, tn_ended_ms := Some ended\<rparr> else t) (ts_turns w)) =
    map tn_id (ts_turns w)" by simp
  then have "tn_id ` set (ts_turns (apply_action a w)) = tn_id ` set (ts_turns w)"
    unfolding TurnEnded reduced(2) [OF ok] by (simp del: map_map set_map flip: list.set_map)
  then show ?thesis using f by simp
next
  case (Truncated after)
  then show ?thesis using f cut [OF Truncated] by (auto simp: keep_calls_def Let_def)
next
  case (ItemRemoved k)
  then show ?thesis using f unfolding ItemRemoved reduced(7) [OF ok] by simp
next
  case (ItemUpdated i)
  then show ?thesis using f unfolding ItemUpdated reduced(5) [OF ok] by simp
next
  case (Append k part tx)
  then show ?thesis using f unfolding Append reduced(6) [OF ok] by simp
qed (use f reduced [OF ok] in \<open>simp_all del: apply_action.simps(5,6)\<close>)

lemma follow_mirrored:
  assumes m: "mirrored w c" and e: "event_follows e (w, c)"
  shows "mirrored (fst (follow_step e (w, c))) (snd (follow_step e (w, c)))"
proof (cases e)
  case (Acted a)
  have ok: "thread_ok w" "\<not> ts_older w" using m by (simp_all add: mirrored_def)
  show ?thesis
  proof (cases "ts_older c")
    case False
    then show ?thesis using m ok apply_action_ok [OF ok(1)] by (simp add: Acted mirrored_def apply_older)
  next
    case True
    then obtain f where f: "f \<in> tn_id ` set (ts_turns w)" "c = view_from f True w" using m by (auto simp: mirrored_def)
    have first: "first_held c = f" using view_first [OF ok(1) f(1), of True] True by (auto simp: first_held_def f(2))
    have "in_view f w a" using e first by (simp add: Acted)
    then have "apply_action a c = view_from f True (apply_action a w)" unfolding f(2) by (rule apply_view [OF ok(1)])
    moreover have "f \<in> tn_id ` set (ts_turns (apply_action a w))"
      using e first True by (intro apply_first [OF ok(1) f(1)]) (auto simp: Acted split: option.splits)
    ultimately show ?thesis using ok apply_action_ok [OF ok(1)] True by (auto simp: Acted mirrored_def apply_older)
  qed
next
  case (Paged k)
  have ok: "thread_ok w" "\<not> ts_older w" using m by (simp_all add: mirrored_def)
  show ?thesis
  proof (cases "ts_older c")
    case False
    then show ?thesis using m by (simp add: Paged page_round_def ask_page_def split: list.splits)
  next
    case True
    then obtain f where f: "f \<in> tn_id ` set (ts_turns w)" "c = view_from f True w" using m by (auto simp: mirrored_def)
    obtain t ts where t: "ts_turns c = t # ts" "tn_id t = f" using view_first [OF ok(1) f(1), of True] f(2) by blast
    define n where "n = length (filter (\<lambda>t. tn_id t < f) (ts_turns w))"
    have page: "page_round k w c = prepend (page_before f k w) (view_from f True w)"
      using t True by (simp add: page_round_def ask_page_def f(2))
    have k: "0 < k" "sorted (map it_turn (ts_items w))" using e by (simp_all add: Paged)
    note j = page_joins [OF ok k(2,1) f(1) n_def]
    show ?thesis
    proof (cases "n \<le> k")
      case True
      then show ?thesis using j(1) [OF True] ok page by (simp add: Paged mirrored_def)
    next
      case False
      have "n - k < length (ts_turns w)"
        using False length_filter_le [of "\<lambda>t. tn_id t < f" "ts_turns w"] k(1) unfolding n_def by linarith
      then have "tn_id (ts_turns w ! (n - k)) \<in> tn_id ` set (ts_turns w)" by simp
      then show ?thesis using j(2) False ok page by (auto simp: Paged mirrored_def)
    qed
  qed
qed

lemma follow_run_mirrored:
  "mirrored w c \<Longrightarrow> all_follow es (w, c) \<Longrightarrow> follow_run es (w, c) = (w', c') \<Longrightarrow> mirrored w' c'"
proof (induction es arbitrary: w c)
  case (Cons e es)
  obtain w1 c1 where st: "follow_step e (w, c) = (w1, c1)" by fastforce
  then show ?case using Cons.IH [of w1 c1] Cons.prems follow_mirrored [of w c e] by simp
qed simp


section \<open>What the client's view does not cover\<close>

text \<open>
  An item told again that the client does not hold lands behind everything it holds, although the reducer's description says that
  an action about an item paged out changes nothing.
\<close>

lemma paged_out_update_lands_last:
  assumes "it_id i \<notin> it_id ` set (ts_items c)" and "a \<in> {ItemStarted i, ItemUpdated i, ItemCompleted i}"
  shows "ts_items (apply_action a c) = ts_items c @ [i]"
proof -
  have "item_index c (it_id i) = None" using assms(1) by (simp add: item_index_def index_None)
  then show ?thesis using assms(2) by (auto simp: put_item_def thread_item_def)
qed

text \<open>A thread of two turns with an item each, and a client that holds the last of them.\<close>

definition demo_turn :: "nat \<Rightarrow> agent_turn" where
  "demo_turn n = \<lparr>tn_id = n, tn_input = None, tn_state = Complete, tn_started_ms = 0, tn_ended_ms = None, tn_usage = Map.empty,
     tn_models = [], tn_changed = \<lparr>ch_added = 0, ch_removed = 0\<rparr>, tn_mode = None, tn_context = None\<rparr>"

definition demo_item :: "ustring \<Rightarrow> nat \<Rightarrow> ustring \<Rightarrow> item" where
  "demo_item k n tx = \<lparr>it_id = k, it_turn = n, it_at_ms = 0, it_body = Text (clipped_whole tx)\<rparr>"

definition demo_thread :: thread_state where
  "demo_thread = (thread_new \<lparr>tm_id = 1, tm_agent = [], tm_agent_version = [], tm_native = [], tm_cwd = [], tm_title = [],
      tm_parent = None, tm_origin = [], tm_drive = [], tm_facts = Map.empty, tm_created_ms = 0\<rparr>)
    \<lparr>ts_turns := [demo_turn 1, demo_turn 2], ts_items := [demo_item [97] 1 [104, 105], demo_item [98] 2 [111, 107]]\<rparr>"

lemma demo_thread_sel:
  "ts_turns demo_thread = [demo_turn 1, demo_turn 2]" "ts_items demo_thread = [demo_item [97] 1 [104, 105], demo_item [98] 2 [111, 107]]"
  "ts_calls demo_thread = Map.empty" "\<not> ts_older demo_thread"
  "tn_id (demo_turn n) = n" "it_id (demo_item k n tx) = k" "it_turn (demo_item k n tx) = n"
  by (simp_all add: demo_thread_def thread_new_def demo_turn_def demo_item_def)

lemma demo_ok: "thread_ok demo_thread"
  by (simp add: thread_ok_def demo_thread_sel)

lemma demo_view: "window 1 demo_thread = view_from 2 True demo_thread"
  using window_view [OF demo_ok, of 1] by (simp add: demo_thread_sel)

text \<open>
  A page the worker makes after an action the client does not have yet holds the action's effect already, and the client applies it
  again: a text appended to an item paged out is there twice. The stream's loop answers a page request at once, while the follower holds the actions
  gathered before it.
\<close>

lemma late_page_doubles_text:
  defines "a \<equiv> Append [97] PartBody [33]" and "c \<equiv> window 1 demo_thread"
  defines "w \<equiv> apply_action a demo_thread"
  shows "map_option it_body (thread_item w [97]) = Some (Text (clipped_append (clipped_whole [104, 105]) [33]))"
    "map_option it_body (thread_item (apply_action a (prepend (page_before 2 1 w) c)) [97]) =
       Some (Text (clipped_append (clipped_append (clipped_whole [104, 105]) [33]) [33]))"
proof -
  have index: "item_index s [97] = Some 0" if "ts_items s = [x, y]" "it_id x = [97]" "it_id y = [98]" for s x y
    using that by (simp add: item_index_def rposition_def)
  have items: "ts_items w = [(demo_item [97] 1 [104, 105])\<lparr>it_body := append_part (Text (clipped_whole [104, 105])) PartBody [33]\<rparr>,
      demo_item [98] 2 [111, 107]]"
    using index [of demo_thread] by (simp add: w_def a_def demo_thread_sel) (simp add: demo_item_def)
  then show "map_option it_body (thread_item w [97]) = Some (Text (clipped_append (clipped_whole [104, 105]) [33]))"
    using index [of w] by (simp add: thread_item_def demo_item_def)
  have w: "ts_turns w = ts_turns demo_thread" "\<not> ts_older w" by (auto simp: w_def a_def demo_thread_sel split: option.splits)
  have c: "ts_turns c = [demo_turn 2]" "ts_items c = [demo_item [98] 2 [111, 107]]" unfolding c_def demo_view by (simp_all add: demo_thread_sel)
  have "item_index c [97] = None" using c(2) by (simp add: item_index_def index_None demo_item_def)
  then have "ts_items (prepend (page_before 2 1 w) c) = ts_items w"
    using w c by (simp add: prepend_def page_before_def Let_def items demo_thread_sel BEFORE_def)
  then show "map_option it_body (thread_item (apply_action a (prepend (page_before 2 1 w) c)) [97]) =
       Some (Text (clipped_append (clipped_append (clipped_whole [104, 105]) [33]) [33]))"
    using index [of "prepend (page_before 2 1 w) c"] index [of "apply_action a (prepend (page_before 2 1 w) c)"]
    by (simp add: items a_def thread_item_def) (simp add: demo_item_def)
qed


end
