(* ===== verification/Spec2Isabelle.thy ===== *)
theory Spec2Isabelle
  imports Repair Reassemble_Reports Redundancy Rate Gates Input_Order Links Scrollback Presenter Predict_Runs
    Sps_Crop Keyed_Verbs Calendar Thread_Views
begin

text \<open>
  Slopty is a remote workstation: a worker on the remote machine captures windows, encodes them and
  runs terminals; a client shows them; a server introduces the two. This development models the part
  of it that has to be right whatever the network does: the media path between worker and client
  (cutting encoded frames into datagrams with parity, putting them together again, asking for what is
  missing, adapting to the path), the ordering of input and terminal frames that travel twice, and
  the clocks and buffers of a link.

  \<^bold>\<open>The theories, and the sources they model (under \<open>src/\<close>).\<close>

  \<^item> \<open>Prelude\<close>: Rust's saturating, wrapping and checked arithmetic, durations and instants, integers
    on the wire. \<open>Ordered_Map\<close>: the operations of \<open>BTreeMap\<close> that the reassembler uses, as the locale
    \<open>ordered_map\<close>, interpreted for an association list in key order.
  \<^item> \<open>Wire\<close> (\<open>slopty-proto/src/media.rs\<close>, \<open>datagram.rs\<close>): channels, kinds, flags, and the media header,
    frame prefix, clock echo and cursor layouts. Each is an interpretation of the locale
    \<open>wire_format\<close>: a fixed size, and a reader that inverts the writer and accepts nothing else.
  \<^item> \<open>Packetize\<close> (\<open>slopty-media/src/packetize.rs\<close>): \<open>layout\<close>, \<open>packetize\<close> and \<open>retransmit\<close>, reachable
    packetizers (\<open>pk_reach\<close>) and their invariant. \<open>Aux_Datagrams\<close> (\<open>audio.rs\<close>, \<open>cursor.rs\<close>,
    \<open>heartbeat.rs\<close>): the other datagrams of a stream.
  \<^item> \<open>Reassemble_State\<close>, \<open>Reassemble_Video\<close>, \<open>Reassemble_Stalls\<close>, \<open>Reassemble\<close>
    (\<open>slopty-media/src/reassemble.rs\<close>): the reassembler's whole state and every operation on it:
    \<open>ingest\<close>, \<open>tick\<close>, \<open>next_frame\<close>, \<open>ack_ltr\<close>, \<open>force_refresh\<close>, \<open>set_source_live\<close>, \<open>take_report\<close>,
    \<open>take_back\<close>. \<open>Reassemble_Order\<close> has the invariant of decode order, \<open>Reassemble_Runs\<close> the step
    relation \<open>ra_run\<close> of all interleavings of the operations, \<open>Reassemble_Policy\<close> what is kept and
    what is asked for again, \<open>Reassemble_Reports\<close> the reports, the stall account and two departures
    from the module's description.
  \<^item> \<open>Media_Path\<close> and \<open>Repair\<close>: the two ends together. What the packetizer sends, the reassembler
    delivers, from any sufficient selection of fragments in any order; what a tick asks for, the
    packetizer's history answers, and the answer completes the frame.
  \<^item> \<open>Redundancy\<close> (\<open>redundancy.rs\<close>), \<open>Gates\<close> (\<open>layers.rs\<close>) and \<open>Rate\<close> (\<open>rate.rs\<close>): the worker's
    adaptation to receiver reports: parity ratio, temporal layers, bitrate, frame-rate ladder, encoder
    watch, capture pacing, chroma. The locales \<open>reporting_gate\<close> and \<open>held_gate\<close> are the contract of a
    gate that reports its changes and of one that stays off for a hold; the layer gate, the cadence and the
    chroma gate are interpretations.
  \<^item> \<open>Input_Order\<close> (\<open>apps/slopty-worker/src/conn.rs\<close>, \<open>slopty-client/src/link.rs\<close>): terminal input,
    window input and terminal frames, each brought by an ordered stream and by datagram copies. The
    locale \<open>exactly_once\<close> is the contract of terminal input, which interprets it. Window input lets stale moves of the
    pointer go, and a whole terminal frame may come again at its number, so what holds of those two is stated on its own.
  \<^item> \<open>Links\<close> (\<open>slopty-net/src/liveness.rs\<close>, \<open>redial.rs\<close>, \<open>slopty-pty/src/ring.rs\<close>): liveness, the
    redial schedule, and the ring of a detached terminal's output.
  \<^item> \<open>Grid\<close> (\<open>slopty-grid/src/cell.rs\<close>, \<open>style.rs\<close>, \<open>modes.rs\<close>, \<open>line.rs\<close>, \<open>screen.rs\<close>): cells, lines with
    their wire form and the budget of a decode, and the screen with every update (\<open>screen_reach\<close>).
  \<^item> \<open>Predict_Line\<close>, \<open>Predict\<close>, \<open>Predict_Runs\<close> (\<open>slopty-predict/src/lib.rs\<close>, the key events of
    \<open>slopty-proto/src/input.rs\<close>): local echo. The first has the row a key edits and the guess for each
    stroke, against a plain line editor (\<open>editor\<close>); the second the predictor's whole state and its
    operations on keys and frames; the third its runs \<open>pd_run\<close> over event lists, and what holds along them.
  \<^item> \<open>Scrollback\<close> (\<open>slopty-grid/src/scrollback.rs\<close>): the client's cache of terminal lines, with every
    cache the client can hold as \<open>sb_reach\<close>: exact gaps, the index of prompts, eviction away from the view.
  \<^item> \<open>Framing\<close> (\<open>slopty-proto/src/codec.rs\<close>, \<open>slopty-net/src/framed.rs\<close>): messages behind their length, encoded
    through a reused buffer and received in whatever pieces they come. The locale \<open>length_prefix\<close> is what a length in front of
    its bytes has to satisfy, interpreted for the little-endian prefix of messages and the big-endian one of NAL units.
  \<^item> \<open>Nal\<close> (\<open>slopty-codec/src/nal.rs\<close>): the walk over an access unit and its split. \<open>Sps\<close>, \<open>Sps_Bits\<close>, \<open>Sps_Crop\<close>
    (\<open>conformance.rs\<close>): a sequence parameter set read and rewritten bit by bit. \<open>Sps\<close> is the model, \<open>Sps_Bits\<close> the
    lemmas on escapes, readers, writers and Exp-Golomb codes, \<open>Sps_Crop\<close> what cropping does.
  \<^item> \<open>Keyed_Verbs\<close> (\<open>slopty-worker/src/orchestrate/idempotency.rs\<close>): verbs done once per key, and the runs \<open>verbs_run\<close> of
    callers and tasks over the table of keys.
  \<^item> \<open>Calendar\<close> (\<open>slopty-core/src/time.rs\<close>): wall times and the date and time of day they name, against a Gregorian
    calendar that counts days by months and leap years (\<open>day_number\<close>, one more for each \<open>next_day\<close>).
  \<^item> \<open>Threads\<close> (\<open>slopty-proto/src/thread.rs\<close>, \<open>thread/reduce.rs\<close>, \<open>thread/work.rs\<close>, \<open>Clipped\<close> of \<open>thread/detail.rs\<close>): an
    agent's thread and the reducer that the worker and every client run on its actions. \<open>Thread_Views\<close>: the turns and items of any
    thread so made, and a client that holds the end of one and pages back (\<open>follow_run\<close>).
  \<^item> \<open>Presenter\<close> (\<open>slopty-client/src/pacing.rs\<close>, \<open>ClockAnchor\<close> of \<open>slopty-media/src/clock.rs\<close>): the
    pacer and its runs \<open>pacer_run\<close>: what is on screen, the account of every decoded frame, frames a second,
    capture times and percentiles.

  \<^bold>\<open>How the model is built.\<close> A Rust struct is a record with the same fields, an enum a datatype, a
  method a function from the old state to the new one and the result. Integers that only count
  are natural numbers with the saturation or wrap-around of their width written out; integers on
  the wire are words. Every function is total: the loops \<open>drain\<close> and \<open>evict\<close> have termination proofs
  (each round removes an entry or settles one), so no fuel occurs. The Reed-Solomon engine (crate
  \<open>reed_solomon_simd\<close>) is a parameter of both ends; \<open>rs_sized\<close> and \<open>rs_recovers\<close> state its documented
  behaviour, and a repetition engine shows that both can hold.

  \<^bold>\<open>What is shown.\<close> Losslessness of the media path, decode order with no missing reference, the
  repair loop, exactness of NACKs, bounded memory and bounded datagrams, exact refusals, round trips
  of the formats, of sound and of reports; exactly-once and in-order delivery of input and frames;
  bounds, hysteresis and recovery of every controller; the liveness clock, the redial bounds and the
  ring's contents; the shape of the screen and the wire form of lines; that a predicted key is the line editor's edit, that its echo confirms it
  and that nothing unconfirmed is drawn after Enter; the scrollback cache's gaps, prompts and evictions; that a paint shows the newest frame; that messages survive any
  cut of their stream, that cropping a parameter set changes its window only, that a keyed verb runs once, that
  dates are the calendar's, and that a client's copy of a thread is the end of the worker's. The run relation leaves out the last frame number \<open>2 ^ 32 - 1\<close>, for the code
  compares frame numbers without wrapping (\<open>Reassemble_Reports\<close>).

  \<^bold>\<open>Not modelled.\<close> Code that computes with floating point (clock estimation, \<open>AudioCopies\<close>,
  \<open>full_chroma_band\<close>, whose result is an argument of the chroma gate); the asynchronous connection
  loops, capture, codecs, platform bindings, user interface, terminal engine, server hub and tools,
  which are I/O or third-party services around these components; logging.
\<close>

section \<open>The media path end to end\<close>

text \<open>
  C1. The media path is lossless: feed any selection of a sent frame's datagrams, originals or
  retransmitted copies, data or parity, in any order and at any times, as long as they are
  distinct fragments and at least as many as the frame has data fragments. A reassembler that waits
  for that frame hands over exactly one more frame, with the encoder's bitstream and its metadata.
\<close>

theorem frame_delivered:
  assumes sent: "snd (snd (packetize rs_enc pk frame ms)) = Inr sent"
    and rs: "rs_sized rs_enc" "rs_recovers rs_enc rs_dec"
    and s: "ra_stream s = pk_stream pk" "ra_frames s = []" "0 < cf_max_pending (ra_cfg s)"
      "unat (pk_next_frame pk) \<notin> set (ra_given_up s)"
      "\<forall>g. ra_last_good s = Some g \<longrightarrow> g < unat (pk_next_frame pk)"
      "admits (ra_need s) (unat (pk_next_frame pk)) (frame_flags frame (pk_previous_discardable pk))"
    and arrivals: "distinct (map fst arrivals)" "\<forall>a \<in> set arrivals. fst a < length (sf_datagrams sent)"
      "ly_data_count (sf_layout sent) \<le> length arrivals"
  shows "\<exists>out. out_matches pk frame out \<and>
    ra_ready (feed rs_dec (map (arrival sent) arrivals) s) = ra_ready s @ [out]"
  by (rule path_lossless [OF assms])

theorem frame_delivered_witness:
  "\<exists>out. out_matches (packetizer_new 7) demo_frame out \<and>
     ra_ready (feed repeat_dec (map (arrival demo_sent) [(2, False, 5), (1, False, 3)])
       (reassembler_new 7 config_default 0)) = [out]"
proof -
  have "\<exists>out. out_matches (packetizer_new 7) demo_frame out \<and>
     ra_ready (feed repeat_dec (map (arrival demo_sent) [(2, False, 5), (1, False, 3)])
       (reassembler_new 7 config_default 0)) = ra_ready (reassembler_new 7 config_default 0) @ [out]"
    by (intro frame_delivered [OF demo_sent(1) repeat_sized repeat_recovers])
       (use demo_admits in \<open>simp_all add: demo_sent packetizer_new_def config_default_def\<close>)
  then show ?thesis by simp
qed

text \<open>
  C2. Decode order: whatever datagrams arrive, in whatever order, and however the client interleaves
  ticks, refreshes, reports and taking frames, the frames it takes are strictly increasing in number,
  the first is a keyframe or a refresh, and each further one either restarts the picture or follows
  its predecessor with nothing between them but frames that a datagram called discardable. The
  decoder is never handed a frame whose reference is missing.
\<close>

theorem decode_order:
  assumes "ra_run rs_dec stream cfg t0 D H s"
  shows "sorted_wrt (<) (map out_no H) \<and> (H \<noteq> [] \<longrightarrow> out_restarts (hd H)) \<and> successively (follows D) H"
  by (rule run_in_decode_order [OF assms])

theorem decode_order_witness:
  "\<exists>out D s. ra_run repeat_dec 7 config_default 0 D [out] s \<and> out_matches (packetizer_new 7) demo_frame out \<and>
     out_restarts out \<and> sorted_wrt (<) (map out_no [out])"
proof -
  obtain dg now where dg: "arrival demo_sent (0, False, 0) = (dg, now)" by (cases "arrival demo_sent (0, False, 0)")
  let ?s = "fst (ingest repeat_dec dg now (reassembler_new 7 config_default 0))"
  obtain out where out: "out_matches (packetizer_new 7) demo_frame out" "ra_ready ?s = [out]"
    using demo_delivered [of "[(0, False, 0)]"] by (auto simp: feed_def dg)
  have "datagram_frame dg < umax 32" using demo_frame_number [of 0 False 0] dg by (simp add: umax_def)
  then have "ra_run repeat_dec 7 config_default 0 ({} \<union> datagram_claims dg) [] ?s"
    by (intro ra_run.ingest ra_run.new)
  from ra_run.take [OF this, of out "?s\<lparr>ra_ready := []\<rparr>"] obtain D s where
    run: "ra_run repeat_dec 7 config_default 0 D [out] s" using out(2) by (auto simp: next_frame_def)
  then show ?thesis using decode_order [OF run] out(1) by auto
qed

text \<open>
  C3. The repair loop closes: some, but too few, of a sent frame's fragments arrived; the reassembler's
  tick asks for the frame; the packetizer that still has the frame in its history answers. Feeding the
  answer delivers the frame: the NACK names every data fragment that is missing, the answer carries
  each of them, and nothing else is needed.
\<close>

theorem nack_repairs_frame:
  assumes sent: "snd (snd (packetize rs_enc pk frame ms)) = Inr sent"
    and rs: "rs_sized rs_enc" "rs_recovers rs_enc rs_dec"
    and s: "ra_stream s = pk_stream pk" "ra_frames s = []" "0 < cf_max_pending (ra_cfg s)"
      "unat (pk_next_frame pk) \<notin> set (ra_given_up s)"
      "\<forall>g. ra_last_good s = Some g \<longrightarrow> g < unat (pk_next_frame pk)"
      "admits (ra_need s) (unat (pk_next_frame pk)) (frame_flags frame (pk_previous_discardable pk))"
      "no_nacks s"
    and arrivals: "distinct (map fst arrivals)" "\<forall>a \<in> set arrivals. fst a < length (sf_datagrams sent)"
      "arrivals \<noteq> []" "length arrivals < ly_data_count (sf_layout sent)"
    and nack: "Nack (unat (pk_next_frame pk)) idxs
      \<in> set (snd (tick now rtt (feed rs_dec (map (arrival sent) arrivals) s)))"
    and kept: "find (\<lambda>x. sf_frame x = pk_next_frame pk) (pk_history pk') = Some sent"
  shows "\<exists>out. out_matches pk frame out \<and>
    ra_ready (feed rs_dec (map (\<lambda>d. (d, t)) (snd (retransmit pk' (pk_next_frame pk) idxs)))
      (fst (tick now rtt (feed rs_dec (map (arrival sent) arrivals) s)))) = ra_ready s @ [out]"
  by (rule nack_answered [OF assms])

theorem nack_repairs_frame_witness:
  "\<exists>out. out_matches bare_packetizer wide_frame out \<and>
    ra_ready (feed repeat_dec (map (\<lambda>d. (d, 9000000))
      (snd (retransmit (fst (packetize repeat_enc bare_packetizer wide_frame 0)) 0 [1])))
      (fst (tick 6000000 20000000 (feed repeat_dec (map (arrival wide_sent) [(0, False, 0)])
        (reassembler_new 7 config_default 0))))) = [out]"
proof -
  have "\<exists>out. out_matches bare_packetizer wide_frame out \<and>
    ra_ready (feed repeat_dec (map (\<lambda>d. (d, 9000000))
      (snd (retransmit (fst (packetize repeat_enc bare_packetizer wide_frame 0)) (pk_next_frame bare_packetizer) [1])))
      (fst (tick 6000000 20000000 (feed repeat_dec (map (arrival wide_sent) [(0, False, 0)])
        (reassembler_new 7 config_default 0))))) = ra_ready (reassembler_new 7 config_default 0) @ [out]"
    by (rule nack_repairs_frame [OF wide_sent(1) repeat_sized repeat_recovers])
       (use wide_admits wide_nack in \<open>simp_all add: wide_sent no_nacks_def config_default_def wide_layout_def\<close>)
  then show ?thesis by simp
qed

section \<open>Sound\<close>

text \<open>
  C34. Sound arrives as it was sent: an audio packet that the worker could put in a datagram fits the
  datagram size, and the client's reassembler reads from it the same packet number, the packet, and the
  copies of earlier packets that were carried, nearest first and never more than two.
\<close>

theorem audio_heard:
  assumes dg: "audio_datagram stream seq ms opus earlier = Some dg" and opus: "opus \<noteq> []"
    and s: "ra_stream s = stream"
  shows "length dg \<le> MAX_DATAGRAM \<and>
    snd (ingest rs_dec dg now s) = IAudio (unat seq) opus
      (take (audio_copies (length opus) (take MAX_AUDIO_COPIES earlier)) earlier) \<and>
    audio_copies (length opus) (take MAX_AUDIO_COPIES earlier) \<le> MAX_AUDIO_COPIES"
proof -
  let ?n = "audio_copies (length opus) (take MAX_AUDIO_COPIES earlier)"
  let ?cs = "take ?n earlier"
  have fits: "length opus \<le> MAX_PAYLOAD" using dg by (simp add: audio_datagram_def split: if_splits)
  obtain h where h: "dg = header_bytes h @ put_copies ?cs @ opus" "mh_channel h = channel_byte Media"
    "mh_stream h = stream" "mh_frame h = seq" "header_kind h = Some Audio"
    "unat (mh_data_count h) = Suc (length ?cs)" "copies_ok ?cs" "length ?cs \<le> MAX_AUDIO_COPIES"
    using audio_datagram_eq [OF fits, of stream seq ms earlier] dg by auto
  have n: "?n \<le> MAX_AUDIO_COPIES" using audio_copies_le [of "length opus" "take MAX_AUDIO_COPIES earlier"] by simp
  then have take: "take ?n (take MAX_AUDIO_COPIES earlier) = ?cs" by (simp add: min_absorb1)
  have "parse_copies (length ?cs) (put_copies ?cs @ opus) 0 = Some (?cs, length (put_copies ?cs))"
    using parse_put_copies [OF h(7), of "[]" opus] by simp
  then have parse: "parse_audio (unat (mh_data_count h)) (put_copies ?cs @ opus) = Some (opus, ?cs)"
    using h(6,8) opus n by (simp add: parse_audio_def)
  have "length dg \<le> MAX_DATAGRAM"
    using audio_copies_size [OF fits, of "take MAX_AUDIO_COPIES earlier"] h(1) take
    by (simp add: header_format.enc_length layout_simps)
  then show ?thesis using n parse h(2-5) s header_parse_bytes [OF h(2), of "put_copies ?cs @ opus"]
    by (simp add: ingest_def h(1) Let_def)
qed

theorem audio_heard_witness:
  "\<exists>dg. audio_datagram 7 3 0 [1, 2] [[3], [4, 5], [6]] = Some dg \<and>
     snd (ingest repeat_dec dg 0 (reassembler_new 7 config_default 0)) = IAudio 3 [1, 2] [[3], [4, 5]]"
proof -
  obtain dg where dg: "audio_datagram 7 3 0 [1, 2] [[3], [4, 5], [6]] = Some dg"
    by (simp add: audio_datagram_def layout_simps Let_def)
  have "audio_copies (length [1, 2 :: byte]) (take MAX_AUDIO_COPIES [[3], [4, 5], [6]]) = 2"
    by (simp add: layout_simps sat_add_def umax_def)
  then show ?thesis
    using audio_heard [OF dg, of "reassembler_new 7 config_default 0" repeat_dec 0] dg by simp
qed

end
